(* ===== verification/Prelude.thy ===== *)
theory Prelude
  imports Main "HOL-Library.AList" "HOL-Library.Word" "HOL-Library.Sublist" "HOL-Library.Multiset"
begin

text \<open>
  Shared vocabulary of the development.

  \<^item> JavaScript strings. Session ids, keys and other short names are \<open>string\<close> (code units
    below 256, which covers every name the program builds itself); stored values, whose length
    in UTF-8 matters to the in-memory cache, are lists of UTF-16 code units (\<open>jstr\<close>).
  \<^item> JavaScript \<open>Map\<close>s are association lists in insertion order: \<open>AList.update\<close> overwrites in
    place or appends, and \<open>AList.delete\<close> removes, exactly as \<open>Map.set\<close> and \<open>Map.delete\<close> do.
  \<^item> An asynchronous function that may throw is a state transformer that returns a sum
    (\<open>Inl\<close> the thrown error); the state reached so far survives a throw.
\<close>

named_theorems act_simps \<open>unfolding rules for effectful computations\<close>
named_theorems jmap_simps \<open>facts about insertion-ordered maps\<close>

section \<open>Strings\<close>

type_synonym jstr = "16 word list"

definition lit :: "string \<Rightarrow> jstr" where
  "lit s = map of_char s"

definition startsWith :: "string \<Rightarrow> string \<Rightarrow> bool" where
  "startsWith s p \<longleftrightarrow> take (length p) s = p"

lemma startsWith_append [simp]: "startsWith (p @ s) p"
  by (simp add: startsWith_def)

lemma startsWith_iff: "startsWith s p \<longleftrightarrow> (\<exists>t. s = p @ t)"
proof
  assume "startsWith s p"
  then have "s = p @ drop (length p) s"
    unfolding startsWith_def by (metis append_take_drop_id)
  then show "\<exists>t. s = p @ t" by blast
qed auto

lemma startsWith_trans: "startsWith s p \<Longrightarrow> startsWith p q \<Longrightarrow> startsWith s q"
  by (auto simp: startsWith_iff)

definition is_high_surrogate :: "16 word \<Rightarrow> bool" where
  "is_high_surrogate u \<longleftrightarrow> 0xD800 \<le> u \<and> u < 0xDC00"

definition is_low_surrogate :: "16 word \<Rightarrow> bool" where
  "is_low_surrogate u \<longleftrightarrow> 0xDC00 \<le> u \<and> u < 0xE000"

definition unit_len :: "16 word \<Rightarrow> nat" where
  "unit_len u = (if u < 0x80 then 1 else if u < 0x800 then 2 else 3)"

text \<open>\<open>Buffer.byteLength(s, 'utf8')\<close>: a surrogate pair is one four-byte sequence, a lone
  surrogate is written as the three-byte replacement character.\<close>

fun byteLength :: "jstr \<Rightarrow> nat" where
  "byteLength [] = 0"
| "byteLength [u] = unit_len u"
| "byteLength (u # v # us) =
     (if is_high_surrogate u \<and> is_low_surrogate v then 4 + byteLength us
      else unit_len u + byteLength (v # us))"

lemma byteLength_ge: "length s \<le> byteLength s"
  by (induction s rule: byteLength.induct) (auto simp: unit_len_def)

lemma byteLength_le: "byteLength s \<le> 3 * length s"
  by (induction s rule: byteLength.induct) (auto simp: unit_len_def)

section \<open>Insertion-ordered maps\<close>

abbreviation keys_of :: "('k \<times> 'v) list \<Rightarrow> 'k list" where
  "keys_of m \<equiv> map fst m"

lemma map_of_filter_key [jmap_simps]:
  "map_of (filter (\<lambda>p. P (fst p)) m) k = (if P k then map_of m k else None)"
  by (induction m) auto

lemma map_of_delete [jmap_simps]: "map_of (AList.delete k m) = (map_of m)(k := None)"
  by (simp add: AList.delete_conv')

lemma map_of_update [jmap_simps]: "map_of (AList.update k v m) = (map_of m)(k \<mapsto> v)"
  by (simp add: AList.update_conv')

lemma distinct_keys_delete [jmap_simps]:
  "distinct (keys_of m) \<Longrightarrow> distinct (keys_of (AList.delete k m))"
  by (simp add: AList.distinct_delete)

lemma distinct_keys_update [jmap_simps]:
  "distinct (keys_of m) \<Longrightarrow> distinct (keys_of (AList.update k v m))"
  by (simp add: AList.distinct_update)

lemma set_delete [jmap_simps]: "set (AList.delete k m) = {p \<in> set m. fst p \<noteq> k}"
  by (auto simp: AList.delete_eq)

lemma keys_delete [jmap_simps]: "keys_of (AList.delete k m) = removeAll k (keys_of m)"
  by (rule AList.delete_keys)

lemma delete_absent: "k \<notin> set (keys_of m) \<Longrightarrow> AList.delete k m = m"
  by (induction m) (auto simp: AList.delete_eq)

lemma update_absent: "k \<notin> set (keys_of m) \<Longrightarrow> AList.update k v m = m @ [(k, v)]"
  by (induction m) auto

text \<open>Re-inserting a key after deleting it moves it to the end: the LRU \<^emph>\<open>touch\<close>.\<close>

lemma update_after_delete: "AList.update k v (AList.delete k m) = AList.delete k m @ [(k, v)]"
  by (rule update_absent) (auto simp: AList.delete_eq)

lemma delete_head: "distinct (keys_of ((k, v) # m)) \<Longrightarrow> AList.delete k ((k, v) # m) = m"
  using delete_absent by (fastforce simp: AList.delete_eq)

lemma length_delete_hd: "m \<noteq> [] \<Longrightarrow> length (AList.delete (fst (hd m)) m) < length m"
  by (cases m) (auto simp: AList.delete_eq le_imp_less_Suc)

text \<open>Later entries win when a list of pairs is stored one after another.\<close>

definition store_all :: "('k \<times> 'v) list \<Rightarrow> ('k \<rightharpoonup> 'v) \<Rightarrow> ('k \<rightharpoonup> 'v)" where
  "store_all es m = fold (\<lambda>(k, v) m. m(k \<mapsto> v)) es m"

lemma store_all_Nil [simp]: "store_all [] m = m"
  by (simp add: store_all_def)

lemma store_all_Cons [simp]: "store_all ((k, v) # es) m = store_all es (m(k \<mapsto> v))"
  by (simp add: store_all_def)

lemma store_all_apply:
  "store_all es m k = (case map_of (rev es) k of Some v \<Rightarrow> Some v | None \<Rightarrow> m k)"
proof (induction es arbitrary: m)
  case (Cons e es)
  then show ?case by (cases e) (auto simp: map_add_def split: option.splits)
qed simp

lemma map_of_rev_distinct: "distinct (keys_of es) \<Longrightarrow> map_of (rev es) = map_of es"
  by (rule map_of_eqI) (auto simp: map_of_eq_Some_iff simp flip: rev_map)

lemma store_all_distinct:
  "distinct (keys_of es) \<Longrightarrow> store_all es m k = (case map_of es k of Some v \<Rightarrow> Some v | None \<Rightarrow> m k)"
  by (simp add: store_all_apply map_of_rev_distinct)

lemma store_all_absent: "k \<notin> fst ` set es \<Longrightarrow> store_all es m k = m k"
  by (induction es arbitrary: m) auto

lemma store_all_present: "k \<in> fst ` set es \<Longrightarrow> store_all es m k = store_all es m' k"
  by (force simp: store_all_apply map_of_eq_None_iff image_iff split: option.splits)

lemma store_all_present_Some: "k \<in> fst ` set es \<Longrightarrow> \<exists>v. store_all es m k = Some v"
  by (force simp: store_all_apply map_of_eq_None_iff image_iff split: option.splits)

section \<open>Computations with state and errors\<close>

type_synonym ('s, 'e, 'a) act = "'s \<Rightarrow> ('e + 'a) \<times> 's"

definition ret :: "'a \<Rightarrow> ('s, 'e, 'a) act" where
  "ret x s = (Inr x, s)"

definition raise :: "'e \<Rightarrow> ('s, 'e, 'a) act" where
  "raise e s = (Inl e, s)"

text \<open>\<open>await m\<close> followed by the rest of the function: a throw skips the rest.\<close>

definition bindA :: "('s, 'e, 'a) act \<Rightarrow> ('a \<Rightarrow> ('s, 'e, 'b) act) \<Rightarrow> ('s, 'e, 'b) act" where
  "bindA m f s = (case m s of (Inl e, s') \<Rightarrow> (Inl e, s') | (Inr x, s') \<Rightarrow> f x s')"

definition thenA :: "('s, 'e, 'a) act \<Rightarrow> ('s, 'e, 'b) act \<Rightarrow> ('s, 'e, 'b) act" where
  "thenA m n = bindA m (\<lambda>_. n)"

text \<open>\<open>await Promise.all(xs.map(f))\<close> run in index order; the first throw ends it.\<close>

fun eachA :: "('x \<Rightarrow> ('s, 'e, unit) act) \<Rightarrow> 'x list \<Rightarrow> ('s, 'e, unit) act" where
  "eachA f [] = ret ()"
| "eachA f (x # xs) = thenA (f x) (eachA f xs)"

lemma ret_apply [act_simps, simp]: "ret x s = (Inr x, s)"
  by (simp add: ret_def)

lemma raise_apply [act_simps, simp]: "raise e s = (Inl e, s)"
  by (simp add: raise_def)

lemma bindA_eq_Inr:
  "bindA m f s = (Inr y, t) \<longleftrightarrow> (\<exists>x s'. m s = (Inr x, s') \<and> f x s' = (Inr y, t))"
  by (auto simp: bindA_def split: prod.splits sum.splits)

lemma bindA_eq_Inl:
  "bindA m f s = (Inl e, t) \<longleftrightarrow>
     m s = (Inl e, t) \<or> (\<exists>x s'. m s = (Inr x, s') \<and> f x s' = (Inl e, t))"
  by (auto simp: bindA_def split: prod.splits sum.splits)

lemma thenA_eq_Inr:
  "thenA m n s = (Inr y, t) \<longleftrightarrow> (\<exists>x s'. m s = (Inr x, s') \<and> n s' = (Inr y, t))"
  by (simp add: thenA_def bindA_eq_Inr)

lemma thenA_eq_Inl:
  "thenA m n s = (Inl e, t) \<longleftrightarrow>
     m s = (Inl e, t) \<or> (\<exists>x s'. m s = (Inr x, s') \<and> n s' = (Inl e, t))"
  by (simp add: thenA_def bindA_eq_Inl)

lemma bindA_ret [act_simps]: "bindA (ret x) f = f x"
  by (simp add: bindA_def fun_eq_iff)

lemma bindA_raise [act_simps]: "bindA (raise e) f = raise e"
  by (simp add: bindA_def fun_eq_iff raise_def)

lemma bindA_assoc: "bindA (bindA m f) g = bindA m (\<lambda>x. bindA (f x) g)"
  by (simp add: bindA_def fun_eq_iff split: prod.splits sum.splits)

text \<open>An invariant every step keeps is kept by the whole fan-out, throw or not.\<close>

lemma eachA_invariant:
  assumes "\<And>x s r t. x \<in> set xs \<Longrightarrow> f x s = (r, t) \<Longrightarrow> P s \<Longrightarrow> P t"
    and "eachA f xs s = (r, t)" and "P s"
  shows "P t"
  using assms
proof (induction xs arbitrary: s r)
  case (Cons x xs)
  obtain r1 s1 where f: "f x s = (r1, s1)" by fastforce
  then have P1: "P s1" using Cons.prems by (meson list.set_intros(1))
  show ?case
  proof (cases r1)
    case Inl
    with f P1 Cons.prems(2) show ?thesis by (simp add: thenA_def bindA_def)
  next
    case (Inr u)
    with f Cons.prems(2) have "eachA f xs s1 = (r, t)" by (simp add: thenA_def bindA_def)
    with Cons.IH P1 Cons.prems(1) show ?thesis by (meson list.set_intros(2))
  qed
qed simp

end
