(* ===== verification/Types.thy ===== *)
theory Types
  imports Prelude
begin

text \<open>
  The shared contracts of \<^verbatim>\<open>src/types.ts\<close>: the rows of the store, the interfaces
  \<open>IDatabaseAdapter\<close> and \<open>IRedisCacheAdapter\<close> as records of operations, and the options.
  An operation of an interface runs over the state of whatever implements it (\<open>'d\<close> for a
  database, \<open>'r\<close> for a Redis client) and may throw. The current time, which an implementation
  reads with \<open>Date.now()\<close>, is an argument of the operations that read it.

  The locales state what the rest of the program relies on: \<open>db_store\<close> for a database adapter
  (with \<open>versioned_store\<close> for the adapters that count writes) and \<open>redis_store\<close> for an L2
  cache. Both are about an abstraction of the implementation's state; a failed write may or may
  not have reached the store, as over any network.
\<close>

section \<open>Errors\<close>

datatype error =
    DriverError string
  | NotInitialised string
  | UndefinedThrown
  | LockTimeout string int
  | WorkerFailed string
  | UnknownOp string
  | BadKeyLength nat
  | MissingPrefix
  | AuthFailed
  | BadJson
  | TypeError string

type_synonym ('s, 'a) io = "('s, error, 'a) act"

section \<open>Rows and options\<close>

record session_record =
  sr_sessionId :: string
  sr_key :: string
  sr_value :: jstr
  sr_updatedAt :: int
  sr_version :: int

record retry_options =
  ro_retries :: "int option"
  ro_minDelayMs :: "int option"
  ro_maxDelayMs :: "int option"

record key_retention_options =
  kr_enabled :: bool
  kr_maxAgeMsByCategory :: "string \<rightharpoonup> int"
  kr_autoRunIntervalMs :: "int option"

record encryption_options =
  eo_enabled :: bool
  eo_key :: string

section \<open>The interfaces\<close>

record 'd adapter =
  ad_name :: string
  ad_init :: "('d, unit) io"
  ad_get :: "string \<Rightarrow> string \<Rightarrow> ('d, session_record option) io"
  ad_getMany :: "string \<Rightarrow> string list \<Rightarrow> ('d, (string \<times> session_record) list) io"
  ad_set :: "string \<Rightarrow> string \<Rightarrow> jstr \<Rightarrow> int \<Rightarrow> ('d, unit) io"
  ad_setMany :: "string \<Rightarrow> (string \<times> jstr) list \<Rightarrow> int \<Rightarrow> ('d, unit) io"
  ad_delete :: "string \<Rightarrow> string \<Rightarrow> ('d, unit) io"
  ad_deleteMany :: "string \<Rightarrow> string list \<Rightarrow> ('d, unit) io"
  ad_getAllKeys :: "string \<Rightarrow> ('d, string list) io"
  ad_deleteSession :: "string \<Rightarrow> ('d, unit) io"
  ad_listSessions :: "('d, string list) io"
  ad_sessionExists :: "string \<Rightarrow> ('d, bool) io"
  ad_close :: "('d, unit) io"

datatype redis_mode = Tcp | Http

record 'r redis_cache =
  rc_mode :: redis_mode
  rc_get :: "string \<Rightarrow> ('r, (jstr \<times> int) option) io"
  rc_set :: "string \<Rightarrow> jstr \<Rightarrow> int \<Rightarrow> int option \<Rightarrow> ('r, unit) io"
  rc_del :: "string \<Rightarrow> ('r, unit) io"
  rc_subscribeInvalidation :: "('r, unit) io option"
  rc_publishInvalidation :: "(string \<Rightarrow> ('r, unit) io) option"
  rc_close :: "('r, unit) io"

record 'r cache_options =
  co_memoryTtlMs :: "int option"
  co_memoryMaxEntries :: "int option"
  co_memoryMaxBytes :: "int option"
  co_redis :: "'r redis_cache option"

section \<open>The contract of a database adapter\<close>

type_synonym db_view = "string \<Rightarrow> string \<Rightarrow> session_record option"

definition value_at :: "db_view \<Rightarrow> string \<Rightarrow> string \<Rightarrow> jstr option" where
  "value_at v sid k = map_option sr_value (v sid k)"

text \<open>A query leaves the rows alone, and what it returns is right; on a connection that is up
  it does return.\<close>

definition query_ok ::
  "('d \<Rightarrow> db_view) \<Rightarrow> ('d \<Rightarrow> bool) \<Rightarrow> ('d \<Rightarrow> bool) \<Rightarrow> ('d, 'a) io \<Rightarrow> 'd \<Rightarrow> ('a \<Rightarrow> bool) \<Rightarrow> bool" where
  "query_ok view ivr up m d P \<longleftrightarrow>
     (\<forall>r d'. m d = (r, d') \<longrightarrow> ivr d' \<and> view d' = view d \<and> (\<forall>x. r = Inr x \<longrightarrow> P x)) \<and>
     (up d \<longrightarrow> (\<exists>x d'. m d = (Inr x, d') \<and> up d'))"

text \<open>A write that returns has done its work; one that throws has done all of it or nothing.\<close>

definition update_ok ::
  "('d \<Rightarrow> db_view) \<Rightarrow> ('d \<Rightarrow> bool) \<Rightarrow> ('d \<Rightarrow> bool) \<Rightarrow> bool \<Rightarrow> ('d, 'a) io \<Rightarrow> 'd \<Rightarrow>
    (db_view \<Rightarrow> bool) \<Rightarrow> bool" where
  "update_ok view ivr up can m d Q \<longleftrightarrow>
     (\<forall>r d'. m d = (r, d') \<longrightarrow> ivr d' \<and>
        (case r of Inr _ \<Rightarrow> Q (view d') | Inl _ \<Rightarrow> view d' = view d \<or> Q (view d'))) \<and>
     (up d \<and> can \<longrightarrow> (\<exists>x d'. m d = (Inr x, d') \<and> up d'))"

definition upserted :: "string \<Rightarrow> (string \<times> jstr) list \<Rightarrow> int \<Rightarrow> db_view \<Rightarrow> db_view \<Rightarrow> bool" where
  "upserted sid es now v v' \<longleftrightarrow>
     (\<forall>s k. if s = sid \<and> k \<in> fst ` set es
       then \<exists>r. v' s k = Some r \<and> sr_sessionId r = s \<and> sr_key r = k \<and>
              Some (sr_value r) = store_all es Map.empty k \<and> sr_updatedAt r = now
       else v' s k = v s k)"

definition removed :: "string \<Rightarrow> string list \<Rightarrow> db_view \<Rightarrow> db_view \<Rightarrow> bool" where
  "removed sid ks v v' \<longleftrightarrow> v' = (\<lambda>s k. if s = sid \<and> k \<in> set ks then None else v s k)"

definition wiped :: "string \<Rightarrow> db_view \<Rightarrow> db_view \<Rightarrow> bool" where
  "wiped sid v v' \<longleftrightarrow> v' = v(sid := Map.empty)"

definition bumped :: "string \<Rightarrow> (string \<times> jstr) list \<Rightarrow> db_view \<Rightarrow> db_view \<Rightarrow> bool" where
  "bumped sid es v v' \<longleftrightarrow>
     (\<forall>k \<in> fst ` set es. \<forall>r'. v' sid k = Some r' \<longrightarrow>
        (case v sid k of None \<Rightarrow> 1 \<le> sr_version r' | Some r \<Rightarrow> sr_version r < sr_version r'))"

locale db_store =
  fixes A :: "'d adapter"
    and view :: "'d \<Rightarrow> db_view"
    and ivr :: "'d \<Rightarrow> bool"
    and up :: "'d \<Rightarrow> bool"
    and lsid :: "string \<Rightarrow> bool"
    and lkey :: "string \<Rightarrow> bool"
  assumes get_ok: "ivr d \<Longrightarrow> lsid sid \<Longrightarrow> lkey k \<Longrightarrow>
      query_ok view ivr up (ad_get A sid k) d (\<lambda>r. r = view d sid k)"
    and getMany_ok: "ivr d \<Longrightarrow> lsid sid \<Longrightarrow> \<forall>k \<in> set ks. lkey k \<Longrightarrow>
      query_ok view ivr up (ad_getMany A sid ks) d
        (\<lambda>m. distinct (keys_of m) \<and> map_of m = (\<lambda>k. if k \<in> set ks then view d sid k else None))"
    and setMany_ok: "ivr d \<Longrightarrow> lsid sid \<Longrightarrow> \<forall>e \<in> set es. lkey (fst e) \<Longrightarrow>
      update_ok view ivr up (distinct (keys_of es)) (ad_setMany A sid es now) d
        (upserted sid es now (view d))"
    and set_ok: "ivr d \<Longrightarrow> lsid sid \<Longrightarrow> lkey k \<Longrightarrow>
      update_ok view ivr up True (ad_set A sid k x now) d (upserted sid [(k, x)] now (view d))"
    and deleteMany_ok: "ivr d \<Longrightarrow> lsid sid \<Longrightarrow> \<forall>k \<in> set ks. lkey k \<Longrightarrow>
      update_ok view ivr up True (ad_deleteMany A sid ks) d (removed sid ks (view d))"
    and delete_ok: "ivr d \<Longrightarrow> lsid sid \<Longrightarrow> lkey k \<Longrightarrow>
      update_ok view ivr up True (ad_delete A sid k) d (removed sid [k] (view d))"
    and getAllKeys_ok: "ivr d \<Longrightarrow> lsid sid \<Longrightarrow>
      query_ok view ivr up (ad_getAllKeys A sid) d
        (\<lambda>ks. distinct ks \<and> set ks = {k. view d sid k \<noteq> None})"
    and deleteSession_ok: "ivr d \<Longrightarrow> lsid sid \<Longrightarrow>
      update_ok view ivr up True (ad_deleteSession A sid) d (wiped sid (view d))"
    and listSessions_ok: "ivr d \<Longrightarrow>
      query_ok view ivr up (ad_listSessions A) d
        (\<lambda>sids. distinct sids \<and> set sids = {s. \<exists>k. view d s k \<noteq> None})"
    and sessionExists_ok: "ivr d \<Longrightarrow> lsid sid \<Longrightarrow>
      query_ok view ivr up (ad_sessionExists A sid) d (\<lambda>b. b \<longleftrightarrow> (\<exists>k. view d sid k \<noteq> None))"
    and view_legal: "ivr d \<Longrightarrow> view d s k \<noteq> None \<Longrightarrow> lsid s \<and> lkey k"
    and view_record: "ivr d \<Longrightarrow> view d s k = Some r \<Longrightarrow> sr_sessionId r = s \<and> sr_key r = k"

locale versioned_store = db_store +
  assumes setMany_bumps: "ivr d \<Longrightarrow> lsid sid \<Longrightarrow> \<forall>e \<in> set es. lkey (fst e) \<Longrightarrow>
      ad_setMany A sid es now d = (Inr (), d') \<Longrightarrow> bumped sid es (view d) (view d')"

section \<open>The contract of an L2 cache\<close>

text \<open>A cache may forget entries at any time (\<open>\<subseteq>\<^sub>m\<close>), but never invents or mixes them up.\<close>

locale redis_store =
  fixes R :: "'r redis_cache"
    and l2 :: "'r \<Rightarrow> string \<rightharpoonup> jstr \<times> int"
    and rup :: "'r \<Rightarrow> bool"
  assumes rget: "rc_get R k c = (g, c') \<Longrightarrow>
      l2 c' \<subseteq>\<^sub>m l2 c \<and> (\<forall>x. g = Inr (Some x) \<longrightarrow> l2 c k = Some x)"
    and rset: "rc_set R k v n ttl c = (r, c') \<Longrightarrow>
      (case r of Inr _ \<Rightarrow> l2 c' \<subseteq>\<^sub>m (l2 c)(k \<mapsto> (v, n))
               | Inl _ \<Rightarrow> l2 c' \<subseteq>\<^sub>m l2 c \<or> l2 c' \<subseteq>\<^sub>m (l2 c)(k \<mapsto> (v, n)))"
    and rdel: "rc_del R k c = (r, c') \<Longrightarrow>
      (case r of Inr _ \<Rightarrow> l2 c' \<subseteq>\<^sub>m (l2 c)(k := None) | Inl _ \<Rightarrow> l2 c' \<subseteq>\<^sub>m l2 c)"
    and rpublish: "rc_publishInvalidation R = Some p \<Longrightarrow> p k c = (r, c') \<Longrightarrow> l2 c' \<subseteq>\<^sub>m l2 c"
    and rget_up: "rup c \<Longrightarrow> \<exists>x c'. rc_get R k c = (Inr x, c') \<and> rup c'"
    and rset_up: "rup c \<Longrightarrow> \<exists>c'. rc_set R k v n ttl c = (Inr (), c') \<and> rup c'"
    and rdel_up: "rup c \<Longrightarrow> \<exists>c'. rc_del R k c = (Inr (), c') \<and> rup c'"
    and rpublish_up: "rc_publishInvalidation R = Some p \<Longrightarrow> rup c \<Longrightarrow>
      \<exists>c'. p k c = (Inr (), c') \<and> rup c'"

section \<open>Facts about the contracts\<close>

lemma query_okD:
  assumes "query_ok view ivr up m d P" and "m d = (r, d')"
  shows "ivr d'" and "view d' = view d" and "r = Inr x \<Longrightarrow> P x"
  using assms by (auto simp: query_ok_def)

lemma query_okI:
  assumes "\<And>r d'. m d = (r, d') \<Longrightarrow> ivr d' \<and> view d' = view d \<and> (\<forall>x. r = Inr x \<longrightarrow> P x)"
    and "up d \<Longrightarrow> \<exists>x d'. m d = (Inr x, d') \<and> up d'"
  shows "query_ok view ivr up m d P"
  using assms by (auto simp: query_ok_def)

lemma query_ok_up: "query_ok view ivr up m d P \<Longrightarrow> up d \<Longrightarrow> \<exists>x d'. m d = (Inr x, d') \<and> up d' \<and> P x"
  by (fastforce simp: query_ok_def)

lemma update_okD:
  assumes "update_ok view ivr up can m d Q" and "m d = (r, d')"
  shows "ivr d'" and "r = Inr x \<Longrightarrow> Q (view d')"
    and "r = Inl e \<Longrightarrow> view d' = view d \<or> Q (view d')"
  using assms by (auto simp: update_ok_def split: sum.splits)

lemma update_ok_up:
  "update_ok view ivr up can m d Q \<Longrightarrow> up d \<Longrightarrow> can \<Longrightarrow> \<exists>x d'. m d = (Inr x, d') \<and> up d' \<and> Q (view d')"
  by (fastforce simp: update_ok_def)

lemma update_ok_discard:
  "update_ok view ivr up can m d Q \<Longrightarrow> update_ok view ivr up can (thenA m (ret ())) d Q"
  by (auto simp: update_ok_def thenA_def bindA_def split: prod.splits sum.splits)

lemma query_ok_return:
  "ivr d \<Longrightarrow> P x \<Longrightarrow> query_ok view ivr up (ret x) d P"
  by (auto simp: query_ok_def)

lemma query_ok_map:
  assumes "query_ok view ivr up m d P" and "\<And>x. P x \<Longrightarrow> Q (f x)"
  shows "query_ok view ivr up (bindA m (\<lambda>x. ret (f x))) d Q"
  using assms by (fastforce simp: query_ok_def bindA_def split: prod.splits sum.splits)

lemma update_ok_weaken:
  "update_ok view ivr up can m d Q \<Longrightarrow> (can' \<Longrightarrow> can) \<Longrightarrow> (\<And>v. Q v \<Longrightarrow> Q' v) \<Longrightarrow>
    update_ok view ivr up can' m d Q'"
  by (fastforce simp: update_ok_def split: sum.splits)

lemma update_ok_return:
  "ivr d \<Longrightarrow> Q (view d) \<Longrightarrow> update_ok view ivr up can (ret ()) d Q"
  by (auto simp: update_ok_def)

lemma upserted_Nil [simp]: "upserted sid [] now v v' \<longleftrightarrow> v' = v"
  by (auto simp: upserted_def fun_eq_iff)

lemma removed_Nil [simp]: "removed sid [] v v' \<longleftrightarrow> v' = v"
  by (auto simp: removed_def)

lemma upserted_there:
  assumes "upserted sid es now v v'" and "k \<in> fst ` set es"
  shows "\<exists>r. v' sid k = Some r \<and> sr_sessionId r = sid \<and> sr_key r = k \<and>
    Some (sr_value r) = store_all es Map.empty k \<and> sr_updatedAt r = now"
proof -
  from assms(1) have "if sid = sid \<and> k \<in> fst ` set es
       then \<exists>r. v' sid k = Some r \<and> sr_sessionId r = sid \<and> sr_key r = k \<and>
              Some (sr_value r) = store_all es Map.empty k \<and> sr_updatedAt r = now
       else v' sid k = v sid k"
    unfolding upserted_def by (elim allE)
  with assms(2) show ?thesis by simp
qed

lemma upserted_value:
  "upserted sid es now v v' \<Longrightarrow> k \<in> fst ` set es \<Longrightarrow> value_at v' sid k = store_all es Map.empty k"
proof -
  assume "upserted sid es now v v'" and "k \<in> fst ` set es"
  then obtain r where "v' sid k = Some r" and "Some (sr_value r) = store_all es Map.empty k"
    unfolding upserted_def by metis
  then show ?thesis by (simp add: value_at_def)
qed

lemma upserted_other: "upserted sid es now v v' \<Longrightarrow> s \<noteq> sid \<or> k \<notin> fst ` set es \<Longrightarrow> v' s k = v s k"
  unfolding upserted_def by (metis (full_types))

lemma upserted_value_at:
  assumes "upserted sid es now v v'"
  shows "value_at v' s k =
    (if s = sid \<and> k \<in> fst ` set es then store_all es Map.empty k else value_at v s k)"
proof (cases "s = sid \<and> k \<in> fst ` set es")
  case True
  with upserted_value [OF assms] show ?thesis by simp
next
  case False
  then have "v' s k = v s k" using upserted_other [OF assms] by metis
  then have "value_at v' s k = value_at v s k" by (simp add: value_at_def)
  with False show ?thesis by metis
qed

lemma upserted_idem: "upserted sid es now v u \<Longrightarrow> upserted sid es now u w \<Longrightarrow> upserted sid es now v w"
  unfolding upserted_def by (metis (full_types))

lemma removed_idem: "removed sid ks v u \<Longrightarrow> removed sid ks u w \<Longrightarrow> removed sid ks v w"
  by (auto simp: removed_def fun_eq_iff)

lemma wiped_idem: "wiped sid v u \<Longrightarrow> wiped sid u w \<Longrightarrow> wiped sid v w"
  by (auto simp: wiped_def)

end
