(* ===== verification/MemCache.thy ===== *)
theory MemCache
  imports Types
begin

text \<open>
  \<^verbatim>\<open>src/cache/memory-cache.ts\<close>: the L1 cache. The JavaScript \<open>Map\<close> it keeps its entries in is an
  association list in insertion order, so the least recently used entry is its head. Every
  operation of the class is a function on the whole object; \<open>now\<close> is what \<open>Date.now()\<close> returns.
  The sweep timer is the interval it was started with, if it is running.
\<close>

definition DEFAULT_TTL_MS :: int where "DEFAULT_TTL_MS = 30000"
definition DEFAULT_MAX_ENTRIES :: int where "DEFAULT_MAX_ENTRIES = 5000"
definition DEFAULT_MAX_BYTES :: int where "DEFAULT_MAX_BYTES = 25 * 1024 * 1024"

section \<open>The object\<close>

record cache_entry =
  ce_value :: jstr
  ce_version :: int
  ce_expiresAt :: int
  ce_byteSize :: int

record mcache =
  mc_store :: "(string \<times> cache_entry) list"
  mc_ttlMs :: int
  mc_maxEntries :: int
  mc_maxBytes :: int
  mc_currentBytes :: int
  mc_sweepTimer :: "int option"

text \<open>\<open>ttlMs / 2\<close> is a floating-point division in the source; below 50 and above 5000 the clamp
  decides, and in between half a millisecond is rounded down, as \<open>setInterval\<close> truncates its delay.\<close>

definition mc_new :: "int option \<Rightarrow> int option \<Rightarrow> int option \<Rightarrow> mcache" where
  "mc_new ttl maxEntries maxBytes =
     (let ttlMs = (case ttl of None \<Rightarrow> DEFAULT_TTL_MS | Some x \<Rightarrow> x) in
      \<lparr>mc_store = [], mc_ttlMs = ttlMs,
       mc_maxEntries = (case maxEntries of None \<Rightarrow> DEFAULT_MAX_ENTRIES | Some x \<Rightarrow> x),
       mc_maxBytes = (case maxBytes of None \<Rightarrow> DEFAULT_MAX_BYTES | Some x \<Rightarrow> x),
       mc_currentBytes = 0,
       mc_sweepTimer = Some (min (max (ttlMs div 2) 50) 5000)\<rparr>)"

section \<open>The operations\<close>

definition mc_drop :: "string \<Rightarrow> cache_entry \<Rightarrow> mcache \<Rightarrow> mcache" where
  "mc_drop k e c = c\<lparr>mc_store := AList.delete k (mc_store c),
                     mc_currentBytes := mc_currentBytes c - ce_byteSize e\<rparr>"

definition mc_delete :: "string \<Rightarrow> mcache \<Rightarrow> mcache" where
  "mc_delete k c = (case map_of (mc_store c) k of None \<Rightarrow> c | Some e \<Rightarrow> mc_drop k e c)"

definition mc_get :: "string \<Rightarrow> int \<Rightarrow> mcache \<Rightarrow> (jstr \<times> int) option \<times> mcache" where
  "mc_get k now c =
     (case map_of (mc_store c) k of
        None \<Rightarrow> (None, c)
      | Some e \<Rightarrow>
          if ce_expiresAt e \<le> now then (None, mc_drop k e c)
          else (Some (ce_value e, ce_version e),
                c\<lparr>mc_store := AList.update k e (AList.delete k (mc_store c))\<rparr>))"

definition mc_over :: "mcache \<Rightarrow> bool" where
  "mc_over c \<longleftrightarrow> int (length (mc_store c)) > mc_maxEntries c \<or> mc_currentBytes c > mc_maxBytes c"

lemma mc_delete_head_shorter:
  "mc_store c \<noteq> [] \<Longrightarrow> length (mc_store (mc_delete (fst (hd (mc_store c))) c)) < length (mc_store c)"
  by (cases "mc_store c") (auto simp: mc_delete_def mc_drop_def AList.delete_eq le_imp_less_Suc)

function evictIfNeeded :: "mcache \<Rightarrow> mcache" where
  "evictIfNeeded c =
     (if mc_over c \<and> length (mc_store c) > 0 then
        (let oldestKey = fst (hd (mc_store c)) in
         if oldestKey = '''' then c else evictIfNeeded (mc_delete oldestKey c))
      else c)"
  by pat_completeness auto
termination
  by (relation "measure (\<lambda>c. length (mc_store c))") (auto intro: mc_delete_head_shorter)

declare evictIfNeeded.simps [simp del]

definition mc_set :: "string \<Rightarrow> jstr \<Rightarrow> int \<Rightarrow> int \<Rightarrow> mcache \<Rightarrow> mcache" where
  "mc_set k v version now c =
     (let c1 = (case map_of (mc_store c) k of None \<Rightarrow> c | Some e \<Rightarrow> mc_drop k e c);
          byteSize = int (byteLength v);
          e' = \<lparr>ce_value = v, ce_version = version, ce_expiresAt = now + mc_ttlMs c1, ce_byteSize = byteSize\<rparr>;
          c2 = c1\<lparr>mc_store := AList.update k e' (mc_store c1),
                  mc_currentBytes := mc_currentBytes c1 + byteSize\<rparr>
      in evictIfNeeded c2)"

text \<open>Deleting entries while iterating a JavaScript \<open>Map\<close> is well defined: every key present at
  the start and not yet deleted is still visited, so the loop runs over the keys it started with.\<close>

definition mc_deleteByPrefix :: "string \<Rightarrow> mcache \<Rightarrow> mcache" where
  "mc_deleteByPrefix p c =
     fold (\<lambda>k c. if startsWith k p then mc_delete k c else c) (keys_of (mc_store c)) c"

definition mc_clear :: "mcache \<Rightarrow> mcache" where
  "mc_clear c = c\<lparr>mc_store := [], mc_currentBytes := 0\<rparr>"

definition mc_size :: "mcache \<Rightarrow> int" where
  "mc_size c = int (length (mc_store c))"

definition mc_approximateBytes :: "mcache \<Rightarrow> int" where
  "mc_approximateBytes c = mc_currentBytes c"

definition mc_destroy :: "mcache \<Rightarrow> mcache" where
  "mc_destroy c = mc_clear (case mc_sweepTimer c of None \<Rightarrow> c | Some _ \<Rightarrow> c\<lparr>mc_sweepTimer := None\<rparr>)"

definition mc_sweepExpired :: "int \<Rightarrow> mcache \<Rightarrow> mcache" where
  "mc_sweepExpired now c =
     fold (\<lambda>(k, e) c. if ce_expiresAt e \<le> now then mc_delete k c else c) (mc_store c) c"

section \<open>The invariant\<close>

definition bytes_of :: "(string \<times> cache_entry) list \<Rightarrow> int" where
  "bytes_of m = (\<Sum>(k, e) \<leftarrow> m. ce_byteSize e)"

definition mc_wf :: "mcache \<Rightarrow> bool" where
  "mc_wf c \<longleftrightarrow> distinct (keys_of (mc_store c)) \<and>
     (\<forall>(k, e) \<in> set (mc_store c). ce_byteSize e = int (byteLength (ce_value e))) \<and>
     mc_currentBytes c = bytes_of (mc_store c)"

lemma bytes_of_simps [simp]:
  "bytes_of [] = 0" "bytes_of ((k, e) # m) = ce_byteSize e + bytes_of m"
  "bytes_of (m @ m') = bytes_of m + bytes_of m'"
  by (simp_all add: bytes_of_def)

lemma bytes_of_delete:
  "distinct (keys_of m) \<Longrightarrow> map_of m k = Some e \<Longrightarrow> bytes_of (AList.delete k m) = bytes_of m - ce_byteSize e"
proof (induction m)
  case (Cons p m)
  obtain k' e' where p: "p = (k', e')" by fastforce
  show ?case
  proof (cases "k' = k")
    case True
    with Cons.prems p have "AList.delete k m = m" by (auto intro: delete_absent)
    with True Cons.prems p show ?thesis by simp
  next
    case False
    with Cons p show ?thesis by simp
  qed
qed simp

lemma mc_wf_drop: "mc_wf c \<Longrightarrow> map_of (mc_store c) k = Some e \<Longrightarrow> mc_wf (mc_drop k e c)"
  by (auto simp: mc_wf_def mc_drop_def bytes_of_delete jmap_simps distinct_removeAll)

lemma mc_wf_delete: "mc_wf c \<Longrightarrow> mc_wf (mc_delete k c)"
  by (auto simp: mc_delete_def mc_wf_drop split: option.splits)

lemma mc_touch:
  "AList.update k e (AList.delete k m) = AList.delete k m @ [(k, e)]"
  by (rule update_after_delete)

lemma mc_wf_get: "mc_wf c \<Longrightarrow> mc_wf (snd (mc_get k now c))"
proof (cases "map_of (mc_store c) k")
  case (Some e)
  assume wf: "mc_wf c"
  then have e: "ce_byteSize e = int (byteLength (ce_value e))"
    using map_of_SomeD [OF Some] by (auto simp: mc_wf_def)
  have "mc_wf (c\<lparr>mc_store := AList.delete k (mc_store c) @ [(k, e)]\<rparr>)"
    using wf e bytes_of_delete [OF _ Some] by (simp add: mc_wf_def jmap_simps distinct_removeAll)
  with Some wf show ?thesis by (simp add: mc_get_def mc_wf_drop mc_touch)
qed (simp add: mc_get_def)

lemma mc_wf_evict: "mc_wf c \<Longrightarrow> mc_wf (evictIfNeeded c)"
proof (induction c rule: evictIfNeeded.induct)
  case (1 c)
  then show ?case by (subst evictIfNeeded.simps) (auto simp: Let_def mc_wf_delete)
qed

lemma mc_wf_set: "mc_wf c \<Longrightarrow> mc_wf (mc_set k v version now c)"
proof -
  assume wf: "mc_wf c"
  define c1 where "c1 = (case map_of (mc_store c) k of None \<Rightarrow> c | Some e \<Rightarrow> mc_drop k e c)"
  have wf1: "mc_wf c1" and new: "k \<notin> set (keys_of (mc_store c1))"
    using wf mc_wf_drop [of c k]
    by (auto simp: c1_def mc_drop_def jmap_simps map_of_eq_None_iff image_iff split: option.splits)
  show ?thesis
    unfolding mc_set_def Let_def c1_def [symmetric]
    by (rule mc_wf_evict) (use wf1 new in \<open>auto simp: mc_wf_def update_absent\<close>)
qed

lemma mc_wf_fold:
  "(\<And>x c. mc_wf c \<Longrightarrow> mc_wf (f x c)) \<Longrightarrow> mc_wf c \<Longrightarrow> mc_wf (fold f xs c)"
  by (induction xs arbitrary: c) auto

lemma mc_wf_deleteByPrefix: "mc_wf c \<Longrightarrow> mc_wf (mc_deleteByPrefix p c)"
  unfolding mc_deleteByPrefix_def by (rule mc_wf_fold) (auto simp: mc_wf_delete)

lemma mc_wf_sweep: "mc_wf c \<Longrightarrow> mc_wf (mc_sweepExpired now c)"
  unfolding mc_sweepExpired_def by (rule mc_wf_fold) (auto simp: mc_wf_delete)

lemma mc_wf_clear: "mc_wf (mc_clear c)"
  by (simp add: mc_wf_def mc_clear_def)

lemma mc_wf_destroy: "mc_wf (mc_destroy c)"
  by (simp add: mc_destroy_def mc_wf_clear)

lemma mc_wf_new: "mc_wf (mc_new t n b)"
  by (simp add: mc_wf_def mc_new_def Let_def)

lemmas mc_wf_intros = mc_wf_new mc_wf_get mc_wf_set mc_wf_delete mc_wf_deleteByPrefix mc_wf_sweep
  mc_wf_clear mc_wf_destroy

section \<open>What the operations do to the entries\<close>

lemma mc_cfg [simp]:
  "mc_maxEntries (mc_delete k c) = mc_maxEntries c" "mc_maxBytes (mc_delete k c) = mc_maxBytes c"
  "mc_ttlMs (mc_delete k c) = mc_ttlMs c"
  by (simp_all add: mc_delete_def mc_drop_def split: option.splits)

lemma mc_cfg_get [simp]:
  "mc_maxEntries (snd (mc_get k now c)) = mc_maxEntries c"
  "mc_maxBytes (snd (mc_get k now c)) = mc_maxBytes c"
  "mc_ttlMs (snd (mc_get k now c)) = mc_ttlMs c"
  by (simp_all add: mc_get_def mc_drop_def split: option.splits)

lemma mc_cfg_evict [simp]:
  "mc_maxEntries (evictIfNeeded c) = mc_maxEntries c" "mc_maxBytes (evictIfNeeded c) = mc_maxBytes c"
  "mc_ttlMs (evictIfNeeded c) = mc_ttlMs c"
proof -
  have "mc_maxEntries (evictIfNeeded c) = mc_maxEntries c \<and> mc_maxBytes (evictIfNeeded c) = mc_maxBytes c \<and>
    mc_ttlMs (evictIfNeeded c) = mc_ttlMs c"
  proof (induction c rule: evictIfNeeded.induct)
    case (1 c)
    show ?case
    proof (cases "mc_over c \<and> length (mc_store c) > 0 \<and> fst (hd (mc_store c)) \<noteq> ''''")
      case True
      then have "evictIfNeeded c = evictIfNeeded (mc_delete (fst (hd (mc_store c))) c)"
        by (subst evictIfNeeded.simps) simp
      with 1 True show ?thesis by simp
    next
      case False
      then have "evictIfNeeded c = c" by (subst evictIfNeeded.simps) (auto simp: Let_def)
      then show ?thesis by simp
    qed
  qed
  then show "mc_maxEntries (evictIfNeeded c) = mc_maxEntries c"
    "mc_maxBytes (evictIfNeeded c) = mc_maxBytes c" "mc_ttlMs (evictIfNeeded c) = mc_ttlMs c" by auto
qed

lemma mc_cfg_set [simp]:
  "mc_maxEntries (mc_set k v n now c) = mc_maxEntries c" "mc_maxBytes (mc_set k v n now c) = mc_maxBytes c"
  "mc_ttlMs (mc_set k v n now c) = mc_ttlMs c"
  by (simp_all add: mc_set_def mc_drop_def Let_def split: option.splits)

lemma mc_store_delete: "mc_store (mc_delete k c) = AList.delete k (mc_store c)"
  by (auto simp: mc_delete_def mc_drop_def delete_absent map_of_eq_None_iff split: option.splits)

lemma mc_store_get_subset: "map_of (mc_store (snd (mc_get k now c))) \<subseteq>\<^sub>m map_of (mc_store c)"
  by (auto simp: mc_get_def mc_drop_def map_le_def jmap_simps split: option.splits if_splits)

lemma evict_stop: "\<not> (mc_over c \<and> mc_store c \<noteq> [] \<and> fst (hd (mc_store c)) \<noteq> '''') \<Longrightarrow> evictIfNeeded c = c"
  by (subst evictIfNeeded.simps) (auto simp: Let_def)

lemma evict_go: "mc_over c \<Longrightarrow> mc_store c = (k, e) # m \<Longrightarrow> k \<noteq> '''' \<Longrightarrow>
    evictIfNeeded c = evictIfNeeded (mc_delete k c)"
  by (subst evictIfNeeded.simps) simp

lemma mc_store_delete_hd:
  "distinct (keys_of (mc_store c)) \<Longrightarrow> mc_store c = (k, e) # m \<Longrightarrow> mc_store (mc_delete k c) = m"
  by (metis mc_store_delete delete_head)

lemma mc_store_evict:
  "distinct (keys_of (mc_store c)) \<Longrightarrow> \<exists>n. mc_store (evictIfNeeded c) = drop n (mc_store c)"
proof (induction "length (mc_store c)" arbitrary: c rule: less_induct)
  case less
  show ?case
  proof (cases "mc_over c \<and> mc_store c \<noteq> [] \<and> fst (hd (mc_store c)) \<noteq> ''''")
    case True
    then obtain k e m where m: "mc_store c = (k, e) # m" and k: "k \<noteq> ''''" by (cases "mc_store c") auto
    from less.prems m have d: "mc_store (mc_delete k c) = m" by (rule mc_store_delete_hd)
    with less.prems less.hyps [of "mc_delete k c"] m
    obtain n where "mc_store (evictIfNeeded (mc_delete k c)) = drop n m" by auto
    with evict_go [OF _ m k] True m have "mc_store (evictIfNeeded c) = drop (Suc n) (mc_store c)" by simp
    then show ?thesis ..
  next
    case False
    then have "mc_store (evictIfNeeded c) = drop 0 (mc_store c)" by (simp add: evict_stop)
    then show ?thesis ..
  qed
qed

lemma map_of_drop_le: "distinct (keys_of m) \<Longrightarrow> map_of (drop n m) \<subseteq>\<^sub>m map_of m"
proof -
  assume d: "distinct (keys_of m)"
  have "map_of m a = Some y" if "map_of (drop n m) a = Some y" for a y
    using map_of_SomeD [OF that] d by (auto dest: in_set_dropD)
  then show ?thesis by (fastforce simp: map_le_def)
qed

definition mc_entry :: "jstr \<Rightarrow> int \<Rightarrow> int \<Rightarrow> mcache \<Rightarrow> cache_entry" where
  "mc_entry v n now c =
     \<lparr>ce_value = v, ce_version = n, ce_expiresAt = now + mc_ttlMs c, ce_byteSize = int (byteLength v)\<rparr>"

definition mc_before_evict :: "string \<Rightarrow> jstr \<Rightarrow> int \<Rightarrow> int \<Rightarrow> mcache \<Rightarrow> mcache" where
  "mc_before_evict k v n now c =
     (mc_delete k c)\<lparr>mc_store := AList.delete k (mc_store c) @ [(k, mc_entry v n now c)],
       mc_currentBytes := mc_currentBytes (mc_delete k c) + int (byteLength v)\<rparr>"

lemma mc_set_eq: "mc_set k v n now c = evictIfNeeded (mc_before_evict k v n now c)"
  by (auto simp: mc_set_def mc_before_evict_def mc_entry_def mc_delete_def mc_drop_def Let_def mc_touch
      update_absent delete_absent map_of_eq_None_iff split: option.splits)

lemma mc_before_evict_store [simp]:
  "mc_store (mc_before_evict k v n now c) = AList.delete k (mc_store c) @ [(k, mc_entry v n now c)]"
  by (simp add: mc_before_evict_def)

lemma mc_before_evict_cfg [simp]:
  "mc_maxEntries (mc_before_evict k v n now c) = mc_maxEntries c"
  "mc_maxBytes (mc_before_evict k v n now c) = mc_maxBytes c"
  by (simp_all add: mc_before_evict_def)

lemma mc_before_evict_distinct:
  "distinct (keys_of (mc_store c)) \<Longrightarrow> distinct (keys_of (mc_store (mc_before_evict k v n now c)))"
  by (simp add: jmap_simps distinct_removeAll)

lemma mc_wf_before_evict: "mc_wf c \<Longrightarrow> mc_wf (mc_before_evict k v n now c)"
  using mc_wf_delete [of c k]
  by (auto simp: mc_wf_def mc_before_evict_def mc_entry_def mc_store_delete jmap_simps distinct_removeAll)

lemma mc_store_set_subset:
  assumes "mc_wf c"
  shows "map_of (mc_store (mc_set k v n now c)) \<subseteq>\<^sub>m (map_of (mc_store c))(k \<mapsto> mc_entry v n now c)"
proof -
  have d: "distinct (keys_of (mc_store (mc_before_evict k v n now c)))"
    using assms by (intro mc_before_evict_distinct) (simp add: mc_wf_def)
  from mc_store_evict [OF d] map_of_drop_le [OF d]
  have "map_of (mc_store (mc_set k v n now c)) \<subseteq>\<^sub>m map_of (mc_store (mc_before_evict k v n now c))"
    unfolding mc_set_eq by metis
  moreover have "map_of (mc_store (mc_before_evict k v n now c)) = (map_of (mc_store c))(k \<mapsto> mc_entry v n now c)"
    by (auto simp: fun_eq_iff map_add_def jmap_simps split: option.splits)
  ultimately show ?thesis by simp
qed

lemma fold_delete_filter:
  "mc_store (fold (\<lambda>k c. if P k then mc_delete k c else c) ks c) =
    filter (\<lambda>p. \<not> (fst p \<in> set ks \<and> P (fst p))) (mc_store c)"
  by (induction ks arbitrary: c) (auto simp: mc_store_delete AList.delete_eq intro!: filter_cong)

lemma mc_store_prefix:
  "mc_store (mc_deleteByPrefix p c) = filter (\<lambda>e. \<not> startsWith (fst e) p) (mc_store c)"
  unfolding mc_deleteByPrefix_def fold_delete_filter by (auto intro!: filter_cong)

section \<open>The bounds\<close>

definition over_at :: "mcache \<Rightarrow> nat \<Rightarrow> bool" where
  "over_at c n \<longleftrightarrow> int (length (mc_store c) - n) > mc_maxEntries c \<or>
     bytes_of (drop n (mc_store c)) > mc_maxBytes c"

lemma mc_wf_over: "mc_wf c \<Longrightarrow> mc_over c \<longleftrightarrow> over_at c 0"
  by (simp add: mc_over_def over_at_def mc_wf_def)

lemma evict_minimal:
  assumes "mc_wf c" and "'''' \<notin> set (keys_of (mc_store c))"
    and "0 \<le> mc_maxEntries c" and "0 \<le> mc_maxBytes c"
  shows "\<exists>n. mc_store (evictIfNeeded c) = drop n (mc_store c) \<and> \<not> over_at c n \<and> (\<forall>m<n. over_at c m)"
  using assms
proof (induction "length (mc_store c)" arbitrary: c rule: less_induct)
  case less
  show ?case
  proof (cases "mc_over c")
    case False
    with less.prems have "mc_store (evictIfNeeded c) = drop 0 (mc_store c) \<and> \<not> over_at c 0"
      by (simp add: evict_stop mc_wf_over)
    then show ?thesis by blast
  next
    case over: True
    with less.prems have "mc_store c \<noteq> []" by (auto simp: mc_over_def mc_wf_def)
    then obtain k e m where m: "mc_store c = (k, e) # m" by (cases "mc_store c") auto
    with less.prems(2) have k: "k \<noteq> ''''" by auto
    have dm: "mc_store (mc_delete k c) = m"
      using less.prems(1) m by (auto simp: mc_wf_def intro!: mc_store_delete_hd)
    have at: "over_at (mc_delete k c) i = over_at c (Suc i)" for i
      by (simp add: over_at_def dm m)
    from less.hyps [of "mc_delete k c"] less.prems dm m mc_wf_delete [of c k]
    obtain n where n: "mc_store (evictIfNeeded (mc_delete k c)) = drop n m"
      "\<not> over_at c (Suc n)" "\<forall>i<n. over_at c (Suc i)" by (auto simp: at)
    have "\<forall>i<Suc n. over_at c i"
      using n(3) over less.prems(1) mc_wf_over [of c] by (auto simp: less_Suc_eq_0_disj)
    with n m evict_go [OF over m k] show ?thesis by (intro exI [of _ "Suc n"]) simp
  qed
qed

definition mc_bounded :: "mcache \<Rightarrow> bool" where
  "mc_bounded c \<longleftrightarrow> mc_size c \<le> mc_maxEntries c \<and> mc_approximateBytes c \<le> mc_maxBytes c \<and>
     '''' \<notin> set (keys_of (mc_store c))"

lemma bytes_of_nonneg: "(\<forall>(k, e) \<in> set m. 0 \<le> ce_byteSize e) \<Longrightarrow> 0 \<le> bytes_of m"
  by (induction m) auto

lemma mc_wf_nonneg: "mc_wf c \<Longrightarrow> (k, e) \<in> set (mc_store c) \<Longrightarrow> 0 \<le> ce_byteSize e"
  by (auto simp: mc_wf_def)

lemma bytes_of_filter_le:
  "(\<forall>(k, e) \<in> set m. 0 \<le> ce_byteSize e) \<Longrightarrow> bytes_of (filter P m) \<le> bytes_of m"
  by (induction m) (auto intro: add_increasing)

lemma mc_bounded_filter:
  assumes "mc_wf c" and "mc_bounded c" and "mc_wf c'" and "mc_store c' = filter P (mc_store c)"
    and "mc_maxEntries c' = mc_maxEntries c" and "mc_maxBytes c' = mc_maxBytes c"
  shows "mc_bounded c'"
proof -
  have "bytes_of (filter P (mc_store c)) \<le> bytes_of (mc_store c)"
    by (rule bytes_of_filter_le) (use assms(1) in \<open>auto simp: mc_wf_def\<close>)
  moreover have "int (length (filter P (mc_store c))) \<le> mc_maxEntries c"
    using assms(2) length_filter_le [of P "mc_store c"] unfolding mc_bounded_def mc_size_def by linarith
  ultimately show ?thesis
    using assms by (auto simp: mc_bounded_def mc_size_def mc_approximateBytes_def mc_wf_def)
qed

lemma mc_bounded_delete: "mc_wf c \<Longrightarrow> mc_bounded c \<Longrightarrow> mc_bounded (mc_delete k c)"
  by (rule mc_bounded_filter [of c]) (simp_all add: mc_wf_delete mc_store_delete AList.delete_eq)

lemma mc_bounded_get: "mc_wf c \<Longrightarrow> mc_bounded c \<Longrightarrow> mc_bounded (snd (mc_get k now c))"
proof (cases "map_of (mc_store c) k")
  case (Some e)
  assume wf: "mc_wf c" and b: "mc_bounded c"
  from Some have k: "k \<in> set (keys_of (mc_store c))" by (metis map_of_eq_None_iff option.distinct(1) set_map)
  have "mc_bounded (mc_drop k e c)"
    using mc_bounded_delete [OF wf b, of k] Some by (simp add: mc_delete_def)
  moreover have "length (AList.delete k (mc_store c)) < length (mc_store c)"
    using k by (auto simp: AList.delete_eq intro: length_filter_less)
  ultimately show ?thesis
    using Some b k by (auto simp: mc_get_def mc_touch mc_bounded_def mc_size_def mc_approximateBytes_def
        jmap_simps image_iff)
qed (simp add: mc_get_def)

lemma mc_bounded_set:
  assumes "mc_wf c" and "mc_bounded c" and "k \<noteq> ''''" and "0 \<le> mc_maxEntries c" and "0 \<le> mc_maxBytes c"
  shows "mc_bounded (mc_set k v n now c)"
proof -
  let ?c = "mc_before_evict k v n now c"
  have wf: "mc_wf ?c" by (rule mc_wf_before_evict [OF assms(1)])
  have ne: "'''' \<notin> set (keys_of (mc_store ?c))"
    using assms(2,3) by (auto simp: mc_bounded_def jmap_simps)
  from evict_minimal [OF wf ne] assms(4,5) obtain j where j:
    "mc_store (evictIfNeeded ?c) = drop j (mc_store ?c)" "\<not> over_at ?c j" by auto
  have "bytes_of (mc_store (evictIfNeeded ?c)) = mc_currentBytes (evictIfNeeded ?c)"
    using mc_wf_evict [OF wf] by (simp add: mc_wf_def)
  moreover have "set (keys_of (drop j (mc_store ?c))) \<subseteq> set (keys_of (mc_store ?c))"
    by (metis drop_map set_drop_subset)
  ultimately show ?thesis
    using j ne unfolding mc_set_eq mc_bounded_def mc_size_def mc_approximateBytes_def over_at_def
    by (auto simp del: mc_before_evict_store)
qed

section \<open>Runs of operations\<close>

datatype mc_op =
    MGet string int
  | MSet string jstr int int
  | MDelete string
  | MDeleteByPrefix string
  | MClear
  | MSweep int
  | MDestroy

fun mc_step :: "mc_op \<Rightarrow> mcache \<Rightarrow> mcache" where
  "mc_step (MGet k now) c = snd (mc_get k now c)"
| "mc_step (MSet k v n now) c = mc_set k v n now c"
| "mc_step (MDelete k) c = mc_delete k c"
| "mc_step (MDeleteByPrefix p) c = mc_deleteByPrefix p c"
| "mc_step MClear c = mc_clear c"
| "mc_step (MSweep now) c = mc_sweepExpired now c"
| "mc_step MDestroy c = mc_destroy c"

definition mc_run :: "mc_op list \<Rightarrow> mcache \<Rightarrow> mcache" where
  "mc_run ops c = fold mc_step ops c"

fun stores_empty_key :: "mc_op \<Rightarrow> bool" where
  "stores_empty_key (MSet k v n now) = (k = '''')"
| "stores_empty_key _ = False"

fun uses :: "mc_op \<Rightarrow> string list" where
  "uses (MGet k now) = [k]"
| "uses (MSet k v n now) = [k]"
| "uses _ = []"

lemma fold_sweep_filter:
  "distinct (keys_of m) \<Longrightarrow>
    mc_store (fold (\<lambda>(k, e) c. if ce_expiresAt e \<le> now then mc_delete k c else c) m c) =
      filter (\<lambda>p. \<not> (\<exists>e. (fst p, e) \<in> set m \<and> ce_expiresAt e \<le> now)) (mc_store c)"
proof (induction m arbitrary: c)
  case (Cons p m)
  obtain k e where p: "p = (k, e)" by fastforce
  from Cons.prems p have "(k, e') \<notin> set m" for e' by (metis distinct.simps(2) list.simps(9) fst_conv in_set_zip zip_map_fst_snd image_eqI set_map)
  with Cons p show ?case
    by (auto simp: mc_store_delete AList.delete_eq intro!: filter_cong)
qed simp

lemma mc_store_sweep:
  assumes "distinct (keys_of (mc_store c))"
  shows "mc_store (mc_sweepExpired now c) = filter (\<lambda>p. now < ce_expiresAt (snd p)) (mc_store c)"
proof -
  have "(\<exists>e'. (k, e') \<in> set (mc_store c) \<and> ce_expiresAt e' \<le> now) \<longleftrightarrow> ce_expiresAt e \<le> now"
    if "(k, e) \<in> set (mc_store c)" for k e
    using that assms by (metis eq_key_imp_eq_value)
  then show ?thesis
    unfolding mc_sweepExpired_def fold_sweep_filter [OF assms]
    by (intro filter_cong refl) (metis not_le prod.collapse)
qed

text \<open>The configuration of a cache never changes after its construction.\<close>

lemma mc_fold_cfg:
  assumes "\<And>x c. mc_maxEntries (f x c) = mc_maxEntries c \<and> mc_maxBytes (f x c) = mc_maxBytes c"
  shows "mc_maxEntries (fold f xs c) = mc_maxEntries c" and "mc_maxBytes (fold f xs c) = mc_maxBytes c"
  using assms by (induction xs arbitrary: c) auto

lemma mc_cfg_step [simp]:
  "mc_maxEntries (mc_step op c) = mc_maxEntries c" "mc_maxBytes (mc_step op c) = mc_maxBytes c"
proof -
  have "mc_maxEntries (mc_step op c) = mc_maxEntries c \<and> mc_maxBytes (mc_step op c) = mc_maxBytes c"
    by (cases op) (auto simp: mc_deleteByPrefix_def mc_sweepExpired_def mc_clear_def mc_destroy_def
        split: option.splits prod.splits intro!: mc_fold_cfg)
  then show "mc_maxEntries (mc_step op c) = mc_maxEntries c" "mc_maxBytes (mc_step op c) = mc_maxBytes c"
    by auto
qed

lemma mc_wf_step: "mc_wf c \<Longrightarrow> mc_wf (mc_step op c)"
  by (cases op) (auto intro: mc_wf_intros)

lemma mc_bounded_step:
  assumes "mc_wf c" and "mc_bounded c" and "\<not> stores_empty_key op"
    and "0 \<le> mc_maxEntries c" and "0 \<le> mc_maxBytes c"
  shows "mc_bounded (mc_step op c)"
proof (cases op)
  case (MDeleteByPrefix p)
  with assms mc_cfg_step [of op c] show ?thesis
    by (intro mc_bounded_filter [OF assms(1,2) mc_wf_step [OF assms(1)]]) (auto simp: mc_store_prefix)
next
  case (MSweep now)
  with assms mc_cfg_step [of op c] show ?thesis
    by (intro mc_bounded_filter [OF assms(1,2) mc_wf_step [OF assms(1)]])
      (auto simp: mc_wf_def mc_store_sweep)
next
  case MClear
  with assms show ?thesis by (auto simp: mc_clear_def mc_bounded_def mc_size_def mc_approximateBytes_def)
next
  case MDestroy
  with assms show ?thesis
    by (auto simp: mc_destroy_def mc_clear_def mc_bounded_def mc_size_def mc_approximateBytes_def
        split: option.splits)
qed (use assms in \<open>auto simp: mc_bounded_get mc_bounded_set mc_bounded_delete\<close>)

lemma mc_run_snoc: "mc_run (ops @ [op]) c = mc_step op (mc_run ops c)"
  by (simp add: mc_run_def)

lemma mc_run_invariant:
  assumes "mc_wf c" and "mc_bounded c" and "0 \<le> mc_maxEntries c" and "0 \<le> mc_maxBytes c"
    and "\<forall>op \<in> set ops. \<not> stores_empty_key op"
  shows "mc_wf (mc_run ops c) \<and> mc_bounded (mc_run ops c) \<and>
    mc_maxEntries (mc_run ops c) = mc_maxEntries c \<and> mc_maxBytes (mc_run ops c) = mc_maxBytes c"
  using assms(5)
proof (induction ops rule: rev_induct)
  case Nil
  with assms show ?case by (simp add: mc_run_def)
next
  case (snoc op ops)
  with assms(3,4) show ?case by (simp add: mc_run_snoc mc_wf_step mc_bounded_step)
qed

text \<open>C12. However the cache is used, it stays within its limits: after any sequence of
  operations on a new cache (none of which stores under the empty key, which the composite keys
  of the cache manager never are) there are at most \<open>maxEntries\<close> entries, the byte counter is
  at most \<open>maxBytes\<close> and is exactly the sum of the UTF-8 sizes of the values held, and no key
  occurs twice.\<close>

theorem memory_cache_bounded:
  assumes "0 \<le> maxEntries" and "0 \<le> maxBytes" and "\<forall>op \<in> set ops. \<not> stores_empty_key op"
    and "c = mc_run ops (mc_new ttl (Some maxEntries) (Some maxBytes))"
  shows "mc_size c \<le> maxEntries \<and> mc_approximateBytes c \<le> maxBytes \<and> distinct (keys_of (mc_store c)) \<and>
    mc_approximateBytes c = (\<Sum>(k, e) \<leftarrow> mc_store c. int (byteLength (ce_value e)))"
proof -
  let ?n = "mc_new ttl (Some maxEntries) (Some maxBytes)"
  have b: "mc_bounded ?n" and m: "mc_maxEntries ?n = maxEntries" "mc_maxBytes ?n = maxBytes"
    using assms(1,2) by (simp_all add: mc_new_def mc_bounded_def mc_size_def mc_approximateBytes_def Let_def)
  from mc_run_invariant [OF mc_wf_new b _ _ assms(3)] assms(1,2) m
  have inv: "mc_wf c" "mc_bounded c" "mc_maxEntries c = maxEntries" "mc_maxBytes c = maxBytes"
    by (auto simp: assms(4))
  then have "bytes_of (mc_store c) = (\<Sum>(k, e) \<leftarrow> mc_store c. int (byteLength (ce_value e)))"
    unfolding bytes_of_def by (intro arg_cong [of _ _ sum_list] map_cong) (auto simp: mc_wf_def)
  with inv show ?thesis by (simp add: mc_wf_def mc_bounded_def mc_approximateBytes_def)
qed

theorem memory_cache_bounded_witness:
  "mc_size (mc_run [MSet ''a'' [1, 2] 1 0, MSet ''b'' [3] 1 0, MSet ''c'' [4] 1 0]
      (mc_new None (Some 2) (Some 10))) \<le> 2"
  using memory_cache_bounded [of 2 10 "[MSet ''a'' [1, 2] 1 0, MSet ''b'' [3] 1 0, MSet ''c'' [4] 1 0]"
      "mc_run [MSet ''a'' [1, 2] 1 0, MSet ''b'' [3] 1 0, MSet ''c'' [4] 1 0]
      (mc_new None (Some 2) (Some 10))" None] by simp

section \<open>Recency\<close>

lemma remdups_snoc: "remdups (xs @ [k]) = removeAll k (remdups xs) @ [k]"
  by (induction xs) auto

lemma subseq_removeAll: "subseq xs ys \<Longrightarrow> subseq (removeAll k xs) (removeAll k ys)"
  by (simp add: removeAll_filter_not_eq subseq_filter)

lemma subseq_touch: "subseq xs ys \<Longrightarrow> subseq (removeAll k xs @ [k]) (removeAll k ys @ [k])"
  by (simp add: subseq_removeAll list_emb_append_mono)

lemma subseq_keys_filter: "subseq (keys_of (filter P m)) (keys_of m)"
  by (rule subseq_map) (rule subseq_filter_left)

lemma subseq_keys_drop: "subseq (keys_of (drop n m)) (keys_of m)"
  by (metis drop_map suffix_drop suffix_imp_subseq)

text \<open>One step moves a key it uses to the end, or only drops entries.\<close>

lemma mc_step_order:
  assumes "mc_wf c"
  shows "subseq (keys_of (mc_store (mc_step op c)))
    (case uses op of [] \<Rightarrow> keys_of (mc_store c) | k # _ \<Rightarrow> removeAll k (keys_of (mc_store c)) @ [k])"
proof (cases op)
  case (MGet k now)
  show ?thesis
  proof (cases "map_of (mc_store c) k")
    case None
    then have "removeAll k (keys_of (mc_store c)) = keys_of (mc_store c)"
      by (auto simp: map_of_eq_None_iff intro!: removeAll_id)
    with MGet None show ?thesis by (simp add: mc_get_def prefix_imp_subseq)
  next
    case (Some e)
    with MGet show ?thesis by (simp add: mc_get_def mc_drop_def mc_touch jmap_simps prefix_imp_subseq)
  qed
next
  case (MSet k v n now)
  have "distinct (keys_of (mc_store (mc_before_evict k v n now c)))"
    using assms by (intro mc_before_evict_distinct) (simp add: mc_wf_def)
  from mc_store_evict [OF this] subseq_keys_drop
  have "subseq (keys_of (mc_store (mc_set k v n now c))) (keys_of (mc_store (mc_before_evict k v n now c)))"
    unfolding mc_set_eq by metis
  with MSet show ?thesis by (simp add: jmap_simps)
next
  case (MDelete k)
  then show ?thesis by (simp add: mc_store_delete AList.delete_eq subseq_keys_filter)
next
  case (MSweep now)
  with assms show ?thesis by (simp add: mc_wf_def mc_store_sweep subseq_keys_filter)
qed (simp_all add: mc_store_prefix subseq_keys_filter mc_clear_def mc_destroy_def split: option.splits)

text \<open>The order entries are kept in is the order of last use: after any run, the cached keys
  are, oldest first, a subsequence of the keys the run read or wrote, each at its last use. So
  the entry evicted first is always the least recently used one.\<close>

lemma memory_cache_lru_order:
  "subseq (keys_of (mc_store (mc_run ops (mc_new ttl maxEntries maxBytes))))
     (remdups (concat (map uses ops)))"
proof (induction ops rule: rev_induct)
  case Nil
  show ?case by (simp add: mc_run_def mc_new_def Let_def)
next
  case (snoc op ops)
  let ?c = "mc_run ops (mc_new ttl maxEntries maxBytes)"
  have wf: "mc_wf ?c"
    unfolding mc_run_def by (rule mc_wf_fold) (auto intro: mc_wf_step mc_wf_new)
  show ?case
  proof (cases "uses op")
    case Nil
    with mc_step_order [OF wf, of op] snoc.IH show ?thesis
      by (auto simp: mc_run_snoc intro: subseq_order.order_trans)
  next
    case (Cons k ks)
    then have "ks = []" by (cases op) auto
    with Cons mc_step_order [OF wf, of op] subseq_touch [OF snoc.IH, of k] show ?thesis
      by (auto simp: mc_run_snoc remdups_snoc simp del: remdups_append2 intro: subseq_order.order_trans)
  qed
qed

text \<open>Storing a value evicts exactly as much as it must: the entries are put in use order with
  the stored one last, and from the front the shortest run of them is dropped that brings both
  the entry count and the byte total back under their limits.\<close>

lemma memory_cache_evicts_minimally:
  assumes "mc_wf c" and "mc_bounded c" and "k \<noteq> ''''"
    and "0 \<le> mc_maxEntries c" and "0 \<le> mc_maxBytes c"
    and "all = AList.delete k (mc_store c) @ [(k, mc_entry v n now c)]"
  shows "\<exists>j. mc_store (mc_set k v n now c) = drop j all \<and>
    int (length all - j) \<le> mc_maxEntries c \<and> bytes_of (drop j all) \<le> mc_maxBytes c \<and>
    (\<forall>i<j. int (length all - i) > mc_maxEntries c \<or> bytes_of (drop i all) > mc_maxBytes c)"
proof -
  have "'''' \<notin> set (keys_of (mc_store (mc_before_evict k v n now c)))"
    using assms(2,3) by (auto simp: mc_bounded_def jmap_simps)
  from evict_minimal [OF mc_wf_before_evict [OF assms(1)] this] assms(4-6)
  show ?thesis by (auto simp: mc_set_eq over_at_def not_less)
qed

lemma memory_cache_evicts_minimally_witness:
  "\<exists>j. mc_store (mc_set ''b'' [7] 1 0 (mc_set ''a'' [5] 1 0 (mc_new None (Some 1) (Some 10)))) =
     drop j [(''a'', mc_entry [5] 1 0 (mc_new None (Some 1) (Some 10))),
             (''b'', mc_entry [7] 1 0 (mc_new None (Some 1) (Some 10)))]"
proof -
  let ?n = "mc_new None (Some 1) (Some 10)"
  let ?c = "mc_set ''a'' [5] 1 0 ?n"
  have n: "mc_bounded ?n" "mc_maxEntries ?n = 1" "mc_maxBytes ?n = 10"
    by (simp_all add: mc_new_def mc_bounded_def mc_size_def mc_approximateBytes_def Let_def)
  have st: "mc_store ?c = [(''a'', mc_entry [5] 1 0 ?n)]"
    by (simp add: mc_set_def mc_entry_def mc_new_def Let_def evictIfNeeded.simps mc_over_def unit_len_def)
  have "mc_entry [7] 1 0 ?c = mc_entry [7] 1 0 ?n" by (simp add: mc_entry_def)
  with memory_cache_evicts_minimally [of ?c "''b''" _ "[7]" 1 0] st n
  show ?thesis by (fastforce intro: mc_wf_intros mc_bounded_set)
qed

section \<open>Refinement of an unbounded map with expiry\<close>

text \<open>The specification: a map from keys to values, versions and expiry times that forgets
  nothing by itself.\<close>

type_synonym um = "string \<rightharpoonup> jstr \<times> int \<times> int"

fun um_step :: "int \<Rightarrow> mc_op \<Rightarrow> um \<Rightarrow> um" where
  "um_step ttl (MSet k v n now) m = m(k \<mapsto> (v, n, now + ttl))"
| "um_step ttl (MDelete k) m = m(k := None)"
| "um_step ttl (MDeleteByPrefix p) m = (\<lambda>k. if startsWith k p then None else m k)"
| "um_step ttl MClear m = Map.empty"
| "um_step ttl MDestroy m = Map.empty"
| "um_step ttl _ m = m"

definition um_of :: "mcache \<Rightarrow> um" where
  "um_of c = (\<lambda>k. map_option (\<lambda>e. (ce_value e, ce_version e, ce_expiresAt e)) (map_of (mc_store c) k))"

lemma um_of_mono: "map_of (mc_store c) \<subseteq>\<^sub>m map_of (mc_store d) \<Longrightarrow> um_of c \<subseteq>\<^sub>m um_of d"
  by (fastforce simp: um_of_def map_le_def dom_def)

lemma mc_store_sweep_subset:
  assumes "mc_wf c"
  shows "map_of (mc_store (mc_sweepExpired now c)) \<subseteq>\<^sub>m map_of (mc_store c)"
proof -
  have d: "distinct (keys_of (mc_store c))" using assms by (simp add: mc_wf_def)
  have "map_of (mc_store c) a = Some y" if "map_of (mc_store (mc_sweepExpired now c)) a = Some y" for a y
    using map_of_SomeD [OF that] d by (simp add: mc_store_sweep)
  then show ?thesis by (fastforce simp: map_le_def)
qed

lemma um_step_refines:
  assumes "mc_wf c" and "um_of c \<subseteq>\<^sub>m m"
  shows "um_of (mc_step op c) \<subseteq>\<^sub>m um_step (mc_ttlMs c) op m"
proof (cases op)
  case (MGet k now)
  with um_of_mono [OF mc_store_get_subset] assms(2) show ?thesis by (auto intro: map_le_trans)
next
  case (MSet k v n now)
  from mc_store_set_subset [OF assms(1), of k v n now] assms(2) MSet show ?thesis
    by (fastforce simp: um_of_def map_le_def dom_def mc_entry_def split: if_splits)
next
  case (MDelete k)
  with assms(2) show ?thesis by (fastforce simp: um_of_def map_le_def dom_def mc_store_delete jmap_simps)
next
  case (MDeleteByPrefix p)
  have "map_of (mc_store (mc_deleteByPrefix p c)) = (\<lambda>k. if startsWith k p then None else map_of (mc_store c) k)"
    by (auto simp: mc_store_prefix fun_eq_iff map_of_filter_key [of "\<lambda>k. \<not> startsWith k p", simplified])
  with assms(2) MDeleteByPrefix show ?thesis by (fastforce simp: um_of_def map_le_def dom_def)
next
  case (MSweep now)
  with um_of_mono [OF mc_store_sweep_subset [OF assms(1)]] assms(2) show ?thesis
    by (auto intro: map_le_trans)
qed (auto simp: um_of_def mc_clear_def mc_destroy_def split: option.splits)

lemma mc_fold_ttl:
  assumes "\<And>x c. mc_ttlMs (f x c) = mc_ttlMs c"
  shows "mc_ttlMs (fold f xs c) = mc_ttlMs c"
  using assms by (induction xs arbitrary: c) auto

lemma mc_ttl_step [simp]: "mc_ttlMs (mc_step op c) = mc_ttlMs c"
  by (cases op) (auto simp: mc_deleteByPrefix_def mc_sweepExpired_def mc_clear_def mc_destroy_def
      split: option.splits prod.splits intro!: mc_fold_ttl)

lemma um_run_refines:
  "mc_wf c \<Longrightarrow> um_of c \<subseteq>\<^sub>m m \<Longrightarrow>
    um_of (mc_run ops c) \<subseteq>\<^sub>m fold (um_step (mc_ttlMs c)) ops m \<and> mc_wf (mc_run ops c)"
proof (induction ops arbitrary: c m)
  case (Cons op ops)
  from Cons.IH [OF mc_wf_step [OF Cons.prems(1)] um_step_refines [OF Cons.prems]]
  show ?case by (simp add: mc_run_def)
qed (simp add: mc_run_def)

text \<open>C19. The cache never makes anything up. After any run of operations, a hit on a key returns
  exactly the value and version an unbounded map would hold for it, namely those of the last
  store under that key that no delete, prefix delete, clear or destroy followed, and that store
  happened less than the TTL ago; eviction, expiry and the sweep can only turn hits into misses.\<close>

theorem memory_cache_refines_map:
  assumes "fst (mc_get k now (mc_run ops (mc_new (Some ttl) maxEntries maxBytes))) = Some (v, n)"
  shows "\<exists>t. fold (um_step ttl) ops Map.empty k = Some (v, n, t) \<and> now < t"
proof -
  let ?n = "mc_new (Some ttl) maxEntries maxBytes"
  have "um_of ?n = Map.empty" and "mc_ttlMs ?n = ttl" by (simp_all add: um_of_def mc_new_def Let_def)
  with um_run_refines [OF mc_wf_new, of "Some ttl" maxEntries maxBytes Map.empty ops]
  have le: "um_of (mc_run ops ?n) \<subseteq>\<^sub>m fold (um_step ttl) ops Map.empty" by simp
  from assms obtain e where "map_of (mc_store (mc_run ops ?n)) k = Some e" and "now < ce_expiresAt e"
    and "ce_value e = v" and "ce_version e = n"
    by (auto simp: mc_get_def split: option.splits if_splits)
  then have "um_of (mc_run ops ?n) k = Some (v, n, ce_expiresAt e)" by (simp add: um_of_def)
  moreover from this le have "fold (um_step ttl) ops Map.empty k = Some (v, n, ce_expiresAt e)"
    unfolding map_le_def by (metis domI)
  ultimately show ?thesis using \<open>now < ce_expiresAt e\<close> by blast
qed

theorem memory_cache_refines_map_witness:
  "\<exists>t. fold (um_step 100) [MSet ''a'' [5] 1 0, MSet ''a'' [6] 2 1] Map.empty ''a'' = Some ([6], 2, t) \<and> 50 < t"
  by (rule memory_cache_refines_map [where maxEntries = None and maxBytes = None])
    code_simp

text \<open>A stored value is there to be read until its TTL is over, and not a millisecond longer,
  as long as it fits the cache at all: a read directly after the write hits exactly when it
  comes before the expiry time.\<close>

lemma memory_cache_read_after_write:
  assumes "mc_wf c" and "mc_bounded c" and "k \<noteq> ''''"
    and "1 \<le> mc_maxEntries c" and "int (byteLength v) \<le> mc_maxBytes c"
  shows "fst (mc_get k now' (mc_set k v n now c)) = (if now' < now + mc_ttlMs c then Some (v, n) else None)"
proof -
  let ?e = "mc_entry v n now c" and ?rest = "AList.delete k (mc_store c)"
  have ne: "'''' \<notin> set (keys_of (mc_store (mc_before_evict k v n now c)))"
    using assms(2,3) by (auto simp: mc_bounded_def jmap_simps)
  have b: "0 \<le> mc_maxBytes c" using assms(5) by linarith
  from evict_minimal [OF mc_wf_before_evict [OF assms(1)] ne] assms(4) b obtain j where j:
    "mc_store (mc_set k v n now c) = drop j (?rest @ [(k, ?e)])"
    "\<forall>i<j. over_at (mc_before_evict k v n now c) i" unfolding mc_set_eq by auto
  have "\<not> over_at (mc_before_evict k v n now c) (length ?rest)"
    using assms(4,5) by (simp add: over_at_def mc_entry_def)
  with j(2) have "j \<le> length ?rest" by (meson not_le)
  with j(1) have st: "mc_store (mc_set k v n now c) = drop j ?rest @ [(k, ?e)]" by simp
  have "k \<notin> set (keys_of (drop j ?rest))" by (auto simp: jmap_simps dest: in_set_dropD)
  then have "map_of (drop j ?rest) k = None" by (simp add: map_of_eq_None_iff)
  with st have "map_of (mc_store (mc_set k v n now c)) k = Some ?e" by (simp add: map_add_def)
  then show ?thesis by (simp add: mc_get_def mc_entry_def not_le)
qed

lemma memory_cache_read_after_write_witness:
  "fst (mc_get ''a'' 7 (mc_set ''a'' [5] 1 0 (mc_new (Some 7) (Some 1) (Some 10)))) = None"
  using memory_cache_read_after_write [of "mc_new (Some 7) (Some 1) (Some 10)" "''a''" "[5]" 7 1 0]
  by (simp add: mc_wf_new) (simp add: mc_new_def mc_bounded_def mc_size_def mc_approximateBytes_def Let_def unit_len_def)

text \<open>The guard against an empty key stops the eviction loop early: an entry stored under the
  empty key at the front keeps the cache over its limit.\<close>

lemma empty_key_blocks_eviction:
  "mc_size (mc_set ''b'' [7] 1 0 (mc_set '''' [5] 1 0 (mc_new None (Some 1) None))) = 2"
  by (simp add: mc_new_def mc_set_def Let_def evictIfNeeded.simps mc_over_def mc_size_def
      DEFAULT_MAX_BYTES_def unit_len_def)

end
