(* ===== verification/Json.thy ===== *)
theory Json
  imports Prelude
begin

text \<open>
  The part of JSON the cache adapters use: \<open>JSON.stringify({ value, version })\<close> and \<open>JSON.parse\<close> of
  such a text, on UTF-16 code units. Strings are escaped the way \<open>JSON.stringify\<close> does it (short
  escapes, \<open>\u00xx\<close> for control characters and for lone surrogates) and numbers are integers. The
  parser understands every string escape of JSON; a text that is not an object with these two
  fields in this order, which the program never stores, is refused.
\<close>

section \<open>Escapes\<close>

definition hexdig :: "nat \<Rightarrow> 16 word" where
  "hexdig n = (if n < 10 then of_nat (48 + n) else of_nat (87 + n))"

definition hexval :: "16 word \<Rightarrow> nat option" where
  "hexval w = (let u = unat w in
     if 48 \<le> u \<and> u \<le> 57 then Some (u - 48)
     else if 97 \<le> u \<and> u \<le> 102 then Some (u - 87)
     else if 65 \<le> u \<and> u \<le> 70 then Some (u - 55) else None)"

definition u_escape :: "16 word \<Rightarrow> jstr" where
  "u_escape w = (let n = unat w in
     [92, 117, hexdig (n div 4096 mod 16), hexdig (n div 256 mod 16), hexdig (n div 16 mod 16), hexdig (n mod 16)])"

definition unhex4 :: "16 word \<Rightarrow> 16 word \<Rightarrow> 16 word \<Rightarrow> 16 word \<Rightarrow> 16 word option" where
  "unhex4 a b c d = (case (hexval a, hexval b, hexval c, hexval d) of
     (Some x, Some y, Some z, Some w) \<Rightarrow> Some (of_nat (((x * 16 + y) * 16 + z) * 16 + w)) | _ \<Rightarrow> None)"

definition short_escapes :: "(16 word \<times> 16 word) list" where
  "short_escapes = [(34, 34), (92, 92), (8, 98), (12, 102), (10, 110), (13, 114), (9, 116)]"

definition json_unit :: "16 word \<Rightarrow> jstr" where
  "json_unit u = (case map_of short_escapes u of
      Some e \<Rightarrow> [92, e]
    | None \<Rightarrow> if u < 32 \<or> is_high_surrogate u \<or> is_low_surrogate u then u_escape u else [u])"

fun json_units :: "jstr \<Rightarrow> jstr" where
  "json_units [] = []"
| "json_units [u] = json_unit u"
| "json_units (u # v # us) =
     (if is_high_surrogate u \<and> is_low_surrogate v then u # v # json_units us
      else json_unit u @ json_units (v # us))"

text \<open>The rest of a string literal after its opening quote: the string, and the text after the
  closing quote.\<close>

definition unescape :: "16 word \<Rightarrow> 16 word option" where
  "unescape e = map_of [(34, 34), (92, 92), (47, 47), (98, 8), (102, 12), (110, 10), (114, 13), (116, 9)] e"

fun parse_units :: "jstr \<Rightarrow> (jstr \<times> jstr) option" where
  "parse_units [] = None"
| "parse_units (u # us) =
     (if u = 34 then Some ([], us)
      else if u = 92 then
        (case us of
           [] \<Rightarrow> None
         | e # vs \<Rightarrow>
             if e = 117 then
               (case vs of
                  a # b # c # d # ws \<Rightarrow>
                    (case unhex4 a b c d of
                       None \<Rightarrow> None
                     | Some w \<Rightarrow> map_option (apfst (Cons w)) (parse_units ws))
                | _ \<Rightarrow> None)
             else
               (case unescape e of
                  None \<Rightarrow> None
                | Some w \<Rightarrow> map_option (apfst (Cons w)) (parse_units vs)))
      else if u < 32 then None
      else map_option (apfst (Cons u)) (parse_units us))"

lemma unat_small: "m < 65536 \<Longrightarrow> unat (of_nat m :: 16 word) = m"
  by (simp add: unat_of_nat)

lemma hexval_hexdig: "n < 16 \<Longrightarrow> hexval (hexdig n) = Some n"
  by (cases "n < 10") (auto simp: hexval_def hexdig_def Let_def unat_small simp del: of_nat_add)

lemma unhex4_escape:
  "unhex4 (hexdig (unat w div 4096 mod 16)) (hexdig (unat w div 256 mod 16)) (hexdig (unat w div 16 mod 16))
    (hexdig (unat w mod 16)) = Some (w :: 16 word)"
proof -
  let ?n = "unat w"
  have "?n < 65536" using unsigned_less [of w] by simp
  then have c: "?n div 4096 mod 16 = ?n div 4096" by simp
  have d: "?n div 256 = ?n div 16 div 16" "?n div 4096 = ?n div 16 div 16 div 16"
    by (simp_all add: div_mult2_eq [symmetric])
  have "x div 16 * 16 + x mod 16 = x" for x :: nat by simp
  then have "((?n div 4096 mod 16 * 16 + ?n div 256 mod 16) * 16 + ?n div 16 mod 16) * 16 + ?n mod 16 = ?n"
    by (simp only: c) (simp only: d)
  moreover have "hexval (hexdig (m mod 16)) = Some (m mod 16)" for m by (rule hexval_hexdig) simp
  ultimately show ?thesis by (simp only: unhex4_def prod.case option.case) simp
qed

lemma parse_json_unit: "parse_units (json_unit u @ us) = map_option (apfst (Cons u)) (parse_units us)"
proof (cases "map_of short_escapes u")
  case None
  then have "u \<noteq> 34 \<and> u \<noteq> 92" by (auto simp: short_escapes_def split: if_splits)
  then show ?thesis
    using None by (auto simp: json_unit_def u_escape_def Let_def unhex4_escape)
next
  case (Some e)
  then have "json_unit u = [92, e] \<and> e \<noteq> 117 \<and> unescape e = Some u"
    by (auto simp: json_unit_def short_escapes_def unescape_def split: if_splits)
  then show ?thesis by simp
qed

lemma surrogate_plain:
  "is_high_surrogate u \<or> is_low_surrogate u \<Longrightarrow> u \<noteq> 34 \<and> u \<noteq> 92 \<and> \<not> u < 32"
  by (auto simp: is_high_surrogate_def is_low_surrogate_def word_less_nat_alt word_le_nat_alt)

lemma parse_json_units: "parse_units (json_units s @ 34 # rest) = Some (s, rest)"
proof (induction s rule: json_units.induct)
  case (3 u v us)
  then show ?case
    using surrogate_plain [of u] surrogate_plain [of v] by (simp add: parse_json_unit)
qed (simp_all add: parse_json_unit)

section \<open>Numbers\<close>

fun nat_digits :: "nat \<Rightarrow> jstr" where
  "nat_digits n = (if n < 10 then [of_nat (48 + n)] else nat_digits (n div 10) @ [of_nat (48 + n mod 10)])"

declare nat_digits.simps [simp del]

definition json_int :: "int \<Rightarrow> jstr" where
  "json_int i = (if i < 0 then 45 # nat_digits (nat (- i)) else nat_digits (nat i))"

definition digit_val :: "16 word \<Rightarrow> nat option" where
  "digit_val w = (let u = unat w in if 48 \<le> u \<and> u \<le> 57 then Some (u - 48) else None)"

fun parse_digits :: "nat \<Rightarrow> jstr \<Rightarrow> nat \<times> jstr" where
  "parse_digits acc [] = (acc, [])"
| "parse_digits acc (u # us) =
     (case digit_val u of None \<Rightarrow> (acc, u # us) | Some d \<Rightarrow> parse_digits (acc * 10 + d) us)"

definition parse_int :: "jstr \<Rightarrow> (int \<times> jstr) option" where
  "parse_int us = (case us of
      [] \<Rightarrow> None
    | u # vs \<Rightarrow>
        if u = 45 then
          (case vs of [] \<Rightarrow> None
           | v # _ \<Rightarrow> if digit_val v = None then None else Some (case parse_digits 0 vs of (n, r) \<Rightarrow> (- int n, r)))
        else if digit_val u = None then None
        else Some (case parse_digits 0 us of (n, r) \<Rightarrow> (int n, r)))"

lemma digit_val_of_nat: "n < 10 \<Longrightarrow> digit_val (of_nat (48 + n)) = Some n"
  by (simp add: digit_val_def Let_def unat_small del: of_nat_add)

lemma parse_nat_digits:
  "\<exists>k. \<forall>acc rest. parse_digits acc (nat_digits n @ rest) = parse_digits (acc * 10 ^ k + n) rest"
proof (induction n rule: nat_digits.induct)
  case (1 n)
  show ?case
  proof (cases "n < 10")
    case True
    then have "\<forall>acc rest. parse_digits acc (nat_digits n @ rest) = parse_digits (acc * 10 ^ 1 + n) rest"
      by (simp add: nat_digits.simps [of n] digit_val_of_nat del: of_nat_add)
    then show ?thesis by blast
  next
    case False
    from "1.IH" [OF False] obtain k where
      k: "\<forall>acc rest. parse_digits acc (nat_digits (n div 10) @ rest) = parse_digits (acc * 10 ^ k + n div 10) rest" by blast
    have "\<forall>acc rest. parse_digits acc (nat_digits n @ rest) = parse_digits (acc * 10 ^ Suc k + n) rest"
      using False k by (simp add: nat_digits.simps [of n] digit_val_of_nat algebra_simps del: of_nat_add)
    then show ?thesis by blast
  qed
qed

lemma nat_digits_nonempty: "\<exists>u us. nat_digits n = u # us \<and> digit_val u \<noteq> None"
proof (induction n rule: nat_digits.induct)
  case (1 n)
  show ?case
  proof (cases "n < 10")
    case True
    then show ?thesis by (simp add: nat_digits.simps [of n] digit_val_of_nat del: of_nat_add)
  next
    case False
    with "1.IH" show ?thesis by (auto simp: nat_digits.simps [of n])
  qed
qed

lemma parse_json_int:
  assumes "digit_val u = None"
  shows "parse_int (json_int i @ u # rest) = Some (i, u # rest)"
proof -
  have digits: "parse_digits 0 (nat_digits n @ u # rest) = (n, u # rest)" for n
    using parse_nat_digits [of n] assms by auto
  obtain v vs where v: "nat_digits (nat (if i < 0 then - i else i)) = v # vs" "digit_val v \<noteq> None"
    using nat_digits_nonempty by blast
  then have "v \<noteq> 45" by (auto simp: digit_val_def Let_def)
  then show ?thesis
    using v digits [of "nat (if i < 0 then - i else i)"]
    by (cases "i < 0") (auto simp: parse_int_def json_int_def)
qed

section \<open>The cached payload\<close>

definition payload_head :: jstr where
  "payload_head = lit ''{'' @ [34] @ lit ''value'' @ [34] @ lit '':'' @ [34]"

definition payload_mid :: jstr where
  "payload_mid = lit '','' @ [34] @ lit ''version'' @ [34] @ lit '':''"

definition stringify_payload :: "jstr \<Rightarrow> int \<Rightarrow> jstr" where
  "stringify_payload value version =
     payload_head @ json_units value @ 34 # payload_mid @ json_int version @ lit ''}''"

definition strip_prefix :: "jstr \<Rightarrow> jstr \<Rightarrow> jstr option" where
  "strip_prefix p s = (if take (length p) s = p then Some (drop (length p) s) else None)"

definition parse_payload :: "jstr \<Rightarrow> (jstr \<times> int) option" where
  "parse_payload s =
     Option.bind (strip_prefix payload_head s) (\<lambda>s1.
     Option.bind (parse_units s1) (\<lambda>(value, s2).
     Option.bind (strip_prefix payload_mid s2) (\<lambda>s3.
     Option.bind (parse_int s3) (\<lambda>(version, s4).
       if s4 = lit ''}'' then Some (value, version) else None))))"

lemma strip_prefix_append [simp]: "strip_prefix p (p @ s) = Some s"
  by (simp add: strip_prefix_def)

lemma payload_roundtrip: "parse_payload (stringify_payload v n) = Some (v, n)"
proof -
  have "digit_val 125 = None" by (simp add: digit_val_def)
  from parse_json_int [OF this, of n "[]"]
  have "parse_int (json_int n @ lit ''}'') = Some (n, lit ''}'')" by (simp add: lit_def)
  then show ?thesis by (simp add: parse_payload_def stringify_payload_def parse_json_units)
qed

lemma payload_nonempty: "stringify_payload v n \<noteq> []"
  by (simp add: stringify_payload_def payload_head_def lit_def)

end
