(* ===== verification/RedisCaches.thy ===== *)
theory RedisCaches
  imports Types Json
begin

text \<open>
  The two L2 caches: \<^verbatim>\<open>src/cache/redis-tcp.ts\<close> (an \<open>ioredis\<close> connection, with pub/sub) and
  \<^verbatim>\<open>src/cache/redis-http.ts\<close> (a REST client). Both keep \<open>value\<close> and \<open>version\<close> as one JSON text under the
  key. The client library is the record \<open>redis_client\<close>; what they rely on is the locale \<open>redis_kv\<close>:
  a key-value store that may forget keys, and whose failed calls happened or did not. Under it both
  caches satisfy \<open>redis_store\<close>.
\<close>

record 'r redis_client =
  cl_get :: "string \<Rightarrow> ('r, jstr option) io"
  cl_set :: "string \<Rightarrow> jstr \<Rightarrow> int option \<Rightarrow> ('r, unit) io"
  cl_del :: "string \<Rightarrow> ('r, unit) io"
  cl_publish :: "string \<Rightarrow> string \<Rightarrow> ('r, unit) io"
  cl_subscribe :: "string \<Rightarrow> ('r, unit) io"
  cl_quit_subscriber :: "('r, unit) io"
  cl_quit :: "('r, unit) io"

definition INVALIDATION_CHANNEL :: string where
  "INVALIDATION_CHANNEL = ''baileys-auth:invalidate''"

section \<open>Operations\<close>

text \<open>\<open>if (!raw) return null; return JSON.parse(raw)\<close>\<close>

definition decode_raw :: "jstr option \<Rightarrow> error + (jstr \<times> int) option" where
  "decode_raw raw = (case raw of
      None \<Rightarrow> Inr None
    | Some s \<Rightarrow> if s = [] then Inr None
        else (case parse_payload s of None \<Rightarrow> Inl BadJson | Some x \<Rightarrow> Inr (Some x)))"

text \<open>\<open>ttlSeconds ? ... : ...\<close>: no TTL when the argument is missing or 0.\<close>

definition truthy_ttl :: "int option \<Rightarrow> int option" where
  "truthy_ttl ttl = (case ttl of None \<Rightarrow> None | Some t \<Rightarrow> if t = 0 then None else Some t)"

record 'r tcp_cache =
  tc_client :: 'r
  tc_subscriber :: bool
  tc_listening :: bool

definition tc_lift :: "('r, 'a) io \<Rightarrow> ('r tcp_cache, 'a) io" where
  "tc_lift m s = (case m (tc_client s) of (r, c) \<Rightarrow> (r, s\<lparr>tc_client := c\<rparr>))"

definition tcp_get :: "'r redis_client \<Rightarrow> string \<Rightarrow> ('r tcp_cache, (jstr \<times> int) option) io" where
  "tcp_get C key = bindA (tc_lift (cl_get C key)) (\<lambda>raw s. (decode_raw raw, s))"

definition tcp_set :: "'r redis_client \<Rightarrow> string \<Rightarrow> jstr \<Rightarrow> int \<Rightarrow> int option \<Rightarrow> ('r tcp_cache, unit) io" where
  "tcp_set C key value version ttlSeconds =
     (let payload = stringify_payload value version in
      case truthy_ttl ttlSeconds of
        Some t \<Rightarrow> tc_lift (cl_set C key payload (Some t))
      | None \<Rightarrow> tc_lift (cl_set C key payload None))"

definition tcp_del :: "'r redis_client \<Rightarrow> string \<Rightarrow> ('r tcp_cache, unit) io" where
  "tcp_del C key = tc_lift (cl_del C key)"

definition tcp_publishInvalidation :: "'r redis_client \<Rightarrow> string \<Rightarrow> ('r tcp_cache, unit) io" where
  "tcp_publishInvalidation C key = tc_lift (cl_publish C INVALIDATION_CHANNEL key)"

text \<open>The duplicate connection is kept before \<open>subscribe\<close> is awaited; the listener is attached after.\<close>

definition tcp_subscribeInvalidation :: "'r redis_client \<Rightarrow> ('r tcp_cache, unit) io" where
  "tcp_subscribeInvalidation C s =
     thenA (tc_lift (cl_subscribe C INVALIDATION_CHANNEL)) (\<lambda>s. (Inr (), s\<lparr>tc_listening := True\<rparr>))
       (s\<lparr>tc_subscriber := True\<rparr>)"

definition swallow :: "('s, unit) io \<Rightarrow> ('s, unit) io" where
  "swallow m s = (Inr (), snd (m s))"

definition tcp_close :: "'r redis_client \<Rightarrow> ('r tcp_cache, unit) io" where
  "tcp_close C = thenA (\<lambda>s. if tc_subscriber s then swallow (tc_lift (cl_quit_subscriber C)) s else (Inr (), s))
     (swallow (tc_lift (cl_quit C)))"

definition tcp_redis :: "'r redis_client \<Rightarrow> 'r tcp_cache redis_cache" where
  "tcp_redis C = \<lparr>rc_mode = Tcp, rc_get = tcp_get C, rc_set = tcp_set C, rc_del = tcp_del C,
     rc_subscribeInvalidation = Some (tcp_subscribeInvalidation C),
     rc_publishInvalidation = Some (tcp_publishInvalidation C), rc_close = tcp_close C\<rparr>"

definition http_get :: "'r redis_client \<Rightarrow> string \<Rightarrow> ('r, (jstr \<times> int) option) io" where
  "http_get C key = bindA (cl_get C key) (\<lambda>raw c. (decode_raw raw, c))"

definition http_set :: "'r redis_client \<Rightarrow> string \<Rightarrow> jstr \<Rightarrow> int \<Rightarrow> int option \<Rightarrow> ('r, unit) io" where
  "http_set C key value version ttlSeconds =
     (let payload = stringify_payload value version in cl_set C key payload (truthy_ttl ttlSeconds))"

definition http_del :: "'r redis_client \<Rightarrow> string \<Rightarrow> ('r, unit) io" where
  "http_del C key = cl_del C key"

definition http_close :: "('r, unit) io" where
  "http_close = ret ()"

definition http_redis :: "'r redis_client \<Rightarrow> 'r redis_cache" where
  "http_redis C = \<lparr>rc_mode = Http, rc_get = http_get C, rc_set = http_set C, rc_del = http_del C,
     rc_subscribeInvalidation = None, rc_publishInvalidation = None, rc_close = http_close\<rparr>"

section \<open>What a client promises\<close>

locale redis_kv =
  fixes C :: "'r redis_client"
    and kv :: "'r \<Rightarrow> string \<rightharpoonup> jstr"
    and kup :: "'r \<Rightarrow> bool"
  assumes kget: "cl_get C k c = (g, c') \<Longrightarrow> kv c' \<subseteq>\<^sub>m kv c \<and> (\<forall>x. g = Inr (Some x) \<longrightarrow> kv c k = Some x)"
    and kset: "cl_set C k s ttl c = (r, c') \<Longrightarrow>
      (case r of Inr _ \<Rightarrow> kv c' \<subseteq>\<^sub>m (kv c)(k \<mapsto> s) | Inl _ \<Rightarrow> kv c' \<subseteq>\<^sub>m kv c \<or> kv c' \<subseteq>\<^sub>m (kv c)(k \<mapsto> s))"
    and kdel: "cl_del C k c = (r, c') \<Longrightarrow>
      (case r of Inr _ \<Rightarrow> kv c' \<subseteq>\<^sub>m (kv c)(k := None) | Inl _ \<Rightarrow> kv c' \<subseteq>\<^sub>m kv c)"
    and kpublish: "cl_publish C ch msg c = (r', c') \<Longrightarrow> kv c' \<subseteq>\<^sub>m kv c"
    and kget_up: "kup c \<Longrightarrow> \<exists>x c'. cl_get C k c = (Inr x, c') \<and> kup c'"
    and kset_up: "kup c \<Longrightarrow> \<exists>c'. cl_set C k s ttl c = (Inr (), c') \<and> kup c'"
    and kdel_up: "kup c \<Longrightarrow> \<exists>c'. cl_del C k c = (Inr (), c') \<and> kup c'"
    and kpublish_up: "kup c \<Longrightarrow> \<exists>c'. cl_publish C ch msg c = (Inr (), c') \<and> kup c'"

text \<open>What the cache shows: the payloads that parse. A store written by these caches only holds
  such payloads (\<open>all_parse\<close>), and then a working client never makes \<open>get\<close> throw.\<close>

definition payloads :: "(string \<rightharpoonup> jstr) \<Rightarrow> string \<rightharpoonup> jstr \<times> int" where
  "payloads m k = Option.bind (m k) parse_payload"

definition all_parse :: "(string \<rightharpoonup> jstr) \<Rightarrow> bool" where
  "all_parse m \<longleftrightarrow> (\<forall>s \<in> ran m. s = [] \<or> parse_payload s \<noteq> None)"

lemma payloads_le: "m \<subseteq>\<^sub>m m' \<Longrightarrow> payloads m \<subseteq>\<^sub>m payloads m'"
  by (auto simp: payloads_def map_le_def dom_def bind_eq_Some_conv)

lemma payloads_upd: "payloads (m(k \<mapsto> stringify_payload v n)) = (payloads m)(k \<mapsto> (v, n))"
  by (auto simp: payloads_def payload_roundtrip)

lemma payloads_del: "payloads (m(k := None)) = (payloads m)(k := None)"
  by (auto simp: payloads_def)

lemma all_parse_le: "all_parse m \<Longrightarrow> m' \<subseteq>\<^sub>m m \<Longrightarrow> all_parse m'"
  by (fastforce simp: all_parse_def ran_def map_le_def dom_def)

lemma all_parse_upd: "all_parse m \<Longrightarrow> all_parse (m(k \<mapsto> stringify_payload v n))"
  by (auto simp: all_parse_def ran_def payload_roundtrip)

lemma all_parse_del: "all_parse m \<Longrightarrow> all_parse (m(k := None))"
  by (auto simp: all_parse_def ran_def)

lemma decode_raw_Some: "decode_raw raw = Inr (Some x) \<Longrightarrow> \<exists>s. raw = Some s \<and> parse_payload s = Some x"
  by (auto simp: decode_raw_def split: option.splits if_splits)

lemma tc_lift_eq: "tc_lift m s = (r, s') \<longleftrightarrow> (\<exists>c. m (tc_client s) = (r, c) \<and> s' = s\<lparr>tc_client := c\<rparr>)"
  by (auto simp: tc_lift_def split: prod.splits)

lemma decode_raw_parses: "all_parse m \<Longrightarrow> (\<And>s. raw = Some s \<Longrightarrow> s \<in> ran m) \<Longrightarrow> \<exists>x. decode_raw raw = Inr x"
  by (fastforce simp: decode_raw_def all_parse_def split: option.splits)

context redis_kv begin

definition l2h :: "'r \<Rightarrow> string \<rightharpoonup> jstr \<times> int" where
  "l2h c = payloads (kv c)"

definition uph :: "'r \<Rightarrow> bool" where
  "uph c \<longleftrightarrow> kup c \<and> all_parse (kv c)"

lemma get_law:
  assumes "http_get C k c = (g, c')"
  shows "l2h c' \<subseteq>\<^sub>m l2h c \<and> (\<forall>x. g = Inr (Some x) \<longrightarrow> l2h c k = Some x)"
proof -
  obtain r c1 where g: "cl_get C k c = (r, c1)" by fastforce
  with assms have c': "c' = c1" and dec: "g = (case r of Inl e \<Rightarrow> Inl e | Inr raw \<Rightarrow> decode_raw raw)"
    by (auto simp: http_get_def bindA_def split: sum.splits)
  have "l2h c k = Some x" if "g = Inr (Some x)" for x
    using that dec kget [OF g] by (auto split: sum.splits simp: l2h_def payloads_def dest!: decode_raw_Some)
  with kget [OF g] c' show ?thesis by (auto simp: l2h_def payloads_le)
qed

lemma set_law:
  assumes "http_set C k v n ttl c = (r, c')"
  shows "case r of Inr _ \<Rightarrow> l2h c' \<subseteq>\<^sub>m (l2h c)(k \<mapsto> (v, n))
    | Inl _ \<Rightarrow> l2h c' \<subseteq>\<^sub>m l2h c \<or> l2h c' \<subseteq>\<^sub>m (l2h c)(k \<mapsto> (v, n))"
  using kset [of k "stringify_payload v n" "truthy_ttl ttl" c r c'] assms
  by (auto simp: http_set_def l2h_def Let_def simp flip: payloads_upd split: sum.splits intro: payloads_le)

lemma del_law:
  assumes "cl_del C k c = (r, c')"
  shows "case r of Inr _ \<Rightarrow> l2h c' \<subseteq>\<^sub>m (l2h c)(k := None) | Inl _ \<Rightarrow> l2h c' \<subseteq>\<^sub>m l2h c"
  using kdel [OF assms] by (auto simp: l2h_def simp flip: payloads_del split: sum.splits intro: payloads_le)

lemma get_up_law: "uph c \<Longrightarrow> \<exists>x c'. http_get C k c = (Inr x, c') \<and> uph c'"
proof -
  assume u: "uph c"
  then obtain raw c' where g: "cl_get C k c = (Inr raw, c')" and k: "kup c'" using kget_up [of c k] by (auto simp: uph_def)
  have le: "kv c' \<subseteq>\<^sub>m kv c" and "\<And>s. raw = Some s \<Longrightarrow> s \<in> ran (kv c)" using kget [OF g] by (auto intro: ranI)
  then obtain x where "decode_raw raw = Inr x" using decode_raw_parses [of "kv c" raw] u by (auto simp: uph_def)
  with g k u le all_parse_le show ?thesis by (auto simp: http_get_def bindA_def uph_def)
qed

lemma set_up_law: "uph c \<Longrightarrow> \<exists>c'. http_set C k v n ttl c = (Inr (), c') \<and> uph c'"
proof -
  assume u: "uph c"
  then obtain c' where s: "http_set C k v n ttl c = (Inr (), c')" and k: "kup c'"
    using kset_up [of c k "stringify_payload v n" "truthy_ttl ttl"] by (auto simp: uph_def http_set_def Let_def)
  from s kset [of k "stringify_payload v n" "truthy_ttl ttl" c "Inr ()" c']
  have "kv c' \<subseteq>\<^sub>m (kv c)(k \<mapsto> stringify_payload v n)" by (auto simp: http_set_def Let_def)
  with u s k show ?thesis by (auto simp: uph_def intro: all_parse_le all_parse_upd)
qed

lemma del_up_law: "uph c \<Longrightarrow> \<exists>c'. cl_del C k c = (Inr (), c') \<and> uph c'"
proof -
  assume u: "uph c"
  then obtain c' where d: "cl_del C k c = (Inr (), c')" and k: "kup c'" using kdel_up [of c k] by (auto simp: uph_def)
  from kdel [OF d] have "kv c' \<subseteq>\<^sub>m (kv c)(k := None)" by simp
  with u d k show ?thesis by (auto simp: uph_def intro: all_parse_le all_parse_del)
qed

lemma publish_up_law: "uph c \<Longrightarrow> \<exists>c'. cl_publish C ch msg c = (Inr (), c') \<and> uph c'"
proof -
  assume u: "uph c"
  then obtain c' where d: "cl_publish C ch msg c = (Inr (), c')" and k: "kup c'"
    using kpublish_up [of c ch msg] by (auto simp: uph_def)
  from kpublish [OF d] u d k show ?thesis by (auto simp: uph_def intro: all_parse_le)
qed

lemma http_store: "redis_store (http_redis C) l2h uph"
proof
  fix k c g c'
  assume "rc_get (http_redis C) k c = (g, c')"
  then show "l2h c' \<subseteq>\<^sub>m l2h c \<and> (\<forall>x. g = Inr (Some x) \<longrightarrow> l2h c k = Some x)"
    by (intro get_law) (simp add: http_redis_def)
qed (auto simp: http_redis_def http_del_def dest: set_law del_law intro: get_up_law set_up_law del_up_law)

lemma tcp_store: "redis_store (tcp_redis C) (\<lambda>s. l2h (tc_client s)) (\<lambda>s. uph (tc_client s))"
proof
  fix k and s s' :: "'r tcp_cache" and g
  assume "rc_get (tcp_redis C) k s = (g, s')"
  then have "http_get C k (tc_client s) = (g, tc_client s')"
    by (auto simp: tcp_redis_def tcp_get_def http_get_def bindA_def tc_lift_def split: prod.splits sum.splits)
  then show "l2h (tc_client s') \<subseteq>\<^sub>m l2h (tc_client s) \<and> (\<forall>x. g = Inr (Some x) \<longrightarrow> l2h (tc_client s) k = Some x)"
    by (rule get_law)
next
  fix k v n ttl r and s s' :: "'r tcp_cache"
  assume "rc_set (tcp_redis C) k v n ttl s = (r, s')"
  then have "http_set C k v n ttl (tc_client s) = (r, tc_client s')"
    by (auto simp: tcp_redis_def tcp_set_def http_set_def Let_def tc_lift_eq split: option.splits)
  from set_law [OF this] show "case r of Inr _ \<Rightarrow> l2h (tc_client s') \<subseteq>\<^sub>m (l2h (tc_client s))(k \<mapsto> (v, n))
    | Inl _ \<Rightarrow> l2h (tc_client s') \<subseteq>\<^sub>m l2h (tc_client s) \<or> l2h (tc_client s') \<subseteq>\<^sub>m (l2h (tc_client s))(k \<mapsto> (v, n))" .
next
  fix k r and s s' :: "'r tcp_cache"
  assume "rc_del (tcp_redis C) k s = (r, s')"
  then have "cl_del C k (tc_client s) = (r, tc_client s')" by (auto simp: tcp_redis_def tcp_del_def tc_lift_eq)
  from del_law [OF this] show "case r of Inr _ \<Rightarrow> l2h (tc_client s') \<subseteq>\<^sub>m (l2h (tc_client s))(k := None)
    | Inl _ \<Rightarrow> l2h (tc_client s') \<subseteq>\<^sub>m l2h (tc_client s)" .
next
  fix p k r and s s' :: "'r tcp_cache"
  assume "rc_publishInvalidation (tcp_redis C) = Some p" and "p k s = (r, s')"
  then show "l2h (tc_client s') \<subseteq>\<^sub>m l2h (tc_client s)"
    by (auto simp: tcp_redis_def tcp_publishInvalidation_def tc_lift_eq l2h_def intro!: payloads_le dest!: kpublish)
next
  fix k and s :: "'r tcp_cache"
  assume "uph (tc_client s)"
  from get_up_law [OF this, of k] show "\<exists>x s'. rc_get (tcp_redis C) k s = (Inr x, s') \<and> uph (tc_client s')"
    by (fastforce simp: tcp_redis_def tcp_get_def http_get_def bindA_def tc_lift_def split: prod.splits sum.splits)
next
  fix k v n ttl and s :: "'r tcp_cache"
  assume "uph (tc_client s)"
  from set_up_law [OF this, of k v n ttl] show "\<exists>s'. rc_set (tcp_redis C) k v n ttl s = (Inr (), s') \<and> uph (tc_client s')"
    by (fastforce simp: tcp_redis_def tcp_set_def http_set_def Let_def tc_lift_eq split: option.splits)
next
  fix k and s :: "'r tcp_cache"
  assume "uph (tc_client s)"
  from del_up_law [OF this, of k] show "\<exists>s'. rc_del (tcp_redis C) k s = (Inr (), s') \<and> uph (tc_client s')"
    by (fastforce simp: tcp_redis_def tcp_del_def tc_lift_eq)
next
  fix p k and s :: "'r tcp_cache"
  assume "rc_publishInvalidation (tcp_redis C) = Some p" and "uph (tc_client s)"
  with publish_up_law [of "tc_client s" INVALIDATION_CHANNEL k]
  show "\<exists>s'. p k s = (Inr (), s') \<and> uph (tc_client s')"
    by (fastforce simp: tcp_redis_def tcp_publishInvalidation_def tc_lift_eq)
qed

end

section \<open>A client small enough to compute with\<close>

text \<open>It keeps the texts in a list, and fails the calls its script says to fail.\<close>

record mem_kv =
  mk_store :: "(string \<times> jstr) list"
  mk_fails :: "bool list"

definition mk_call :: "(mem_kv \<Rightarrow> 'a \<times> mem_kv) \<Rightarrow> (mem_kv, 'a) io" where
  "mk_call f c = (case mk_fails c of
      True # fs \<Rightarrow> (Inl (DriverError ''redis down''), c\<lparr>mk_fails := fs\<rparr>)
    | fs \<Rightarrow> (case f (c\<lparr>mk_fails := tl fs\<rparr>) of (x, c') \<Rightarrow> (Inr x, c')))"

definition mem_redis_client :: "mem_kv redis_client" where
  "mem_redis_client =
     \<lparr>cl_get = (\<lambda>k. mk_call (\<lambda>c. (map_of (mk_store c) k, c))),
      cl_set = (\<lambda>k s ttl. mk_call (\<lambda>c. ((), c\<lparr>mk_store := AList.update k s (mk_store c)\<rparr>))),
      cl_del = (\<lambda>k. mk_call (\<lambda>c. ((), c\<lparr>mk_store := AList.delete k (mk_store c)\<rparr>))),
      cl_publish = (\<lambda>ch msg. mk_call (\<lambda>c. ((), c))),
      cl_subscribe = (\<lambda>ch. mk_call (\<lambda>c. ((), c))),
      cl_quit_subscriber = ret (), cl_quit = ret ()\<rparr>"

definition mk_up :: "mem_kv \<Rightarrow> bool" where
  "mk_up c \<longleftrightarrow> mk_fails c = []"

interpretation mem_kv: redis_kv mem_redis_client "\<lambda>c. map_of (mk_store c)" mk_up
  by unfold_locales
    (auto simp: mem_redis_client_def mk_call_def mk_up_def jmap_simps map_le_def
      split: list.splits bool.splits if_splits sum.splits)

interpretation mem_http: redis_store "http_redis mem_redis_client" mem_kv.l2h mem_kv.uph
  by (rule mem_kv.http_store)

section \<open>Properties\<close>

text \<open>What an L2 cache stores it can read back: \<open>JSON.parse\<close> of the payload that \<open>set\<close> writes is
  the value and the version it was given, whatever characters the value has (quotes, control
  characters, surrogate pairs and lone surrogates included), and the payload is never the empty
  text that \<open>get\<close> takes for a missing key.\<close>

lemma redis_payload_roundtrip:
  "parse_payload (stringify_payload value version) = Some (value, version) \<and>
   decode_raw (Some (stringify_payload value version)) = Inr (Some (value, version))"
  by (simp add: decode_raw_def payload_roundtrip payload_nonempty)

text \<open>Over any Redis client that is a key-value store which may forget keys and whose failed
  calls happened or did not, both L2 caches keep the contract of an L2 cache: \<open>get\<close> returns nothing
  or the pair last set under that very key, \<open>set\<close> and \<open>del\<close> change that key only, and as long as the
  client works and the stored texts are payloads, no call throws.\<close>

lemma redis_caches_refine_store:
  assumes "redis_kv C kv kup"
  shows "redis_store (http_redis C) (\<lambda>c. payloads (kv c)) (\<lambda>c. kup c \<and> all_parse (kv c)) \<and>
    redis_store (tcp_redis C) (\<lambda>s. payloads (kv (tc_client s))) (\<lambda>s. kup (tc_client s) \<and> all_parse (kv (tc_client s)))"
  using redis_kv.http_store [OF assms] redis_kv.tcp_store [OF assms]
  by (simp add: redis_kv.l2h_def [OF assms, abs_def] redis_kv.uph_def [OF assms, abs_def])

lemma redis_caches_refine_store_witness:
  "redis_store (http_redis mem_redis_client) (\<lambda>c. payloads (map_of (mk_store c))) (\<lambda>c. mk_up c \<and> all_parse (map_of (mk_store c)))"
  by (rule conjunct1 [OF redis_caches_refine_store [OF mem_kv.redis_kv_axioms]])

end
