(* ===== verification/CacheManager.thy ===== *)
theory CacheManager
  imports MemCache RedisCaches
begin

text \<open>
  \<^verbatim>\<open>src/cache/cache-manager.ts\<close>: the three storage levels. The state (\<open>world\<close>) is the L1 object, the
  Redis client, the database, the clock, and the warnings logged; the database adapter \<open>A\<close> and the
  optional L2 cache \<open>l2\<close> are the objects the manager was built with. Failures of the L2 cache are
  caught and logged, failures of the database are thrown.

  Messages of the invalidation channel arrive at any time: \<open>cm_on_invalidation\<close> is the callback.
  The operations here run one at a time; what overlapping reads and writes do to the caches is the
  subject of the theory \<^verbatim>\<open>CacheRaces\<close>.
\<close>

record ('d, 'r) world =
  w_l1 :: mcache
  w_l2 :: 'r
  w_db :: 'd
  w_now :: int
  w_log :: "string list"

definition cacheKey :: "string \<Rightarrow> string \<Rightarrow> string" where
  "cacheKey sessionId key = sessionId @ '':'' @ key"

section \<open>Plumbing\<close>

definition on_db :: "('d, 'a) io \<Rightarrow> (('d, 'r) world, 'a) io" where
  "on_db m w = (case m (w_db w) of (r, d) \<Rightarrow> (r, w\<lparr>w_db := d\<rparr>))"

definition log :: "string \<Rightarrow> ('d, 'r) world \<Rightarrow> ('d, 'r) world" where
  "log msg w = w\<lparr>w_log := w_log w @ [msg]\<rparr>"

definition l1_get :: "string \<Rightarrow> ('d, 'r) world \<Rightarrow> (jstr \<times> int) option \<times> ('d, 'r) world" where
  "l1_get ck w = (case mc_get ck (w_now w) (w_l1 w) of (h, c) \<Rightarrow> (h, w\<lparr>w_l1 := c\<rparr>))"

definition l1_set :: "string \<Rightarrow> jstr \<Rightarrow> int \<Rightarrow> ('d, 'r) world \<Rightarrow> ('d, 'r) world" where
  "l1_set ck v n w = w\<lparr>w_l1 := mc_set ck v n (w_now w) (w_l1 w)\<rparr>"

definition l1_delete :: "string \<Rightarrow> ('d, 'r) world \<Rightarrow> ('d, 'r) world" where
  "l1_delete ck w = w\<lparr>w_l1 := mc_delete ck (w_l1 w)\<rparr>"

text \<open>\<open>await call().catch(\<dots>)\<close> on the Redis client, with or without a warning.\<close>

definition l2_catch :: "string option \<Rightarrow> ('r, unit) io \<Rightarrow> ('d, 'r) world \<Rightarrow> ('d, 'r) world" where
  "l2_catch warning m w = (case m (w_l2 w) of
      (Inr _, c) \<Rightarrow> w\<lparr>w_l2 := c\<rparr>
    | (Inl _, c) \<Rightarrow> (case warning of None \<Rightarrow> w\<lparr>w_l2 := c\<rparr> | Some msg \<Rightarrow> log msg (w\<lparr>w_l2 := c\<rparr>)))"

definition is_http :: "'r redis_cache option \<Rightarrow> bool" where
  "is_http l2 \<longleftrightarrow> (case l2 of None \<Rightarrow> False | Some R \<Rightarrow> rc_mode R = Http)"

section \<open>The manager\<close>

definition safeL2Get :: "'r redis_cache option \<Rightarrow> string \<Rightarrow> ('d, 'r) world \<Rightarrow> (jstr \<times> int) option \<times> ('d, 'r) world" where
  "safeL2Get l2 ck w = (case l2 of
      None \<Rightarrow> (None, w)
    | Some R \<Rightarrow> (case rc_get R ck (w_l2 w) of
        (Inr x, c) \<Rightarrow> (x, w\<lparr>w_l2 := c\<rparr>)
      | (Inl e, c) \<Rightarrow> (None, log ''redis cache read failed, falling back to database'' (w\<lparr>w_l2 := c\<rparr>))))"

definition safeL2Set :: "'r redis_cache option \<Rightarrow> string \<Rightarrow> jstr \<Rightarrow> int \<Rightarrow> ('d, 'r) world \<Rightarrow> ('d, 'r) world" where
  "safeL2Set l2 ck v n w = (case l2 of
      None \<Rightarrow> w
    | Some R \<Rightarrow> l2_catch (Some ''redis cache write failed, database write already succeeded so this is non-fatal'')
        (rc_set R ck v n None) w)"

definition cm_new :: "'r cache_options option \<Rightarrow> int \<Rightarrow> 'r \<Rightarrow> 'd \<Rightarrow> ('d, 'r) world" where
  "cm_new options now r d =
     (let l2 = Option.bind options co_redis;
          w = \<lparr>w_l1 = mc_new (Option.bind options co_memoryTtlMs) (Option.bind options co_memoryMaxEntries)
                        (Option.bind options co_memoryMaxBytes),
               w_l2 = r, w_db = d, w_now = now, w_log = []\<rparr>
      in case l2 of
           None \<Rightarrow> w
         | Some R \<Rightarrow>
             (case rc_subscribeInvalidation R of
                Some subscribe \<Rightarrow>
                  if rc_mode R = Tcp
                  then l2_catch (Some ''failed to subscribe to redis cache invalidation, L1 may serve stale reads across instances'')
                    subscribe w
                  else w
              | None \<Rightarrow> w))"

definition cm_on_invalidation :: "string \<Rightarrow> ('d, 'r) world \<Rightarrow> ('d, 'r) world" where
  "cm_on_invalidation invalidatedKey w = l1_delete invalidatedKey w"

text \<open>What \<open>get\<close> does with a record the database returned.\<close>

definition cm_fill :: "'r redis_cache option \<Rightarrow> string \<Rightarrow> string \<Rightarrow> session_record \<Rightarrow> ('d, 'r) world \<Rightarrow> ('d, 'r) world" where
  "cm_fill l2 sessionId key r w =
     safeL2Set l2 (cacheKey sessionId key) (sr_value r) (sr_version r)
       (l1_set (cacheKey sessionId key) (sr_value r) (sr_version r) w)"

definition cm_get_db :: "'d adapter \<Rightarrow> 'r redis_cache option \<Rightarrow> string \<Rightarrow> string \<Rightarrow> (('d, 'r) world, jstr option) io" where
  "cm_get_db A l2 sessionId key =
     bindA (on_db (ad_get A sessionId key)) (\<lambda>record w.
       (case record of
          None \<Rightarrow> (Inr None, w)
        | Some r \<Rightarrow> (Inr (Some (sr_value r)), cm_fill l2 sessionId key r w)))"

definition cm_get_l2 :: "'d adapter \<Rightarrow> 'r redis_cache option \<Rightarrow> string \<Rightarrow> string \<Rightarrow> (('d, 'r) world, jstr option) io" where
  "cm_get_l2 A l2 sessionId key w =
     (let compositeKey = cacheKey sessionId key in
      if l2 \<noteq> None then
        (case safeL2Get l2 compositeKey w of
           (Some (v, n), w1) \<Rightarrow> (Inr (Some v), l1_set compositeKey v n w1)
         | (None, w1) \<Rightarrow> cm_get_db A l2 sessionId key w1)
      else cm_get_db A l2 sessionId key w)"

definition cm_get :: "'d adapter \<Rightarrow> 'r redis_cache option \<Rightarrow> string \<Rightarrow> string \<Rightarrow> (('d, 'r) world, jstr option) io" where
  "cm_get A l2 sessionId key w =
     (let compositeKey = cacheKey sessionId key in
      case l1_get compositeKey w of
        (Some (v, n), w1) \<Rightarrow>
          if is_http l2 then
            (case safeL2Get l2 compositeKey w1 of
               (Some (v', n'), w2) \<Rightarrow>
                 if n' \<noteq> n then cm_get_l2 A l2 sessionId key (l1_delete compositeKey w2) else (Inr (Some v), w2)
             | (None, w2) \<Rightarrow> (Inr (Some v), w2))
          else (Inr (Some v), w1)
      | (None, w1) \<Rightarrow> cm_get_l2 A l2 sessionId key w1)"

text \<open>\<open>getMany\<close>: the loop over the keys collects the L1 hits and the misses; the loop over the rows
  fills both caches.\<close>

definition cm_scan_step ::
  "'r redis_cache option \<Rightarrow> string \<Rightarrow> string \<Rightarrow> (string \<times> jstr) list \<times> string list \<times> ('d, 'r) world \<Rightarrow>
    (string \<times> jstr) list \<times> string list \<times> ('d, 'r) world" where
  "cm_scan_step l2 sessionId key st =
     (case st of (result, misses, w) \<Rightarrow>
       (case l1_get (cacheKey sessionId key) w of
          (Some (v, n), w1) \<Rightarrow>
            if \<not> is_http l2 then (AList.update key v result, misses, w1) else (result, misses @ [key], w1)
        | (None, w1) \<Rightarrow> (result, misses @ [key], w1)))"

definition cm_fill_step ::
  "'r redis_cache option \<Rightarrow> string \<Rightarrow> string \<times> session_record \<Rightarrow> (string \<times> jstr) list \<times> ('d, 'r) world \<Rightarrow>
    (string \<times> jstr) list \<times> ('d, 'r) world" where
  "cm_fill_step l2 sessionId kr st =
     (case kr of (key, r) \<Rightarrow> case st of (result, w) \<Rightarrow>
       (AList.update key (sr_value r) result,
        safeL2Set l2 (cacheKey sessionId key) (sr_value r) (sr_version r)
          (l1_set (cacheKey sessionId key) (sr_value r) (sr_version r) w)))"

definition cm_getMany ::
  "'d adapter \<Rightarrow> 'r redis_cache option \<Rightarrow> string \<Rightarrow> string list \<Rightarrow> (('d, 'r) world, (string \<times> jstr) list) io" where
  "cm_getMany A l2 sessionId keys w =
     (case fold (cm_scan_step l2 sessionId) keys ([], [], w) of
        (result, misses, w1) \<Rightarrow>
          if misses = [] then (Inr result, w1)
          else bindA (on_db (ad_getMany A sessionId misses)) (\<lambda>records w2.
            (case fold (cm_fill_step l2 sessionId) records (result, w2) of (result', w3) \<Rightarrow> (Inr result', w3))) w1)"

definition publisher :: "'r redis_cache option \<Rightarrow> (string \<Rightarrow> ('r, unit) io) option" where
  "publisher l2 = (case l2 of None \<Rightarrow> None | Some R \<Rightarrow> if rc_mode R = Tcp then rc_publishInvalidation R else None)"

definition cm_onWritten ::
  "'r redis_cache option \<Rightarrow> string \<Rightarrow> string \<Rightarrow> jstr \<Rightarrow> int \<Rightarrow> ('d, 'r) world \<Rightarrow> ('d, 'r) world" where
  "cm_onWritten l2 sessionId key value version w =
     (let compositeKey = cacheKey sessionId key;
          w1 = safeL2Set l2 compositeKey value version (l1_set compositeKey value version w)
      in case publisher l2 of
           None \<Rightarrow> w1
         | Some publish \<Rightarrow> l2_catch (Some ''failed to publish cache invalidation'') (publish compositeKey) w1)"

definition cm_onDeleted :: "'r redis_cache option \<Rightarrow> string \<Rightarrow> string \<Rightarrow> ('d, 'r) world \<Rightarrow> ('d, 'r) world" where
  "cm_onDeleted l2 sessionId key w =
     (let compositeKey = cacheKey sessionId key;
          w1 = l1_delete compositeKey w;
          w2 = (case l2 of None \<Rightarrow> w1 | Some R \<Rightarrow> l2_catch None (rc_del R compositeKey) w1)
      in case publisher l2 of
           None \<Rightarrow> w2
         | Some publish \<Rightarrow> l2_catch None (publish compositeKey) w2)"

definition cm_clearSession :: "string \<Rightarrow> ('d, 'r) world \<Rightarrow> ('d, 'r) world" where
  "cm_clearSession sessionId w = w\<lparr>w_l1 := mc_deleteByPrefix (sessionId @ '':'') (w_l1 w)\<rparr>"

definition cm_clearAll :: "('d, 'r) world \<Rightarrow> ('d, 'r) world" where
  "cm_clearAll w = w\<lparr>w_l1 := mc_clear (w_l1 w)\<rparr>"

definition cm_close :: "'r redis_cache option \<Rightarrow> ('d, 'r) world \<Rightarrow> ('d, 'r) world" where
  "cm_close l2 w =
     (let w1 = w\<lparr>w_l1 := mc_destroy (w_l1 w)\<rparr>
      in case l2 of None \<Rightarrow> w1 | Some R \<Rightarrow> l2_catch None (rc_close R) w1)"

section \<open>What the caches hold\<close>

definition l1_map :: "('d, 'r) world \<Rightarrow> string \<rightharpoonup> jstr" where
  "l1_map w ck = map_option ce_value (map_of (mc_store (w_l1 w)) ck)"

definition l2_map :: "('r \<Rightarrow> string \<rightharpoonup> jstr \<times> int) \<Rightarrow> ('d, 'r) world \<Rightarrow> string \<rightharpoonup> jstr" where
  "l2_map l2v w ck = map_option fst (l2v (w_l2 w) ck)"

text \<open>A cache agrees with the stored values, except perhaps at the pairs \<open>X\<close>.\<close>

definition agree ::
  "(string \<Rightarrow> bool) \<Rightarrow> (string \<Rightarrow> bool) \<Rightarrow> (string \<times> string) set \<Rightarrow> (string \<rightharpoonup> jstr) \<Rightarrow>
    (string \<Rightarrow> string \<Rightarrow> jstr option) \<Rightarrow> bool" where
  "agree lsid lkey X m ref \<longleftrightarrow>
     (\<forall>s k v. lsid s \<longrightarrow> lkey k \<longrightarrow> (s, k) \<notin> X \<longrightarrow> m (cacheKey s k) = Some v \<longrightarrow> ref s k = Some v)"

definition coherent ::
  "('d \<Rightarrow> db_view) \<Rightarrow> ('d \<Rightarrow> bool) \<Rightarrow> (string \<Rightarrow> bool) \<Rightarrow> (string \<Rightarrow> bool) \<Rightarrow> ('r \<Rightarrow> string \<rightharpoonup> jstr \<times> int) \<Rightarrow>
    'r redis_cache option \<Rightarrow> (string \<times> string) set \<Rightarrow> (string \<times> string) set \<Rightarrow> ('d, 'r) world \<Rightarrow> bool" where
  "coherent view ivr lsid lkey l2v l2 X1 X2 w \<longleftrightarrow>
     ivr (w_db w) \<and> mc_wf (w_l1 w) \<and>
     agree lsid lkey X1 (l1_map w) (value_at (view (w_db w))) \<and>
     (l2 \<noteq> None \<longrightarrow> agree lsid lkey X2 (l2_map l2v w) (value_at (view (w_db w))))"

lemma cacheKey_inject:
  "CHR '':'' \<notin> set s \<Longrightarrow> CHR '':'' \<notin> set s' \<Longrightarrow> cacheKey s k = cacheKey s' k' \<longleftrightarrow> s = s' \<and> k = k'"
  unfolding cacheKey_def by (auto simp: append_eq_append_conv2 append_eq_Cons_conv Cons_eq_append_conv)

lemma agree_le: "agree lsid lkey X m ref \<Longrightarrow> m' \<subseteq>\<^sub>m m \<Longrightarrow> agree lsid lkey X m' ref"
  by (fastforce simp: agree_def map_le_def dom_def)

lemma agree_mono: "agree lsid lkey X m ref \<Longrightarrow> X \<subseteq> Y \<Longrightarrow> agree lsid lkey Y m ref"
  by (auto simp: agree_def)

lemma agreeD: "agree lsid lkey X m ref \<Longrightarrow> lsid s \<Longrightarrow> lkey k \<Longrightarrow> (s, k) \<notin> X \<Longrightarrow> m (cacheKey s k) = Some v \<Longrightarrow> ref s k = Some v"
  by (auto simp: agree_def)

lemma agree_upd:
  assumes "agree lsid lkey X m ref" and "\<And>s. lsid s \<Longrightarrow> CHR '':'' \<notin> set s" and "lsid s"
    and "ref s k = Some v" and "m' \<subseteq>\<^sub>m m(cacheKey s k \<mapsto> v)"
  shows "agree lsid lkey (X - {(s, k)}) m' ref"
proof (rule agree_le [OF _ assms(5)])
  show "agree lsid lkey (X - {(s, k)}) (m(cacheKey s k \<mapsto> v)) ref"
    using assms(1,3,4) cacheKey_inject [OF assms(2) assms(2)] by (auto simp: agree_def)
qed

lemma agree_del:
  assumes "agree lsid lkey X m ref" and "\<And>s. lsid s \<Longrightarrow> CHR '':'' \<notin> set s" and "lsid s"
    and "m' \<subseteq>\<^sub>m m(cacheKey s k := None)"
  shows "agree lsid lkey (X - {(s, k)}) m' ref"
proof (rule agree_le [OF _ assms(4)])
  show "agree lsid lkey (X - {(s, k)}) (m(cacheKey s k := None)) ref"
    using assms(1,3) cacheKey_inject [OF assms(2) assms(2)] by (auto simp: agree_def)
qed

lemma map_le_del: "m \<subseteq>\<^sub>m m'(k := None) \<Longrightarrow> m \<subseteq>\<^sub>m m'"
  using map_le_trans upd_None_map_le by metis

lemma option_map_le: "m \<subseteq>\<^sub>m m' \<Longrightarrow> (\<lambda>x. map_option f (m x)) \<subseteq>\<^sub>m (\<lambda>x. map_option f (m' x))"
  by (fastforce simp: map_le_def dom_def)

lemma l1_get_facts:
  assumes "l1_get ck w = (h, w')"
  shows "l1_map w' \<subseteq>\<^sub>m l1_map w" and "h = Some (v, n) \<Longrightarrow> l1_map w ck = Some v"
    and "mc_wf (w_l1 w) \<Longrightarrow> mc_wf (w_l1 w')" and "w' = w\<lparr>w_l1 := w_l1 w'\<rparr>"
proof -
  from assms have w': "w_l1 w' = snd (mc_get ck (w_now w) (w_l1 w))" and h: "h = fst (mc_get ck (w_now w) (w_l1 w))"
    and eq: "w' = w\<lparr>w_l1 := snd (mc_get ck (w_now w) (w_l1 w))\<rparr>"
    by (auto simp: l1_get_def split: prod.splits)
  have "(\<lambda>x. map_option ce_value (map_of (mc_store (w_l1 w')) x)) \<subseteq>\<^sub>m (\<lambda>x. map_option ce_value (map_of (mc_store (w_l1 w)) x))"
    unfolding w' by (rule option_map_le [OF mc_store_get_subset])
  then show "l1_map w' \<subseteq>\<^sub>m l1_map w" by (simp add: l1_map_def [abs_def])
  show "l1_map w ck = Some v" if "h = Some (v, n)"
    using that h by (auto simp: mc_get_def l1_map_def split: option.splits if_splits)
  show "mc_wf (w_l1 w')" if "mc_wf (w_l1 w)" using that w' by (simp add: mc_wf_get)
  show "w' = w\<lparr>w_l1 := w_l1 w'\<rparr>" using eq w' by simp
qed

lemma l1_set_map:
  assumes "mc_wf (w_l1 w)"
  shows "l1_map (l1_set ck v n w) \<subseteq>\<^sub>m (l1_map w)(ck \<mapsto> v)"
proof -
  from option_map_le [OF mc_store_set_subset [OF assms, of ck v n "w_now w"], of ce_value]
  show ?thesis by (auto simp: l1_map_def [abs_def] l1_set_def mc_entry_def map_le_def dom_def split: if_splits)
qed

lemma l1_delete_map: "l1_map (l1_delete ck w) = (l1_map w)(ck := None)"
  by (auto simp: l1_map_def [abs_def] l1_delete_def mc_store_delete jmap_simps fun_eq_iff)

lemma l1_keep [simp]:
  "w_db (l1_set ck v n w) = w_db w" "w_l2 (l1_set ck v n w) = w_l2 w" "w_now (l1_set ck v n w) = w_now w"
  "w_db (l1_delete ck w) = w_db w" "w_l2 (l1_delete ck w) = w_l2 w" "w_now (l1_delete ck w) = w_now w"
  by (simp_all add: l1_set_def l1_delete_def)

lemma l1_wf [simp]:
  "mc_wf (w_l1 w) \<Longrightarrow> mc_wf (w_l1 (l1_set ck v n w))" "mc_wf (w_l1 w) \<Longrightarrow> mc_wf (w_l1 (l1_delete ck w))"
  by (simp_all add: l1_set_def l1_delete_def mc_wf_intros)

lemma log_keep [simp]:
  "w_l1 (log msg w) = w_l1 w" "w_l2 (log msg w) = w_l2 w" "w_db (log msg w) = w_db w" "w_now (log msg w) = w_now w"
  by (simp_all add: log_def)

lemma l2_catch_keep [simp]:
  "w_l1 (l2_catch msg m w) = w_l1 w" "w_db (l2_catch msg m w) = w_db w" "w_now (l2_catch msg m w) = w_now w"
  "w_l2 (l2_catch msg m w) = snd (m (w_l2 w))"
  by (auto simp: l2_catch_def split: prod.splits sum.splits option.splits)

lemma safeL2Get_keep:
  "safeL2Get l2 ck w = (h, w') \<Longrightarrow> w_l1 w' = w_l1 w \<and> w_db w' = w_db w \<and> w_now w' = w_now w"
  by (auto simp: safeL2Get_def split: option.splits prod.splits sum.splits)

lemma safeL2Set_keep [simp]:
  "w_l1 (safeL2Set l2 ck v n w) = w_l1 w" "w_db (safeL2Set l2 ck v n w) = w_db w" "w_now (safeL2Set l2 ck v n w) = w_now w"
  by (simp_all add: safeL2Set_def split: option.splits)

section \<open>The manager over a store and an L2 cache\<close>

locale cache_stack = db_store A view ivr up lsid lkey
  for A :: "'d adapter" and view :: "'d \<Rightarrow> db_view" and ivr :: "'d \<Rightarrow> bool" and up :: "'d \<Rightarrow> bool"
    and lsid :: "string \<Rightarrow> bool" and lkey :: "string \<Rightarrow> bool" +
  fixes l2 :: "'r redis_cache option"
    and l2v :: "'r \<Rightarrow> string \<rightharpoonup> jstr \<times> int"
    and rup :: "'r \<Rightarrow> bool"
  assumes l2_store: "l2 = Some R \<Longrightarrow> redis_store R l2v rup"
    and no_colon: "lsid s \<Longrightarrow> CHR '':'' \<notin> set s"
begin

abbreviation coh :: "(string \<times> string) set \<Rightarrow> (string \<times> string) set \<Rightarrow> ('d, 'r) world \<Rightarrow> bool" where
  "coh \<equiv> coherent view ivr lsid lkey l2v l2"

abbreviation stored_value :: "('d, 'r) world \<Rightarrow> string \<Rightarrow> string \<Rightarrow> jstr option" where
  "stored_value w \<equiv> value_at (view (w_db w))"

abbreviation agr :: "(string \<times> string) set \<Rightarrow> (string \<rightharpoonup> jstr) \<Rightarrow> (string \<Rightarrow> string \<Rightarrow> jstr option) \<Rightarrow> bool" where
  "agr \<equiv> agree lsid lkey"

lemma cohI:
  assumes "ivr (w_db w)" and "mc_wf (w_l1 w)" and "agr X1 (l1_map w) (stored_value w)"
    and "l2 \<noteq> None \<Longrightarrow> agr X2 (l2_map l2v w) (stored_value w)"
  shows "coh X1 X2 w"
  using assms by (simp add: coherent_def)

lemma cohD:
  assumes "coh X1 X2 w"
  shows "ivr (w_db w)" and "mc_wf (w_l1 w)" and "agr X1 (l1_map w) (stored_value w)"
    and "l2 = Some R \<Longrightarrow> agr X2 (l2_map l2v w) (stored_value w)"
  using assms by (auto simp: coherent_def)

lemma coh_mono: "coh X1 X2 w \<Longrightarrow> X1 \<subseteq> Y1 \<Longrightarrow> X2 \<subseteq> Y2 \<Longrightarrow> coh Y1 Y2 w"
  by (auto simp: coherent_def intro: agree_mono)

lemma l2_map_le: "l2v (w_l2 w') \<subseteq>\<^sub>m l2v (w_l2 w) \<Longrightarrow> l2_map l2v w' \<subseteq>\<^sub>m l2_map l2v w"
  by (fastforce simp: l2_map_def map_le_def dom_def)

lemma l1_map_cong: "w_l1 w' = w_l1 w \<Longrightarrow> l1_map w' = l1_map w"
  by (simp add: l1_map_def fun_eq_iff)

text \<open>Steps that only touch the Redis client.\<close>

lemma safeL2Get_coh:
  assumes "coh X1 X2 w" and "safeL2Get l2 ck w = (h, w')"
  shows "coh X1 X2 w'" and "h = Some (v, n) \<Longrightarrow> l2_map l2v w ck = Some v"
proof -
  note k = safeL2Get_keep [OF assms(2)]
  have le: "l2 = Some R \<Longrightarrow> l2v (w_l2 w') \<subseteq>\<^sub>m l2v (w_l2 w) \<and> (\<forall>x. h = Some x \<longrightarrow> l2v (w_l2 w) ck = Some x)" for R
    using assms(2) redis_store.rget [OF l2_store [of R]]
    by (fastforce simp: safeL2Get_def split: option.splits prod.splits sum.splits)
  show "coh X1 X2 w'"
    using assms(1) k le by (auto simp: coherent_def l1_map_cong [of w' w] intro: agree_le l2_map_le)
  show "l2_map l2v w ck = Some v" if "h = Some (v, n)"
  proof (cases l2)
    case None
    with assms(2) that show ?thesis by (simp add: safeL2Get_def)
  next
    case (Some R)
    with le that show ?thesis by (simp add: l2_map_def)
  qed
qed

lemma safeL2Set_coh:
  assumes "coh X1 X2 w" and "lsid s" and "stored_value w s k = Some v"
  shows "coh X1 X2 (safeL2Set l2 (cacheKey s k) v n w)"
    and "rup (w_l2 w) \<or> l2 = None \<Longrightarrow> coh X1 (X2 - {(s, k)}) (safeL2Set l2 (cacheKey s k) v n w)"
    and "rup (w_l2 w) \<Longrightarrow> rup (w_l2 (safeL2Set l2 (cacheKey s k) v n w))"
proof -
  let ?w = "safeL2Set l2 (cacheKey s k) v n w"
  have c: "coh X1 X ?w" if "l2 \<noteq> None \<Longrightarrow> agr X (l2_map l2v ?w) (stored_value w)" for X
    using assms(1) that by (auto simp: coherent_def l1_map_cong [of ?w w])
  show "coh X1 X2 ?w"
  proof (rule c)
    assume "l2 \<noteq> None"
    then obtain R where R: "l2 = Some R" by blast
    obtain r c1 where set: "rc_set R (cacheKey s k) v n None (w_l2 w) = (r, c1)" by fastforce
    with R have w2: "w_l2 ?w = c1" by (simp add: safeL2Set_def)
    from redis_store.rset [OF l2_store [OF R] set]
    have "l2v c1 \<subseteq>\<^sub>m l2v (w_l2 w) \<or> l2v c1 \<subseteq>\<^sub>m (l2v (w_l2 w))(cacheKey s k \<mapsto> (v, n))" by (auto split: sum.splits)
    then have "l2_map l2v ?w \<subseteq>\<^sub>m l2_map l2v w \<or> l2_map l2v ?w \<subseteq>\<^sub>m (l2_map l2v w)(cacheKey s k \<mapsto> v)"
      unfolding w2 [symmetric] by (fastforce simp: l2_map_def map_le_def dom_def split: if_splits)
    then show "agr X2 (l2_map l2v ?w) (stored_value w)"
    proof
      assume "l2_map l2v ?w \<subseteq>\<^sub>m (l2_map l2v w)(cacheKey s k \<mapsto> v)"
      from agree_upd [OF cohD(4) [OF assms(1) R] no_colon assms(2) assms(3) this]
      show ?thesis by (rule agree_mono) auto
    qed (rule agree_le [OF cohD(4) [OF assms(1) R]])
  qed
  show "coh X1 (X2 - {(s, k)}) ?w" if up: "rup (w_l2 w) \<or> l2 = None"
  proof (rule c)
    assume "l2 \<noteq> None"
    then obtain R where R: "l2 = Some R" by blast
    with redis_store.rset_up [OF l2_store [OF R]] up obtain c1 where
      set: "rc_set R (cacheKey s k) v n None (w_l2 w) = (Inr (), c1)" by blast
    with R have w2: "w_l2 ?w = c1" by (simp add: safeL2Set_def)
    from redis_store.rset [OF l2_store [OF R] set]
    have "l2_map l2v ?w \<subseteq>\<^sub>m (l2_map l2v w)(cacheKey s k \<mapsto> v)"
      unfolding w2 [symmetric] by (fastforce simp: l2_map_def map_le_def dom_def split: if_splits)
    from agree_upd [OF cohD(4) [OF assms(1) R] no_colon assms(2) assms(3) this]
    show "agr (X2 - {(s, k)}) (l2_map l2v ?w) (stored_value w)" .
  qed
  show "rup (w_l2 ?w)" if "rup (w_l2 w)"
  proof (cases l2)
    case None
    with that show ?thesis by (simp add: safeL2Set_def)
  next
    case (Some R)
    with redis_store.rset_up [OF l2_store [OF Some] that] obtain c1 where
      "rc_set R (cacheKey s k) v n None (w_l2 w) = (Inr (), c1)" "rup c1" by blast
    with Some show ?thesis by (simp add: safeL2Set_def)
  qed
qed

text \<open>Steps that only touch L1.\<close>

lemma l1_get_coh:
  assumes "coh X1 X2 w" and "l1_get ck w = (h, w')"
  shows "coh X1 X2 w'" and "w_db w' = w_db w" and "w_l2 w' = w_l2 w" and "h = Some (v, n) \<Longrightarrow> l1_map w ck = Some v"
proof -
  note f = l1_get_facts [OF assms(2)]
  show db: "w_db w' = w_db w" and w2: "w_l2 w' = w_l2 w" using f(4) by (metis world.ext_inject world.surjective world.update_convs(1))+
  have "l2_map l2v w' = l2_map l2v w" using w2 by (simp add: l2_map_def fun_eq_iff)
  with assms(1) f(1,3) db show "coh X1 X2 w'" by (auto simp: coherent_def intro: agree_le)
  show "h = Some (v, n) \<Longrightarrow> l1_map w ck = Some v" by (rule f(2))
qed

lemma l1_set_coh:
  assumes "coh X1 X2 w" and "lsid s" and "stored_value w s k = Some v"
  shows "coh (X1 - {(s, k)}) X2 (l1_set (cacheKey s k) v n w)"
proof (rule cohI)
  note d = cohD [OF assms(1)]
  show "agr (X1 - {(s, k)}) (l1_map (l1_set (cacheKey s k) v n w)) (stored_value (l1_set (cacheKey s k) v n w))"
    using agree_upd [OF d(3) no_colon assms(2,3) l1_set_map [OF d(2)]] by simp
  have "l2_map l2v (l1_set (cacheKey s k) v n w) = l2_map l2v w" by (simp add: l2_map_def fun_eq_iff)
  then show "agr X2 (l2_map l2v (l1_set (cacheKey s k) v n w)) (stored_value (l1_set (cacheKey s k) v n w))" if "l2 \<noteq> None"
    using d(4) that by auto
qed (use cohD [OF assms(1)] in simp_all)

lemma l1_delete_coh:
  assumes "coh X1 X2 w" and "lsid s"
  shows "coh (X1 - {(s, k)}) X2 (l1_delete (cacheKey s k) w)"
proof (rule cohI)
  note d = cohD [OF assms(1)]
  show "agr (X1 - {(s, k)}) (l1_map (l1_delete (cacheKey s k) w)) (stored_value (l1_delete (cacheKey s k) w))"
    using agree_del [OF d(3) no_colon assms(2), of "l1_map (l1_delete (cacheKey s k) w)" k] by (simp add: l1_delete_map)
  have "l2_map l2v (l1_delete (cacheKey s k) w) = l2_map l2v w" by (simp add: l2_map_def fun_eq_iff)
  then show "agr X2 (l2_map l2v (l1_delete (cacheKey s k) w)) (stored_value (l1_delete (cacheKey s k) w))" if "l2 \<noteq> None"
    using d(4) that by auto
qed (use cohD [OF assms(1)] in simp_all)

end

section \<open>Reads\<close>

context cache_stack begin

text \<open>What every read promises: it leaves the store alone, keeps the caches coherent, returns the
  stored value if it returns, and returns if the database is up, whatever Redis does.\<close>

definition reads_ok :: "(('d, 'r) world, 'a) io \<Rightarrow> ('d, 'r) world \<Rightarrow> ('a \<Rightarrow> bool) \<Rightarrow> bool" where
  "reads_ok m w P \<longleftrightarrow> (\<forall>r w'. m w = (r, w') \<longrightarrow>
     coh {} {} w' \<and> view (w_db w') = view (w_db w) \<and> (\<forall>x. r = Inr x \<longrightarrow> P x) \<and>
     (up (w_db w) \<longrightarrow> (\<exists>x. r = Inr x) \<and> up (w_db w')))"

lemma l1_set_coh0:
  "coh {} {} w \<Longrightarrow> lsid s \<Longrightarrow> stored_value w s k = Some v \<Longrightarrow> coh {} {} (l1_set (cacheKey s k) v n w)"
  using l1_set_coh [of "{}" "{}" w s k v n] by simp

lemma get_db_ok:
  assumes "coh {} {} w" and "lsid s" and "lkey k"
  shows "reads_ok (cm_get_db A l2 s k) w (\<lambda>x. x = stored_value w s k)"
  unfolding reads_ok_def
proof (intro allI impI)
  fix r w'
  assume run: "cm_get_db A l2 s k w = (r, w')"
  obtain r1 d where g: "ad_get A s k (w_db w) = (r1, d)" by fastforce
  note q = get_ok [OF cohD(1) [OF assms(1)] assms(2,3)]
  note qd = query_okD [OF q g]
  have up: "up (w_db w) \<Longrightarrow> (\<exists>y. r1 = Inr y) \<and> up d"
    using query_ok_up [OF q] g by auto
  let ?w1 = "w\<lparr>w_db := d\<rparr>"
  have c1: "coh {} {} ?w1"
    using assms(1) qd(1,2) by (simp add: coherent_def l1_map_def [abs_def] l2_map_def [abs_def])
  show "coh {} {} w' \<and> view (w_db w') = view (w_db w) \<and> (\<forall>x. r = Inr x \<longrightarrow> x = stored_value w s k) \<and>
    (up (w_db w) \<longrightarrow> (\<exists>x. r = Inr x) \<and> up (w_db w'))"
  proof (cases r1)
    case (Inl e)
    with run g have "w' = ?w1" "r = Inl e" by (simp_all add: cm_get_db_def cm_fill_def bindA_def on_db_def)
    with c1 qd(2) up Inl show ?thesis by auto
  next
    case (Inr x)
    then have x: "x = view (w_db w) s k" using qd(3) by blast
    show ?thesis
    proof (cases x)
      case None
      with run g Inr have "w' = ?w1" "r = Inr None" by (simp_all add: cm_get_db_def cm_fill_def bindA_def on_db_def)
      with c1 qd(2) up Inr None x show ?thesis by (auto simp: value_at_def)
    next
      case (Some rec)
      then have v: "stored_value ?w1 s k = Some (sr_value rec)" using x qd(2) by (simp add: value_at_def)
      let ?w2 = "l1_set (cacheKey s k) (sr_value rec) (sr_version rec) ?w1"
      have c2: "coh {} {} ?w2" by (rule l1_set_coh0 [OF c1 assms(2) v])
      have "coh {} {} (safeL2Set l2 (cacheKey s k) (sr_value rec) (sr_version rec) ?w2)"
        by (rule safeL2Set_coh(1) [OF c2 assms(2)]) (use v in simp)
      moreover from run g Inr Some have "r = Inr (Some (sr_value rec))"
        and "w' = safeL2Set l2 (cacheKey s k) (sr_value rec) (sr_version rec) ?w2"
        by (simp_all add: cm_get_db_def cm_fill_def bindA_def on_db_def)
      ultimately show ?thesis using qd(2) up Inr v by (auto simp: value_at_def)
    qed
  qed
qed

lemma reads_ok_from:
  assumes "reads_ok m w1 P" and "m0 w = m w1" and "w_db w1 = w_db w"
  shows "reads_ok m0 w P"
  using assms by (auto simp: reads_ok_def)

lemma reads_ok_return:
  assumes "m w = (Inr x, w1)" and "coh {} {} w1" and "w_db w1 = w_db w" and "P x"
  shows "reads_ok m w P"
  using assms by (auto simp: reads_ok_def)

lemma get_l2_ok:
  assumes "coh {} {} w" and "lsid s" and "lkey k"
  shows "reads_ok (cm_get_l2 A l2 s k) w (\<lambda>x. x = stored_value w s k)"
proof (cases "l2 = None")
  case True
  show ?thesis by (rule reads_ok_from [OF get_db_ok [OF assms]]) (simp_all add: True cm_get_l2_def Let_def)
next
  case False
  then obtain R where R: "l2 = Some R" by blast
  obtain h w1 where g: "safeL2Get l2 (cacheKey s k) w = (h, w1)" by fastforce
  note c1 = safeL2Get_coh(1) [OF assms(1) g] and keep = safeL2Get_keep [OF g]
  show ?thesis
  proof (cases h)
    case None
    have "reads_ok (cm_get_db A l2 s k) w1 (\<lambda>x. x = stored_value w s k)"
      using get_db_ok [OF c1 assms(2,3)] keep by simp
    then show ?thesis
      by (rule reads_ok_from) (use R g None keep in \<open>simp_all add: cm_get_l2_def Let_def\<close>)
  next
    case (Some vn)
    obtain v n where h: "h = Some (v, n)" using Some by (cases vn) auto
    have v: "stored_value w s k = Some v"
      using agreeD [OF cohD(4) [OF assms(1) R] assms(2,3)] safeL2Get_coh(2) [OF assms(1) g h] by simp
    have "coh {} {} (l1_set (cacheKey s k) v n w1)" by (rule l1_set_coh0 [OF c1 assms(2)]) (use v keep in simp)
    then show ?thesis
      by (intro reads_ok_return [where x = "Some v" and ?w1.0 = "l1_set (cacheKey s k) v n w1"])
        (use R g h v keep in \<open>simp_all add: cm_get_l2_def Let_def\<close>)
  qed
qed

lemma get_reads:
  assumes "coh {} {} w" and "lsid s" and "lkey k"
  shows "reads_ok (cm_get A l2 s k) w (\<lambda>x. x = stored_value w s k)"
proof -
  let ?ck = "cacheKey s k"
  obtain h w1 where g: "l1_get ?ck w = (h, w1)" by fastforce
  note l1 = l1_get_coh [OF assms(1) g]
  show ?thesis
  proof (cases h)
    case None
    have "reads_ok (cm_get_l2 A l2 s k) w1 (\<lambda>x. x = stored_value w s k)"
      using get_l2_ok [OF l1(1) assms(2,3)] l1(2) by simp
    then show ?thesis by (rule reads_ok_from) (use g None l1(2) in \<open>simp_all add: cm_get_def Let_def\<close>)
  next
    case (Some vn)
    obtain v n where h: "h = Some (v, n)" using Some by (cases vn) auto
    have v: "stored_value w s k = Some v"
      using agreeD [OF cohD(3) [OF assms(1)] assms(2,3)] l1(4) [OF h] by simp
    show ?thesis
    proof (cases "is_http l2")
      case False
      then show ?thesis
        by (intro reads_ok_return [where x = "Some v" and ?w1.0 = w1]) (use g h v l1 in \<open>simp_all add: cm_get_def Let_def\<close>)
    next
      case True
      obtain h2 w2 where g2: "safeL2Get l2 ?ck w1 = (h2, w2)" by fastforce
      note c2 = safeL2Get_coh(1) [OF l1(1) g2] and keep = safeL2Get_keep [OF g2]
      consider v' n' where "h2 = Some (v', n')" "n' \<noteq> n" | "\<forall>v' n'. h2 = Some (v', n') \<longrightarrow> n' = n" by blast
      then show ?thesis
      proof cases
        case 1
        have "coh {} {} (l1_delete ?ck w2)" using l1_delete_coh [OF c2 assms(2), of k] by simp
        then have "reads_ok (cm_get_l2 A l2 s k) (l1_delete ?ck w2) (\<lambda>x. x = stored_value w s k)"
          using get_l2_ok [OF _ assms(2,3), of "l1_delete ?ck w2"] keep l1(2) by simp
        then show ?thesis
          by (rule reads_ok_from) (use g h True g2 1 keep l1(2) in \<open>simp_all add: cm_get_def Let_def\<close>)
      next
        case 2
        then have "cm_get A l2 s k w = (Inr (Some v), w2)"
          using g h True g2 by (auto simp: cm_get_def Let_def split: option.splits)
        then show ?thesis by (rule reads_ok_return) (use c2 keep l1(2) v in simp_all)
      qed
    qed
  qed
qed

end

context cache_stack begin

lemma scan_ok:
  assumes "coh {} {} w" and "lsid s" and "\<forall>k \<in> set ks. lkey k"
    and "fold (cm_scan_step l2 s) ks ([], [], w) = (result, misses, w')"
  shows "coh {} {} w' \<and> w_db w' = w_db w \<and> distinct (keys_of result) \<and>
    (\<forall>k v. map_of result k = Some v \<longrightarrow> k \<in> set ks \<and> stored_value w s k = Some v) \<and>
    set misses \<subseteq> set ks \<and> set ks \<subseteq> set misses \<union> dom (map_of result)"
  using assms(3,4)
proof (induction ks arbitrary: result misses w' rule: rev_induct)
  case Nil
  with assms(1) show ?case by simp
next
  case (snoc k ks)
  obtain result1 misses1 w1 where f: "fold (cm_scan_step l2 s) ks ([], [], w) = (result1, misses1, w1)"
    by (metis prod_cases3)
  have IH: "coh {} {} w1 \<and> w_db w1 = w_db w \<and> distinct (keys_of result1) \<and>
    (\<forall>k v. map_of result1 k = Some v \<longrightarrow> k \<in> set ks \<and> stored_value w s k = Some v) \<and>
    set misses1 \<subseteq> set ks \<and> set ks \<subseteq> set misses1 \<union> dom (map_of result1)"
    by (rule snoc.IH [OF _ f]) (use snoc.prems(1) in simp)
  have k: "lkey k" using snoc.prems(1) by simp
  obtain h w2 where g: "l1_get (cacheKey s k) w1 = (h, w2)" by fastforce
  note l1 = l1_get_coh [OF conjunct1 [OF IH] g]
  have eq: "(result, misses, w') = (case h of
      Some (v, n) \<Rightarrow> if \<not> is_http l2 then (AList.update k v result1, misses1, w2) else (result1, misses1 @ [k], w2)
    | None \<Rightarrow> (result1, misses1 @ [k], w2))"
  proof -
    have "(result, misses, w') = cm_scan_step l2 s k (result1, misses1, w1)"
      using snoc.prems(2) f by simp
    with g show ?thesis by (simp add: cm_scan_step_def split: option.splits)
  qed
  show ?case
  proof (cases "\<exists>v n. h = Some (v, n) \<and> \<not> is_http l2")
    case True
    then obtain v n where h: "h = Some (v, n)" "\<not> is_http l2" by blast
    have "stored_value w1 s k = Some v"
      using agreeD [OF cohD(3) [OF conjunct1 [OF IH]] assms(2) k] l1(4) [OF h(1)] by simp
    with IH have v: "stored_value w s k = Some v" by simp
    from eq h have e: "result = AList.update k v result1" "misses = misses1" "w' = w2" by simp_all
    show ?thesis using IH l1(1,2) v by (auto simp: e jmap_simps)
  next
    case False
    with eq have e: "result = result1" "misses = misses1 @ [k]" "w' = w2" by (auto split: option.splits)
    show ?thesis using IH l1(1,2) by (auto simp: e)
  qed
qed

lemma fill_ok:
  assumes "coh {} {} w" and "lsid s" and "\<forall>(k, r) \<in> set records. stored_value w s k = Some (sr_value r)"
    and "fold (cm_fill_step l2 s) records (result, w) = (result', w')"
  shows "coh {} {} w' \<and> w_db w' = w_db w \<and>
    map_of result' = map_of result ++ (\<lambda>k. if k \<in> fst ` set records then stored_value w s k else None) \<and>
    (distinct (keys_of result) \<longrightarrow> distinct (keys_of result'))"
  using assms
proof (induction records arbitrary: result w)
  case Nil
  then show ?case by (simp add: map_add_def)
next
  case (Cons kr records)
  obtain k r where kr: "kr = (k, r)" by fastforce
  let ?w1 = "l1_set (cacheKey s k) (sr_value r) (sr_version r) w"
  let ?w2 = "safeL2Set l2 (cacheKey s k) (sr_value r) (sr_version r) ?w1"
  have v: "stored_value w s k = Some (sr_value r)" using Cons.prems(3) kr by auto
  have c1: "coh {} {} ?w1" by (rule l1_set_coh0 [OF Cons.prems(1,2) v])
  have c2: "coh {} {} ?w2" by (rule safeL2Set_coh(1) [OF c1 Cons.prems(2)]) (use v in simp)
  have "coh {} {} w' \<and> w_db w' = w_db ?w2 \<and>
    map_of result' = map_of (AList.update k (sr_value r) result) ++
      (\<lambda>k. if k \<in> fst ` set records then stored_value ?w2 s k else None) \<and>
    (distinct (keys_of (AList.update k (sr_value r) result)) \<longrightarrow> distinct (keys_of result'))"
    by (rule Cons.IH [OF c2 Cons.prems(2)]) (use Cons.prems(3,4) kr in \<open>auto simp: cm_fill_step_def\<close>)
  with v kr show ?case
    by (auto simp: jmap_simps map_add_def fun_eq_iff split: option.splits)
qed

lemma getMany_reads:
  assumes "coh {} {} w" and "lsid s" and "\<forall>k \<in> set ks. lkey k"
  shows "reads_ok (cm_getMany A l2 s ks) w
    (\<lambda>m. distinct (keys_of m) \<and> map_of m = (\<lambda>k. if k \<in> set ks then stored_value w s k else None))"
proof -
  obtain result misses w1 where f: "fold (cm_scan_step l2 s) ks ([], [], w) = (result, misses, w1)"
    by (metis prod_cases3)
  from scan_ok [OF assms f] have c1: "coh {} {} w1" and db1: "w_db w1 = w_db w" and d1: "distinct (keys_of result)"
    and res: "\<And>k v. map_of result k = Some v \<Longrightarrow> k \<in> set ks \<and> stored_value w s k = Some v"
    and mis: "set misses \<subseteq> set ks" and cover: "set ks \<subseteq> set misses \<union> dom (map_of result)" by auto
  have res0: "map_of result k = (if k \<in> set ks then stored_value w s k else None)" if "k \<notin> set misses" for k
    using that res [of k] cover by (cases "map_of result k") auto
  show ?thesis
  proof (cases "misses = []")
    case True
    then show ?thesis
      by (intro reads_ok_return [where x = result and ?w1.0 = w1])
        (use f c1 db1 d1 res0 in \<open>auto simp: cm_getMany_def\<close>)
  next
    case False
    obtain r1 d where g: "ad_getMany A s misses (w_db w1) = (r1, d)" by fastforce
    have legal: "\<forall>k \<in> set misses. lkey k" using mis assms(3) by blast
    note q = getMany_ok [OF cohD(1) [OF c1] assms(2) legal]
    note qd = query_okD [OF q g]
    have up: "up (w_db w) \<Longrightarrow> (\<exists>y. r1 = Inr y) \<and> up d" using query_ok_up [OF q] g db1 by auto
    let ?w2 = "w1\<lparr>w_db := d\<rparr>"
    have c2: "coh {} {} ?w2"
      using c1 qd(1,2) by (simp add: coherent_def l1_map_def [abs_def] l2_map_def [abs_def])
    show ?thesis
    proof (cases r1)
      case (Inl e)
      then show ?thesis
        using f False g c2 qd(2) db1 up by (auto simp: reads_ok_def cm_getMany_def bindA_def on_db_def)
    next
      case (Inr records)
      with qd(3) have rec: "map_of records = (\<lambda>k. if k \<in> set misses then view (w_db w1) s k else None)"
        and drec: "distinct (keys_of records)" by auto
      obtain result' w3 where ff: "fold (cm_fill_step l2 s) records (result, ?w2) = (result', w3)" by fastforce
      have vals: "\<forall>(k, r) \<in> set records. stored_value ?w2 s k = Some (sr_value r)"
      proof clarify
        fix k r
        assume "(k, r) \<in> set records"
        with drec have "map_of records k = Some r" by simp
        with rec have "view (w_db w1) s k = Some r" by (auto split: if_splits)
        with qd(2) show "stored_value ?w2 s k = Some (sr_value r)" by (simp add: value_at_def)
      qed
      note fill = fill_ok [OF c2 assms(2) vals ff]
      have dom: "fst ` set records = {k \<in> set misses. view (w_db w1) s k \<noteq> None}"
      proof -
        have "fst ` set records = dom (map_of records)" by (rule dom_map_of_conv_image_fst [symmetric])
        then show ?thesis by (auto simp: rec dom_def split: if_splits)
      qed
      have "map_of result' k = (if k \<in> set ks then stored_value w s k else None)" for k
      proof (cases "k \<in> set misses")
        case True
        then have "map_of result k = None \<or> map_of result k = stored_value w s k" using res [of k] by (cases "map_of result k") auto
        then show ?thesis
          using True mis fill qd(2) db1 by (cases "view (w_db w) s k") (auto simp: map_add_def dom value_at_def split: option.splits)
      next
        case no: False
        with dom have "k \<notin> fst ` set records" by auto
        with fill res0 [OF no] show ?thesis by (simp add: map_add_def)
      qed
      then show ?thesis
        using f False g Inr ff fill c2 qd(2) db1 up d1
        by (auto simp: reads_ok_def cm_getMany_def bindA_def on_db_def)
    qed
  qed
qed

end

context cache_stack begin

lemma get_returns:
  "coh {} {} w \<Longrightarrow> lsid s \<Longrightarrow> lkey k \<Longrightarrow> up (w_db w) \<Longrightarrow>
    \<exists>x w'. cm_get A l2 s k w = (Inr x, w') \<and> up (w_db w') \<and> coh {} {} w'"
  using get_reads [of w s k] by (cases "cm_get A l2 s k w") (auto simp: reads_ok_def)

end

section \<open>After writes\<close>

context cache_stack begin

abbreviation l2_works :: "('d, 'r) world \<Rightarrow> bool" where
  "l2_works w \<equiv> l2 = None \<or> rup (w_l2 w)"

text \<open>A step of the Redis client that only forgets entries.\<close>

lemma l2_catch_coh:
  assumes "coh X1 X2 w" and "l2v (snd (m (w_l2 w))) \<subseteq>\<^sub>m l2v (w_l2 w)"
  shows "coh X1 X2 (l2_catch msg m w)"
proof -
  have "l2_map l2v (l2_catch msg m w) \<subseteq>\<^sub>m l2_map l2v w" by (rule l2_map_le) (use assms(2) in simp)
  with assms(1) show ?thesis
    by (auto simp: coherent_def l1_map_cong [of "l2_catch msg m w" w] intro: agree_le)
qed

lemma publisher_some: "publisher l2 = Some p \<Longrightarrow> \<exists>R. l2 = Some R \<and> rc_publishInvalidation R = Some p"
  by (auto simp: publisher_def split: option.splits if_splits)

lemma publish_coh:
  assumes "coh X1 X2 w" and "publisher l2 = Some p"
  shows "coh X1 X2 (l2_catch msg (p ck) w)" and "rup (w_l2 w) \<Longrightarrow> rup (w_l2 (l2_catch msg (p ck) w))"
proof -
  from publisher_some [OF assms(2)] obtain R where R: "l2 = Some R" "rc_publishInvalidation R = Some p" by blast
  obtain r c where p: "p ck (w_l2 w) = (r, c)" by fastforce
  show "coh X1 X2 (l2_catch msg (p ck) w)"
    by (rule l2_catch_coh [OF assms(1)]) (use redis_store.rpublish [OF l2_store [OF R(1)] R(2) p] p in simp)
  show "rup (w_l2 (l2_catch msg (p ck) w))" if "rup (w_l2 w)"
    using redis_store.rpublish_up [OF l2_store [OF R(1)] R(2) that, of ck] by auto
qed

lemma onWritten_ok:
  assumes "coh X1 X2 w" and "lsid s" and "stored_value w s k = Some v"
  shows "coh (X1 - {(s, k)}) X2 (cm_onWritten l2 s k v n w)"
    and "w_db (cm_onWritten l2 s k v n w) = w_db w"
    and "l2_works w \<Longrightarrow> coh (X1 - {(s, k)}) (X2 - {(s, k)}) (cm_onWritten l2 s k v n w) \<and> l2_works (cm_onWritten l2 s k v n w)"
proof -
  let ?w1 = "l1_set (cacheKey s k) v n w"
  let ?w2 = "safeL2Set l2 (cacheKey s k) v n ?w1"
  have c1: "coh (X1 - {(s, k)}) X2 ?w1" by (rule l1_set_coh [OF assms])
  have v1: "stored_value ?w1 s k = Some v" using assms(3) by simp
  note c2 = safeL2Set_coh [OF c1 assms(2) v1, where n = n]
  show "w_db (cm_onWritten l2 s k v n w) = w_db w"
    by (simp add: cm_onWritten_def Let_def split: option.splits)
  show "coh (X1 - {(s, k)}) X2 (cm_onWritten l2 s k v n w)"
    using c2(1) publish_coh(1) [OF c2(1)] by (auto simp: cm_onWritten_def Let_def split: option.splits)
  show "coh (X1 - {(s, k)}) (X2 - {(s, k)}) (cm_onWritten l2 s k v n w) \<and> l2_works (cm_onWritten l2 s k v n w)"
    if works: "l2_works w"
  proof -
    have c: "coh (X1 - {(s, k)}) (X2 - {(s, k)}) ?w2" by (rule c2(2)) (use works in auto)
    have u: "l2_works ?w2" using works c2(3) by auto
    show ?thesis
    proof (cases "publisher l2")
      case None
      with c u show ?thesis by (simp add: cm_onWritten_def Let_def)
    next
      case (Some p)
      have "l2 \<noteq> None" using publisher_some [OF Some] by auto
      with u publish_coh [OF c Some] Some show ?thesis by (simp add: cm_onWritten_def Let_def)
    qed
  qed
qed

lemma onDeleted_ok:
  assumes "coh X1 X2 w" and "lsid s"
  shows "coh (X1 - {(s, k)}) X2 (cm_onDeleted l2 s k w)"
    and "w_db (cm_onDeleted l2 s k w) = w_db w"
    and "l2_works w \<Longrightarrow> coh (X1 - {(s, k)}) (X2 - {(s, k)}) (cm_onDeleted l2 s k w) \<and> l2_works (cm_onDeleted l2 s k w)"
proof -
  let ?ck = "cacheKey s k"
  let ?w1 = "l1_delete ?ck w"
  define w2 where "w2 = (case l2 of None \<Rightarrow> ?w1 | Some R \<Rightarrow> l2_catch None (rc_del R ?ck) ?w1)"
  have run: "cm_onDeleted l2 s k w = (case publisher l2 of None \<Rightarrow> w2 | Some p \<Rightarrow> l2_catch None (p ?ck) w2)"
    unfolding cm_onDeleted_def Let_def w2_def ..
  have c1: "coh (X1 - {(s, k)}) X2 ?w1" by (rule l1_delete_coh [OF assms])
  have c2: "coh (X1 - {(s, k)}) X2 w2"
  proof (cases l2)
    case None
    with c1 show ?thesis by (simp add: w2_def)
  next
    case (Some R)
    obtain r c where d: "rc_del R ?ck (w_l2 w) = (r, c)" by fastforce
    from redis_store.rdel [OF l2_store [OF Some] d] have "l2v c \<subseteq>\<^sub>m l2v (w_l2 w)"
      by (cases r) (auto intro: map_le_del)
    with l2_catch_coh [OF c1, of "rc_del R ?ck" None] d have "coh (X1 - {(s, k)}) X2 (l2_catch None (rc_del R ?ck) ?w1)" by simp
    then show ?thesis by (simp add: w2_def Some)
  qed
  have db2: "w_db w2 = w_db w" by (simp add: w2_def split: option.splits)
  show "w_db (cm_onDeleted l2 s k w) = w_db w"
    using db2 by (simp add: run split: option.splits)
  show "coh (X1 - {(s, k)}) X2 (cm_onDeleted l2 s k w)"
    using c2 publish_coh(1) [OF c2] by (auto simp: run split: option.splits)
  show "coh (X1 - {(s, k)}) (X2 - {(s, k)}) (cm_onDeleted l2 s k w) \<and> l2_works (cm_onDeleted l2 s k w)"
    if works: "l2_works w"
  proof -
    have c: "coh (X1 - {(s, k)}) (X2 - {(s, k)}) w2 \<and> l2_works w2"
    proof (cases l2)
      case None
      with c2 show ?thesis by (auto simp: coherent_def)
    next
      case (Some R)
      with works have up: "rup (w_l2 w)" by simp
      from redis_store.rdel_up [OF l2_store [OF Some] up] obtain c where
        d: "rc_del R ?ck (w_l2 w) = (Inr (), c)" and uc: "rup c" by blast
      have w2: "w_l2 w2 = c" using d by (simp add: w2_def Some)
      from redis_store.rdel [OF l2_store [OF Some] d] have "l2v c \<subseteq>\<^sub>m (l2v (w_l2 w))(?ck := None)" by simp
      then have "l2_map l2v w2 \<subseteq>\<^sub>m (l2_map l2v w)(?ck := None)"
        unfolding w2 [symmetric] by (fastforce simp: l2_map_def map_le_def dom_def split: if_splits)
      from agree_del [OF cohD(4) [OF assms(1) Some] no_colon assms(2) this]
      have "agr (X2 - {(s, k)}) (l2_map l2v w2) (stored_value w2)" using db2 by simp
      with c2 uc w2 show ?thesis by (simp add: coherent_def)
    qed
    show ?thesis
    proof (cases "publisher l2")
      case None
      with c show ?thesis by (simp add: run)
    next
      case (Some p)
      have "l2 \<noteq> None" using publisher_some [OF Some] by auto
      with c publish_coh [OF conjunct1 [OF c] Some] Some show ?thesis by (simp add: run)
    qed
  qed
qed

end

section \<open>Database calls, seen from the caches\<close>

context cache_stack begin

text \<open>A query leaves the caches as coherent as they were.\<close>

lemma on_db_query:
  assumes "coh X1 X2 w" and "query_ok view ivr up m (w_db w) P" and "on_db m w = (r, w')"
  shows "coh X1 X2 w'" and "view (w_db w') = view (w_db w)" and "w' = w\<lparr>w_db := w_db w'\<rparr>"
    and "r = Inr x \<Longrightarrow> P x" and "up (w_db w) \<Longrightarrow> (\<exists>x. r = Inr x) \<and> up (w_db w')"
proof -
  obtain d where m: "m (w_db w) = (r, d)" and w': "w' = w\<lparr>w_db := d\<rparr>"
    using assms(3) by (auto simp: on_db_def split: prod.splits)
  note q = query_okD [OF assms(2) m]
  show "coh X1 X2 w'" using assms(1) q(1,2) w' by (simp add: coherent_def l1_map_def [abs_def] l2_map_def [abs_def])
  show "view (w_db w') = view (w_db w)" and "w' = w\<lparr>w_db := w_db w'\<rparr>" using q(2) w' by simp_all
  show "r = Inr x \<Longrightarrow> P x" by (rule q(3))
  show "up (w_db w) \<Longrightarrow> (\<exists>x. r = Inr x) \<and> up (w_db w')"
    using query_ok_up [OF assms(2)] m w' by auto
qed

text \<open>After a write, returned or thrown, the caches may be outdated where it wrote.\<close>

lemma on_db_update:
  assumes "coh X1 X2 w" and "update_ok view ivr up can m (w_db w) Q" and "on_db m w = (r, w')"
    and "\<And>v' s k. Q v' \<Longrightarrow> (s, k) \<notin> K \<Longrightarrow> value_at v' s k = stored_value w s k"
  shows "coh (X1 \<union> K) (X2 \<union> K) w'" and "w' = w\<lparr>w_db := w_db w'\<rparr>"
    and "r = Inr x \<Longrightarrow> Q (view (w_db w'))" and "view (w_db w') = view (w_db w) \<or> Q (view (w_db w'))"
    and "up (w_db w) \<Longrightarrow> can \<Longrightarrow> (\<exists>x. r = Inr x) \<and> up (w_db w')"
proof -
  obtain d where m: "m (w_db w) = (r, d)" and w': "w' = w\<lparr>w_db := d\<rparr>"
    using assms(3) by (auto simp: on_db_def split: prod.splits)
  note u = update_okD [OF assms(2) m]
  show v: "view (w_db w') = view (w_db w) \<or> Q (view (w_db w'))" using u(2,3) w' by (cases r) auto
  have same: "stored_value w' s k = stored_value w s k" if "(s, k) \<notin> K" for s k
    using v assms(4) [OF _ that] by auto
  have grow: "agr (X \<union> K) c (stored_value w')" if "agr X c (stored_value w)" for X c
    using that same by (auto simp: agree_def)
  show "coh (X1 \<union> K) (X2 \<union> K) w'"
  proof (rule cohI)
    show "agr (X1 \<union> K) (l1_map w') (stored_value w')"
      using grow [OF cohD(3) [OF assms(1)]] w' by (simp add: l1_map_def [abs_def])
    show "agr (X2 \<union> K) (l2_map l2v w') (stored_value w')" if "l2 \<noteq> None"
      using grow cohD(4) [OF assms(1)] that w' by (auto simp: l2_map_def [abs_def])
  qed (use cohD(2) [OF assms(1)] u(1) w' in simp_all)
  show "w' = w\<lparr>w_db := w_db w'\<rparr>" using w' by simp
  show "r = Inr x \<Longrightarrow> Q (view (w_db w'))" using u(2) w' by simp
  show "up (w_db w) \<Longrightarrow> can \<Longrightarrow> (\<exists>x. r = Inr x) \<and> up (w_db w')"
    using update_ok_up [OF assms(2)] m w' by auto
qed

lemma removed_elsewhere:
  "removed s ks v v' \<Longrightarrow> (s', k) \<notin> Pair s ` set ks \<Longrightarrow> value_at v' s' k = value_at v s' k"
  by (auto simp: removed_def value_at_def)

lemma upserted_elsewhere:
  "upserted s es now v v' \<Longrightarrow> (s', k) \<notin> Pair s ` fst ` set es \<Longrightarrow> value_at v' s' k = value_at v s' k"
  using upserted_value_at [of s es now v v' s' k] by (auto simp: image_iff)

lemma wiped_elsewhere: "wiped s v v' \<Longrightarrow> (s', k) \<notin> {s} \<times> UNIV \<Longrightarrow> value_at v' s' k = value_at v s' k"
  by (auto simp: wiped_def value_at_def)

lemma on_db_deleteMany:
  assumes "coh X1 X2 w" and "lsid s" and "\<forall>k \<in> set ks. lkey k" and "on_db (ad_deleteMany A s ks) w = (r, w')"
  shows "coh (X1 \<union> Pair s ` set ks) (X2 \<union> Pair s ` set ks) w'" and "w' = w\<lparr>w_db := w_db w'\<rparr>"
    and "r = Inr x \<Longrightarrow> removed s ks (view (w_db w)) (view (w_db w'))"
    and "view (w_db w') = view (w_db w) \<or> removed s ks (view (w_db w)) (view (w_db w'))"
    and "up (w_db w) \<Longrightarrow> (\<exists>x. r = Inr x) \<and> up (w_db w')"
proof -
  note u = on_db_update [OF assms(1) deleteMany_ok [OF cohD(1) [OF assms(1)] assms(2,3)] assms(4),
      where K = "Pair s ` set ks"]
  show "coh (X1 \<union> Pair s ` set ks) (X2 \<union> Pair s ` set ks) w'" by (rule u(1)) (rule removed_elsewhere)
  show "w' = w\<lparr>w_db := w_db w'\<rparr>" by (rule u(2)) (rule removed_elsewhere)
  show "r = Inr x \<Longrightarrow> removed s ks (view (w_db w)) (view (w_db w'))" by (rule u(3)) (rule removed_elsewhere)
  show "view (w_db w') = view (w_db w) \<or> removed s ks (view (w_db w)) (view (w_db w'))" by (rule u(4)) (rule removed_elsewhere)
  show "up (w_db w) \<Longrightarrow> (\<exists>x. r = Inr x) \<and> up (w_db w')" by (rule u(5) [OF removed_elsewhere]) simp_all
qed

lemma on_db_setMany:
  assumes "coh X1 X2 w" and "lsid s" and "\<forall>e \<in> set es. lkey (fst e)" and "on_db (ad_setMany A s es now) w = (r, w')"
  shows "coh (X1 \<union> Pair s ` fst ` set es) (X2 \<union> Pair s ` fst ` set es) w'" and "w' = w\<lparr>w_db := w_db w'\<rparr>"
    and "r = Inr x \<Longrightarrow> upserted s es now (view (w_db w)) (view (w_db w'))"
    and "view (w_db w') = view (w_db w) \<or> upserted s es now (view (w_db w)) (view (w_db w'))"
    and "up (w_db w) \<Longrightarrow> distinct (keys_of es) \<Longrightarrow> (\<exists>x. r = Inr x) \<and> up (w_db w')"
proof -
  note u = on_db_update [OF assms(1) setMany_ok [OF cohD(1) [OF assms(1)] assms(2,3)] assms(4),
      where K = "Pair s ` fst ` set es"]
  show "coh (X1 \<union> Pair s ` fst ` set es) (X2 \<union> Pair s ` fst ` set es) w'" by (rule u(1)) (rule upserted_elsewhere)
  show "w' = w\<lparr>w_db := w_db w'\<rparr>" by (rule u(2)) (rule upserted_elsewhere)
  show "r = Inr x \<Longrightarrow> upserted s es now (view (w_db w)) (view (w_db w'))" by (rule u(3)) (rule upserted_elsewhere)
  show "view (w_db w') = view (w_db w) \<or> upserted s es now (view (w_db w)) (view (w_db w'))"
    by (rule u(4)) (rule upserted_elsewhere)
  show "up (w_db w) \<Longrightarrow> distinct (keys_of es) \<Longrightarrow> (\<exists>x. r = Inr x) \<and> up (w_db w')"
    by (rule u(5) [OF upserted_elsewhere]) simp_all
qed

lemma on_db_deleteSession:
  assumes "coh X1 X2 w" and "lsid s" and "on_db (ad_deleteSession A s) w = (r, w')"
  shows "coh (X1 \<union> {s} \<times> UNIV) (X2 \<union> {s} \<times> UNIV) w'" and "w' = w\<lparr>w_db := w_db w'\<rparr>"
    and "r = Inr x \<Longrightarrow> wiped s (view (w_db w)) (view (w_db w'))"
    and "view (w_db w') = view (w_db w) \<or> wiped s (view (w_db w)) (view (w_db w'))"
    and "up (w_db w) \<Longrightarrow> (\<exists>x. r = Inr x) \<and> up (w_db w')"
proof -
  note u = on_db_update [OF assms(1) deleteSession_ok [OF cohD(1) [OF assms(1)] assms(2)] assms(3), where K = "{s} \<times> UNIV"]
  show "coh (X1 \<union> {s} \<times> UNIV) (X2 \<union> {s} \<times> UNIV) w'" by (rule u(1)) (rule wiped_elsewhere)
  show "w' = w\<lparr>w_db := w_db w'\<rparr>" by (rule u(2)) (rule wiped_elsewhere)
  show "r = Inr x \<Longrightarrow> wiped s (view (w_db w)) (view (w_db w'))" by (rule u(3)) (rule wiped_elsewhere)
  show "view (w_db w') = view (w_db w) \<or> wiped s (view (w_db w)) (view (w_db w'))" by (rule u(4)) (rule wiped_elsewhere)
  show "up (w_db w) \<Longrightarrow> (\<exists>x. r = Inr x) \<and> up (w_db w')" by (rule u(5) [OF wiped_elsewhere]) simp_all
qed

end

section \<open>Whole batches, and the operations that only drop entries\<close>

text \<open>\<open>Promise.all(entries.map(entry => cache.onWritten(\<dots>)))\<close> and its counterpart for deletions, in
  the order of the list. (The calls overlap in the program; each works on its own key, and the
  parts that run before the first \<open>await\<close> run in list order.)\<close>

definition cm_allWritten ::
  "'r redis_cache option \<Rightarrow> string \<Rightarrow> (string \<times> jstr) list \<Rightarrow> ('d, 'r) world \<Rightarrow> ('d, 'r) world" where
  "cm_allWritten l2 sessionId entries w =
     fold (\<lambda>(key, value) w. cm_onWritten l2 sessionId key value (w_now w) w) entries w"

definition cm_allDeleted :: "'r redis_cache option \<Rightarrow> string \<Rightarrow> string list \<Rightarrow> ('d, 'r) world \<Rightarrow> ('d, 'r) world" where
  "cm_allDeleted l2 sessionId keys w = fold (cm_onDeleted l2 sessionId) keys w"

context cache_stack begin

lemma allWritten_ok:
  assumes "coh X1 X2 w" and "lsid s" and "\<forall>(k, v) \<in> set es. stored_value w s k = Some v"
  shows "coh (X1 - Pair s ` fst ` set es) X2 (cm_allWritten l2 s es w) \<and> w_db (cm_allWritten l2 s es w) = w_db w \<and>
    (l2_works w \<longrightarrow> coh (X1 - Pair s ` fst ` set es) (X2 - Pair s ` fst ` set es) (cm_allWritten l2 s es w) \<and>
      l2_works (cm_allWritten l2 s es w))"
  using assms(1,3)
proof (induction es arbitrary: w X1 X2)
  case Nil
  then show ?case by (simp add: cm_allWritten_def)
next
  case (Cons e es)
  obtain k v where e: "e = (k, v)" by fastforce
  let ?w = "cm_onWritten l2 s k v (w_now w) w"
  have v: "stored_value w s k = Some v" using Cons.prems(2) e by auto
  note on = onWritten_ok [OF Cons.prems(1) assms(2) v, where n = "w_now w"]
  have vals: "\<forall>(k, v) \<in> set es. stored_value ?w s k = Some v" using Cons.prems(2) on(2) by auto
  have eq: "cm_allWritten l2 s (e # es) w = cm_allWritten l2 s es ?w" by (simp add: cm_allWritten_def e)
  have sets: "X - {(s, k)} - Pair s ` fst ` set es = X - Pair s ` fst ` set (e # es)" for X
    by (auto simp: e)
  from Cons.IH [OF on(1) vals] on(2)
  have "coh (X1 - Pair s ` fst ` set (e # es)) X2 (cm_allWritten l2 s (e # es) w) \<and> w_db (cm_allWritten l2 s (e # es) w) = w_db w"
    unfolding eq sets by simp
  moreover have "coh (X1 - Pair s ` fst ` set (e # es)) (X2 - Pair s ` fst ` set (e # es)) (cm_allWritten l2 s (e # es) w) \<and>
      l2_works (cm_allWritten l2 s (e # es) w)"
    if works: "l2_works w"
  proof -
    from on(3) [OF works] have c: "coh (X1 - {(s, k)}) (X2 - {(s, k)}) ?w" and wk: "l2_works ?w" by auto
    from Cons.IH [OF c vals] wk show ?thesis unfolding eq sets by blast
  qed
  ultimately show ?case by blast
qed

lemma allDeleted_ok:
  assumes "coh X1 X2 w" and "lsid s"
  shows "coh (X1 - Pair s ` set ks) X2 (cm_allDeleted l2 s ks w) \<and> w_db (cm_allDeleted l2 s ks w) = w_db w \<and>
    (l2_works w \<longrightarrow> coh (X1 - Pair s ` set ks) (X2 - Pair s ` set ks) (cm_allDeleted l2 s ks w) \<and>
      l2_works (cm_allDeleted l2 s ks w))"
  using assms(1)
proof (induction ks arbitrary: w X1 X2)
  case Nil
  then show ?case by (simp add: cm_allDeleted_def)
next
  case (Cons k ks)
  let ?w = "cm_onDeleted l2 s k w"
  note on = onDeleted_ok [OF Cons.prems assms(2), of k]
  have eq: "cm_allDeleted l2 s (k # ks) w = cm_allDeleted l2 s ks ?w" by (simp add: cm_allDeleted_def)
  have sets: "X - {(s, k)} - Pair s ` set ks = X - Pair s ` set (k # ks)" for X by auto
  from Cons.IH [OF on(1)] on(2)
  have "coh (X1 - Pair s ` set (k # ks)) X2 (cm_allDeleted l2 s (k # ks) w) \<and> w_db (cm_allDeleted l2 s (k # ks) w) = w_db w"
    unfolding eq sets by simp
  moreover have "coh (X1 - Pair s ` set (k # ks)) (X2 - Pair s ` set (k # ks)) (cm_allDeleted l2 s (k # ks) w) \<and>
      l2_works (cm_allDeleted l2 s (k # ks) w)"
    if works: "l2_works w"
  proof -
    from on(3) [OF works] have c: "coh (X1 - {(s, k)}) (X2 - {(s, k)}) ?w" and wk: "l2_works ?w" by auto
    from Cons.IH [OF c] wk show ?thesis unfolding eq sets by blast
  qed
  ultimately show ?case by blast
qed

lemma mc_prefix_map:
  "map_of (mc_store (mc_deleteByPrefix p c)) k = (if startsWith k p then None else map_of (mc_store c) k)"
  using map_of_filter_key [of "\<lambda>k. \<not> startsWith k p" "mc_store c" k] by (simp add: mc_store_prefix)

text \<open>An operation that only drops L1 entries.\<close>

lemma shrink_coh:
  assumes "coh X1 X2 w" and "map_of (mc_store c) \<subseteq>\<^sub>m map_of (mc_store (w_l1 w))" and "mc_wf c"
  shows "coh X1 X2 (w\<lparr>w_l1 := c\<rparr>)"
proof (rule cohI)
  have "l1_map (w\<lparr>w_l1 := c\<rparr>) \<subseteq>\<^sub>m l1_map w"
    using option_map_le [OF assms(2), of ce_value] by (simp add: l1_map_def [abs_def])
  from agree_le [OF cohD(3) [OF assms(1)] this]
  show "agr X1 (l1_map (w\<lparr>w_l1 := c\<rparr>)) (stored_value (w\<lparr>w_l1 := c\<rparr>))" by simp
  show "agr X2 (l2_map l2v (w\<lparr>w_l1 := c\<rparr>)) (stored_value (w\<lparr>w_l1 := c\<rparr>))" if "l2 \<noteq> None"
    using cohD(4) [OF assms(1)] that by (auto simp: l2_map_def [abs_def])
qed (use cohD [OF assms(1)] assms(3) in simp_all)

lemma clearSession_coh: "coh X1 X2 w \<Longrightarrow> coh X1 X2 (cm_clearSession s w)"
  unfolding cm_clearSession_def
  by (rule shrink_coh) (auto simp: mc_prefix_map map_le_def dom_def mc_wf_deleteByPrefix cohD(2) split: if_splits)

lemma clearAll_coh: "coh X1 X2 w \<Longrightarrow> coh X1 X2 (cm_clearAll w)"
  unfolding cm_clearAll_def by (rule shrink_coh) (auto simp: mc_clear_def mc_wf_clear [unfolded mc_clear_def])

lemma on_invalidation_coh: "coh X1 X2 w \<Longrightarrow> lsid s \<Longrightarrow> coh (X1 - {(s, k)}) X2 (cm_on_invalidation (cacheKey s k) w)"
  unfolding cm_on_invalidation_def by (rule l1_delete_coh)

text \<open>Clearing a session drops every L1 entry of it.\<close>

lemma clearSession_map: "lsid s \<Longrightarrow> l1_map (cm_clearSession s w) (cacheKey s k) = None"
  by (simp add: l1_map_def cm_clearSession_def mc_prefix_map cacheKey_def startsWith_iff)

lemma clearSession_other:
  "lsid s \<Longrightarrow> lsid s' \<Longrightarrow> s' \<noteq> s \<Longrightarrow> l1_map (cm_clearSession s w) (cacheKey s' k) = l1_map w (cacheKey s' k)"
proof -
  assume l: "lsid s" "lsid s'" "s' \<noteq> s"
  have "\<not> startsWith (cacheKey s' k) (s @ '':'')"
  proof
    assume "startsWith (cacheKey s' k) (s @ '':'')"
    then obtain t where "cacheKey s' k = cacheKey s t" by (auto simp: startsWith_iff cacheKey_def)
    with cacheKey_inject [OF no_colon [OF l(2)] no_colon [OF l(1)]] l(3) show False by simp
  qed
  then show ?thesis by (simp add: l1_map_def cm_clearSession_def mc_prefix_map)
qed

end

end
