(* ===== verification/Retry.thy ===== *)
theory Retry
  imports Types
begin

text \<open>
  \<^verbatim>\<open>src/utils/retry.ts\<close>: \<open>withRetry\<close>, the loop every adapter wraps its driver calls in.
  \<open>retry_loop\<close> is the loop from a given attempt on, with the error caught last; it also returns
  the warnings it logs, one per retry, each with the delay slept before that retry. The loop
  ends because the attempts left shrink. \<open>with_retry\<close> is the value the caller awaits.
\<close>

definition DEFAULT_RETRIES :: int where "DEFAULT_RETRIES = 3"
definition DEFAULT_MIN_DELAY_MS :: int where "DEFAULT_MIN_DELAY_MS = 200"
definition DEFAULT_MAX_DELAY_MS :: int where "DEFAULT_MAX_DELAY_MS = 5000"

record retry_cfg =
  rt_retries :: int
  rt_minDelayMs :: int
  rt_maxDelayMs :: int

text \<open>\<open>options?.field ?? DEFAULT\<close>\<close>

definition opt_field :: "'o option \<Rightarrow> ('o \<Rightarrow> 'v option) \<Rightarrow> 'v \<Rightarrow> 'v" where
  "opt_field opts f d = (case opts of None \<Rightarrow> d | Some r \<Rightarrow> (case f r of None \<Rightarrow> d | Some x \<Rightarrow> x))"

definition resolve_retry :: "retry_options option \<Rightarrow> retry_cfg" where
  "resolve_retry opts =
     \<lparr>rt_retries = opt_field opts ro_retries DEFAULT_RETRIES,
      rt_minDelayMs = opt_field opts ro_minDelayMs DEFAULT_MIN_DELAY_MS,
      rt_maxDelayMs = opt_field opts ro_maxDelayMs DEFAULT_MAX_DELAY_MS\<rparr>"

record retry_warning =
  rw_label :: string
  rw_delay :: int
  rw_attemptsLeft :: int
  rw_error :: error

definition backoff :: "retry_cfg \<Rightarrow> int \<Rightarrow> int" where
  "backoff cfg attempt = min (rt_minDelayMs cfg * 2 ^ nat attempt) (rt_maxDelayMs cfg)"

function retry_loop ::
  "retry_cfg \<Rightarrow> string \<Rightarrow> ('s, 'a) io \<Rightarrow> int \<Rightarrow> error \<Rightarrow> 's \<Rightarrow> ((error + 'a) \<times> 's) \<times> retry_warning list"
where
  "retry_loop cfg label fn attempt lastError s =
     (if attempt \<le> rt_retries cfg then
        (case fn s of
           (Inr x, s') \<Rightarrow> ((Inr x, s'), [])
         | (Inl e, s') \<Rightarrow>
             (let attemptsLeft = rt_retries cfg - attempt in
              if attemptsLeft \<le> 0 then ((Inl e, s'), [])
              else
                (let w = \<lparr>rw_label = label, rw_delay = backoff cfg attempt,
                          rw_attemptsLeft = attemptsLeft, rw_error = e\<rparr>;
                     (res, ws) = retry_loop cfg label fn (attempt + 1) e s'
                 in (res, w # ws))))
      else ((Inl lastError, s), []))"
  by pat_completeness auto
termination
  by (relation "measure (\<lambda>(cfg, _, _, attempt, _, _). nat (rt_retries cfg + 1 - attempt))") auto

declare retry_loop.simps [simp del]

definition with_retry_log ::
  "retry_options option \<Rightarrow> string \<Rightarrow> ('s, 'a) io \<Rightarrow> 's \<Rightarrow> ((error + 'a) \<times> 's) \<times> retry_warning list" where
  "with_retry_log opts label fn s = retry_loop (resolve_retry opts) label fn 0 UndefinedThrown s"

definition with_retry :: "retry_options option \<Rightarrow> string \<Rightarrow> ('s, 'a) io \<Rightarrow> ('s, 'a) io" where
  "with_retry opts label fn s = fst (with_retry_log opts label fn s)"

definition may_retry :: "retry_options option \<Rightarrow> bool" where
  "may_retry opts \<longleftrightarrow> 0 \<le> rt_retries (resolve_retry opts)"

section \<open>Reasoning rules\<close>

lemma retry_loop_returns:
  "fn s = (Inr x, s') \<Longrightarrow> attempt \<le> rt_retries cfg \<Longrightarrow>
    retry_loop cfg label fn attempt e0 s = ((Inr x, s'), [])"
  by (simp add: retry_loop.simps)

lemma retry_loop_last:
  "fn s = (Inl e, s') \<Longrightarrow> attempt = rt_retries cfg \<Longrightarrow>
    retry_loop cfg label fn attempt e0 s = ((Inl e, s'), [])"
  by (simp add: retry_loop.simps)

lemma retry_loop_again:
  "fn s = (Inl e, s') \<Longrightarrow> attempt < rt_retries cfg \<Longrightarrow>
    retry_loop cfg label fn attempt e0 s =
      (let (res, ws) = retry_loop cfg label fn (attempt + 1) e s'
       in (res, \<lparr>rw_label = label, rw_delay = backoff cfg attempt,
                 rw_attemptsLeft = rt_retries cfg - attempt, rw_error = e\<rparr> # ws))"
  by (simp add: retry_loop.simps [of cfg label fn attempt])

lemma retry_loop_never:
  "rt_retries cfg < attempt \<Longrightarrow> retry_loop cfg label fn attempt e0 s = ((Inl e0, s), [])"
  by (simp add: retry_loop.simps)

lemmas retry_loop_cases = retry_loop_returns retry_loop_last retry_loop_again retry_loop_never

text \<open>Whatever a throwing attempt keeps, the loop keeps, and a returning attempt delivers.\<close>

lemma retry_loop_rule:
  assumes step: "\<And>s r s'. I s \<Longrightarrow> fn s = (r, s') \<Longrightarrow> (case r of Inl e \<Rightarrow> I s' | Inr x \<Rightarrow> Q x s')"
    and "I s" and "retry_loop cfg label fn attempt e0 s = ((r, s'), ws)"
  shows "case r of Inl e \<Rightarrow> I s' | Inr x \<Rightarrow> Q x s'"
  using assms(2,3)
proof (induction "nat (rt_retries cfg + 1 - attempt)" arbitrary: attempt e0 s ws rule: less_induct)
  case less
  obtain r1 s1 where fn: "fn s = (r1, s1)" by fastforce
  note first = step [OF less.prems(1) fn]
  show ?case
  proof (cases "rt_retries cfg < attempt")
    case True
    with less.prems show ?thesis by (auto simp: retry_loop_never)
  next
    case False
    show ?thesis
    proof (cases r1)
      case (Inr x)
      with fn first False less.prems(2) show ?thesis by (auto simp: retry_loop_returns)
    next
      case (Inl e)
      show ?thesis
      proof (cases "attempt = rt_retries cfg")
        case True
        with fn Inl first less.prems(2) show ?thesis by (auto simp: retry_loop_last)
      next
        case neq: False
        with False have lt: "attempt < rt_retries cfg" by simp
        obtain ws' where "retry_loop cfg label fn (attempt + 1) e s1 = ((r, s'), ws')"
          using less.prems(2) retry_loop_again [of fn s e s1 attempt cfg label e0] fn Inl lt
          by (auto simp: Let_def split: prod.splits)
        with less.hyps [of "attempt + 1" s1 e ws'] lt first Inl show ?thesis by simp
      qed
    qed
  qed
qed

lemma with_retry_rule:
  assumes "\<And>s r s'. I s \<Longrightarrow> fn s = (r, s') \<Longrightarrow> (case r of Inl e \<Rightarrow> I s' | Inr x \<Rightarrow> Q x s')"
    and "I s" and "with_retry opts label fn s = (r, s')"
  shows "case r of Inl e \<Rightarrow> I s' | Inr x \<Rightarrow> Q x s'"
  using retry_loop_rule [of I fn Q s "resolve_retry opts" label 0 UndefinedThrown r s'] assms
  by (metis prod.collapse with_retry_def with_retry_log_def)

lemma with_retry_returns:
  "fn s = (Inr x, s') \<Longrightarrow> may_retry opts \<Longrightarrow> with_retry opts label fn s = (Inr x, s')"
  by (simp add: with_retry_def with_retry_log_def may_retry_def retry_loop_returns)

text \<open>The contracts of the interfaces survive the retry wrapper.\<close>

lemma query_ok_retry:
  assumes "\<And>d. ivr d \<Longrightarrow> view d = v \<Longrightarrow> query_ok view ivr up m d P"
    and "ivr d" and "view d = v" and "may_retry opts"
  shows "query_ok view ivr up (with_retry opts label m) d P"
proof (rule query_okI)
  fix r d'
  assume run: "with_retry opts label m d = (r, d')"
  have "case r of Inl e \<Rightarrow> ivr d' \<and> view d' = v | Inr x \<Rightarrow> ivr d' \<and> view d' = v \<and> P x"
  proof (rule with_retry_rule [OF _ _ run])
    fix s r s'
    assume I: "ivr s \<and> view s = v" and m: "m s = (r, s')"
    then have q: "query_ok view ivr up m s P" using assms(1) by blast
    from query_okD [OF q m] I
    show "case r of Inl e \<Rightarrow> ivr s' \<and> view s' = v | Inr x \<Rightarrow> ivr s' \<and> view s' = v \<and> P x"
      by (simp split: sum.splits)
  qed (use assms in simp)
  then show "ivr d' \<and> view d' = view d \<and> (\<forall>x. r = Inr x \<longrightarrow> P x)"
    using assms(3) by (cases r) auto
next
  assume "up d"
  with assms(1) [OF assms(2,3)] show "\<exists>x d'. with_retry opts label m d = (Inr x, d') \<and> up d'"
    using assms(4) by (meson query_ok_up with_retry_returns)
qed

lemma update_ok_retry:
  assumes "\<And>d. ivr d \<Longrightarrow> view d = v \<or> Q (view d) \<Longrightarrow> update_ok view ivr up can m d (Q' (view d))"
    and "\<And>u. Q' v u \<Longrightarrow> Q u" and "\<And>u w. Q u \<Longrightarrow> Q' u w \<Longrightarrow> Q w"
    and "ivr d" and "view d = v" and "may_retry opts"
  shows "update_ok view ivr up can (with_retry opts label m) d Q"
  unfolding update_ok_def
proof (intro conjI allI impI)
  fix r d'
  assume run: "with_retry opts label m d = (r, d')"
  have "case r of Inl e \<Rightarrow> ivr d' \<and> (view d' = v \<or> Q (view d')) | Inr x \<Rightarrow> ivr d' \<and> Q (view d')"
  proof (rule with_retry_rule [OF _ _ run])
    fix s r s'
    assume I: "ivr s \<and> (view s = v \<or> Q (view s))" and m: "m s = (r, s')"
    then have u: "update_ok view ivr up can m s (Q' (view s))" using assms(1) by blast
    have "Q' (view s) (view s') \<Longrightarrow> Q (view s')" using I assms(2,3) by metis
    with update_okD [OF u m] I
    show "case r of Inl e \<Rightarrow> ivr s' \<and> (view s' = v \<or> Q (view s')) | Inr x \<Rightarrow> ivr s' \<and> Q (view s')"
      by (auto split: sum.splits)
  qed (use assms in auto)
  then show "ivr d'" and "case r of Inl e \<Rightarrow> view d' = view d \<or> Q (view d') | Inr _ \<Rightarrow> Q (view d')"
    using assms(5) by (auto split: sum.splits)
next
  assume "up d \<and> can"
  with assms(1) [OF assms(4)] assms(5) obtain x d' where "m d = (Inr x, d') \<and> up d'"
    by (metis update_ok_up)
  then show "\<exists>x d'. with_retry opts label m d = (Inr x, d') \<and> up d'"
    using assms(6) by (meson with_retry_returns)
qed

text \<open>A conversion of the result commutes with the loop.\<close>

lemma retry_loop_map:
  "retry_loop cfg label (bindA m (\<lambda>x. ret (f x))) attempt e0 s =
    (case retry_loop cfg label m attempt e0 s of ((r, s'), ws) \<Rightarrow> ((map_sum (\<lambda>e. e) f r, s'), ws))"
proof (induction "nat (rt_retries cfg + 1 - attempt)" arbitrary: attempt e0 s rule: less_induct)
  case less
  obtain r1 s1 where m: "m s = (r1, s1)" by fastforce
  show ?case
  proof (cases "rt_retries cfg < attempt")
    case True
    then show ?thesis by (simp add: retry_loop_never)
  next
    case False
    show ?thesis
    proof (cases r1)
      case (Inr x)
      with m False show ?thesis by (simp add: retry_loop_returns bindA_def)
    next
      case (Inl e)
      with m have b: "bindA m (\<lambda>x. ret (f x)) s = (Inl e, s1)" by (simp add: bindA_def)
      show ?thesis
      proof (cases "attempt = rt_retries cfg")
        case True
        with m Inl b show ?thesis by (simp add: retry_loop_last)
      next
        case neq: False
        with False have lt: "attempt < rt_retries cfg" by simp
        with less.hyps [of "attempt + 1" e s1]
        show ?thesis
          using retry_loop_again [of m s e s1 attempt cfg label e0, OF m [unfolded Inl] lt]
            retry_loop_again [of "bindA m (\<lambda>x. ret (f x))" s e s1 attempt cfg label e0, OF b lt]
          by (simp add: Let_def split: prod.splits)
      qed
    qed
  qed
qed

lemma with_retry_map:
  "with_retry opts label (bindA m (\<lambda>x. ret (f x))) = bindA (with_retry opts label m) (\<lambda>x. ret (f x))"
  by (auto simp: fun_eq_iff with_retry_def with_retry_log_def retry_loop_map bindA_def split: prod.splits sum.splits)

section \<open>What the loop does on every run\<close>

text \<open>The state after \<open>n\<close> calls that all throw, if the first \<open>n\<close> calls do throw.\<close>

fun after_throws :: "('s, 'a) io \<Rightarrow> nat \<Rightarrow> 's \<Rightarrow> 's option" where
  "after_throws fn 0 s = Some s"
| "after_throws fn (Suc n) s =
     (case fn s of (Inl e, s') \<Rightarrow> after_throws fn n s' | (Inr _, _) \<Rightarrow> None)"

lemma after_throws_SucE:
  assumes "after_throws fn (Suc n) s = Some s1"
  obtains e s' where "fn s = (Inl e, s')" and "after_throws fn n s' = Some s1"
  using assms by (auto split: prod.splits sum.splits)

lemma upt_Suc_shift: "map f [0..<Suc n] = f 0 # map (\<lambda>i. f (Suc i)) [0..<n]"
  by (simp add: upt_conv_Cons map_Suc_upt [symmetric] del: upt_Suc)

lemma retry_loop_recovers:
  assumes "after_throws fn n s = Some s1" and "fn s1 = (Inr x, s2)"
    and "attempt + int n \<le> rt_retries cfg"
  shows "\<exists>ws. retry_loop cfg label fn attempt e0 s = ((Inr x, s2), ws) \<and>
    map rw_delay ws = map (\<lambda>i. backoff cfg (attempt + int i)) [0..<n]"
  using assms
proof (induction n arbitrary: attempt e0 s)
  case 0
  then show ?case by (simp add: retry_loop_returns)
next
  case (Suc n)
  from Suc.prems(1) obtain e s' where fn: "fn s = (Inl e, s')"
    and rest: "after_throws fn n s' = Some s1" by (rule after_throws_SucE)
  from Suc.IH [OF rest Suc.prems(2), of "attempt + 1" e] Suc.prems(3)
  obtain ws where "retry_loop cfg label fn (attempt + 1) e s' = ((Inr x, s2), ws)"
    and "map rw_delay ws = map (\<lambda>i. backoff cfg (attempt + 1 + int i)) [0..<n]" by auto
  with retry_loop_again [of fn s e s' attempt cfg label e0] fn Suc.prems(3)
  show ?case by (simp add: upt_Suc_shift algebra_simps del: upt_Suc)
qed

lemma retry_loop_gives_up:
  assumes "after_throws fn n s = Some s1" and "fn s1 = (Inl e, s2)"
    and "attempt + int n = rt_retries cfg"
  shows "\<exists>ws. retry_loop cfg label fn attempt e0 s = ((Inl e, s2), ws) \<and>
    map rw_delay ws = map (\<lambda>i. backoff cfg (attempt + int i)) [0..<n]"
  using assms
proof (induction n arbitrary: attempt e0 s)
  case 0
  then show ?case by (simp add: retry_loop_last)
next
  case (Suc n)
  from Suc.prems(1) obtain e' s' where fn: "fn s = (Inl e', s')"
    and rest: "after_throws fn n s' = Some s1" by (rule after_throws_SucE)
  from Suc.IH [OF rest Suc.prems(2), of "attempt + 1" e'] Suc.prems(3)
  obtain ws where "retry_loop cfg label fn (attempt + 1) e' s' = ((Inl e, s2), ws)"
    and "map rw_delay ws = map (\<lambda>i. backoff cfg (attempt + 1 + int i)) [0..<n]" by auto
  with retry_loop_again [of fn s e' s' attempt cfg label e0] fn Suc.prems(3)
  show ?case by (simp add: upt_Suc_shift algebra_simps del: upt_Suc)
qed

lemma backoff_mono: "0 \<le> rt_minDelayMs cfg \<Longrightarrow> i \<le> j \<Longrightarrow> backoff cfg i \<le> backoff cfg j"
  unfolding backoff_def
  by (intro min.mono mult_left_mono power_increasing nat_mono) auto

lemma backoff_le: "backoff cfg i \<le> rt_maxDelayMs cfg"
  by (simp add: backoff_def)

text \<open>C23. A call that throws at most \<open>retries\<close> times in a row and then returns is a success of
  \<open>withRetry\<close>: the caller gets that value, in the state the successful attempt left, and the
  delays slept are \<open>min(minDelayMs * 2^i, maxDelayMs)\<close> for \<open>i = 0, 1, \<dots>\<close>, one per throw.\<close>

theorem retry_recovers:
  assumes "after_throws fn n s = Some s1" and "fn s1 = (Inr x, s2)"
    and "int n \<le> rt_retries (resolve_retry opts)"
  shows "with_retry opts label fn s = (Inr x, s2) \<and>
    map rw_delay (snd (with_retry_log opts label fn s)) =
      map (\<lambda>i. min (rt_minDelayMs (resolve_retry opts) * 2 ^ i) (rt_maxDelayMs (resolve_retry opts))) [0..<n]"
  using retry_loop_recovers [of fn n s s1 x s2 0 "resolve_retry opts" label UndefinedThrown] assms
  by (auto simp: with_retry_def with_retry_log_def backoff_def)

theorem retry_recovers_witness:
  "with_retry None ''get'' (\<lambda>n::nat. if n < 2 then (Inl (DriverError ''down''), Suc n) else (Inr n, n)) 0
     = (Inr 2, 2)"
  by (rule conjunct1 [OF retry_recovers [where n = 2 and ?s1.0 = 2]])
    (simp_all add: numeral_2_eq_2 resolve_retry_def opt_field_def DEFAULT_RETRIES_def)

text \<open>\<open>withRetry\<close> gives up exactly after \<open>retries + 1\<close> calls that all throw: the caller gets
  the last error, no further call is made, and there were \<open>retries\<close> sleeps, never longer than
  \<open>maxDelayMs\<close> and never shorter than the one before.\<close>

lemma retry_gives_up:
  assumes "0 \<le> rt_retries (resolve_retry opts)"
    and "after_throws fn (nat (rt_retries (resolve_retry opts))) s = Some s1" and "fn s1 = (Inl e, s2)"
    and "0 \<le> rt_minDelayMs (resolve_retry opts)"
  shows "with_retry opts label fn s = (Inl e, s2) \<and>
    int (length (snd (with_retry_log opts label fn s))) = rt_retries (resolve_retry opts) \<and>
    sorted (map rw_delay (snd (with_retry_log opts label fn s))) \<and>
    (\<forall>w \<in> set (snd (with_retry_log opts label fn s)). rw_delay w \<le> rt_maxDelayMs (resolve_retry opts))"
proof -
  let ?c = "resolve_retry opts"
  from retry_loop_gives_up [OF assms(2,3), of 0 ?c label UndefinedThrown] assms(1)
  obtain ws where ws: "with_retry_log opts label fn s = ((Inl e, s2), ws)"
    and d: "map rw_delay ws = map (\<lambda>i. backoff ?c (int i)) [0..<nat (rt_retries ?c)]"
    by (auto simp: with_retry_log_def)
  from arg_cong [OF d, of length] assms(1) have "int (length ws) = rt_retries ?c" by simp
  moreover have "sorted (map rw_delay ws)"
    unfolding d by (intro sorted_iff_nth_mono [THEN iffD2]) (auto intro: backoff_mono [OF assms(4)])
  moreover from arg_cong [OF d, of set] have "\<forall>w \<in> set ws. rw_delay w \<le> rt_maxDelayMs ?c"
    by (metis (no_types, lifting) backoff_le image_eqI image_iff set_map)
  ultimately show ?thesis using ws by (simp add: with_retry_def)
qed

lemma retry_gives_up_witness:
  "with_retry None ''get'' (\<lambda>n::nat. (Inl (DriverError ''down'') :: error + nat, Suc n)) 0
     = (Inl (DriverError ''down''), 4)"
  using retry_gives_up [of None "\<lambda>n::nat. (Inl (DriverError ''down'') :: error + nat, Suc n)" 0 3
      "DriverError ''down''" 4 "''get''"]
  by (simp add: numeral_3_eq_3 resolve_retry_def opt_field_def DEFAULT_RETRIES_def DEFAULT_MIN_DELAY_MS_def)

text \<open>A negative \<open>retries\<close> option never calls the function: \<open>undefined\<close> is thrown.\<close>

lemma retry_negative:
  "rt_retries (resolve_retry opts) < 0 \<Longrightarrow> with_retry opts label fn s = (Inl UndefinedThrown, s)"
  by (simp add: with_retry_def with_retry_log_def retry_loop_never)

end
