(* ===== verification/SqlEngine.thy ===== *)
theory SqlEngine
  imports Retry
begin

text \<open>
  The SQL the relational adapters send. Each statement text of the source is a \<open>sql_stmt\<close> with
  the positions of its placeholders; \<open>bind_stmt\<close> puts the parameters in and gives the command the
  text means, and \<open>exec_cmd\<close> is the meaning of a command on the table \<^verbatim>\<open>baileys_sessions\<close>, whose
  primary key is (session_id, key). A driver call is a batch of statements run as one
  transaction; the driver and the server themselves are a parameter, with the laws of the locale
  \<open>sql_client\<close>: a call that returns did what the statements say (rows in any order), a call that
  throws did it or did nothing.

  \<open>dl_coll\<close> is the collation under which key columns are compared (the identity for TEXT
  columns), \<open>dl_dup_error\<close> whether one upsert statement may not touch a row twice.
\<close>

section \<open>Tables, statements and commands\<close>

record sql_row =
  row_session_id :: string
  row_key :: string
  row_value :: jstr
  row_updated_at :: int
  row_version :: int

type_synonym table = "sql_row list"

datatype sql_param = PStr string | PText jstr | PInt int | PArray "string list"

datatype key_list = AnyParam nat | InParams "nat list"

datatype sql_stmt =
    CreateTable
  | SelectByKey nat nat
  | SelectByKeys nat key_list
  | InsertOnConflictUpdate "(nat \<times> nat \<times> nat \<times> nat) list"
  | DeleteByKeys nat key_list
  | SelectKeys nat
  | DeleteBySession nat
  | SelectDistinctSessions
  | SelectOneBySession nat

type_synonym sql_batch = "(sql_stmt \<times> sql_param list) list"

datatype sql_cmd =
    CCreate
  | CGet string string
  | CGetIn string "string list"
  | CUpsert "(string \<times> string \<times> jstr \<times> int) list"
  | CDeleteIn string "string list"
  | CKeys string
  | CWipe string
  | CSessions
  | CExists string

datatype sql_result = RRows "sql_row list" | RStrs "string list" | RDone

record dialect =
  dl_coll :: "string \<Rightarrow> string"
  dl_dup_error :: bool

section \<open>Binding parameters\<close>

definition param :: "sql_param list \<Rightarrow> nat \<Rightarrow> sql_param option" where
  "param ps n = (if 1 \<le> n \<and> n \<le> length ps then Some (ps ! (n - 1)) else None)"

definition str_param :: "sql_param list \<Rightarrow> nat \<Rightarrow> string option" where
  "str_param ps n = (case param ps n of Some (PStr s) \<Rightarrow> Some s | _ \<Rightarrow> None)"

definition text_param :: "sql_param list \<Rightarrow> nat \<Rightarrow> jstr option" where
  "text_param ps n = (case param ps n of Some (PText s) \<Rightarrow> Some s | _ \<Rightarrow> None)"

definition int_param :: "sql_param list \<Rightarrow> nat \<Rightarrow> int option" where
  "int_param ps n = (case param ps n of Some (PInt i) \<Rightarrow> Some i | _ \<Rightarrow> None)"

fun all_some :: "'a option list \<Rightarrow> 'a list option" where
  "all_some [] = Some []"
| "all_some (x # xs) = (case x of None \<Rightarrow> None | Some a \<Rightarrow> map_option (Cons a) (all_some xs))"

fun bind_keys :: "sql_param list \<Rightarrow> key_list \<Rightarrow> string list option" where
  "bind_keys ps (AnyParam n) = (case param ps n of Some (PArray ks) \<Rightarrow> Some ks | _ \<Rightarrow> None)"
| "bind_keys ps (InParams ns) = all_some (map (str_param ps) ns)"

fun bind_tuple :: "sql_param list \<Rightarrow> nat \<times> nat \<times> nat \<times> nat \<Rightarrow> (string \<times> string \<times> jstr \<times> int) option" where
  "bind_tuple ps (a, b, c, d) =
     (case (str_param ps a, str_param ps b, text_param ps c, int_param ps d) of
        (Some s, Some k, Some v, Some t) \<Rightarrow> Some (s, k, v, t)
      | _ \<Rightarrow> None)"

fun bind_stmt :: "sql_stmt \<Rightarrow> sql_param list \<Rightarrow> sql_cmd option" where
  "bind_stmt CreateTable ps = Some CCreate"
| "bind_stmt (SelectByKey a b) ps =
     (case (str_param ps a, str_param ps b) of (Some s, Some k) \<Rightarrow> Some (CGet s k) | _ \<Rightarrow> None)"
| "bind_stmt (SelectByKeys a kl) ps =
     (case (str_param ps a, bind_keys ps kl) of (Some s, Some ks) \<Rightarrow> Some (CGetIn s ks) | _ \<Rightarrow> None)"
| "bind_stmt (InsertOnConflictUpdate ts) ps = map_option CUpsert (all_some (map (bind_tuple ps) ts))"
| "bind_stmt (DeleteByKeys a kl) ps =
     (case (str_param ps a, bind_keys ps kl) of (Some s, Some ks) \<Rightarrow> Some (CDeleteIn s ks) | _ \<Rightarrow> None)"
| "bind_stmt (SelectKeys a) ps = map_option CKeys (str_param ps a)"
| "bind_stmt (DeleteBySession a) ps = map_option CWipe (str_param ps a)"
| "bind_stmt SelectDistinctSessions ps = Some CSessions"
| "bind_stmt (SelectOneBySession a) ps = map_option CExists (str_param ps a)"

section \<open>Executing commands\<close>

definition row_matches :: "(string \<Rightarrow> string) \<Rightarrow> string \<Rightarrow> string \<Rightarrow> sql_row \<Rightarrow> bool" where
  "row_matches coll s k r \<longleftrightarrow> coll (row_session_id r) = coll s \<and> coll (row_key r) = coll k"

text \<open>\<open>INSERT ... ON CONFLICT (session_id, key) DO UPDATE\<close> of one row: the first matching row (there
  is at most one) gets the new value and time and the next version, else a row is added.\<close>

fun upsert_row :: "(string \<Rightarrow> string) \<Rightarrow> string \<times> string \<times> jstr \<times> int \<Rightarrow> table \<Rightarrow> table" where
  "upsert_row coll (s, k, v, t) [] =
     [\<lparr>row_session_id = s, row_key = k, row_value = v, row_updated_at = t, row_version = 1\<rparr>]"
| "upsert_row coll (s, k, v, t) (r # rs) =
     (if row_matches coll s k r
      then r\<lparr>row_value := v, row_updated_at := t, row_version := row_version r + 1\<rparr> # rs
      else r # upsert_row coll (s, k, v, t) rs)"

fun remdups_by :: "('a \<Rightarrow> 'b) \<Rightarrow> 'a list \<Rightarrow> 'a list" where
  "remdups_by f [] = []"
| "remdups_by f (x # xs) = x # filter (\<lambda>y. f y \<noteq> f x) (remdups_by f xs)"

fun exec_cmd :: "dialect \<Rightarrow> sql_cmd \<Rightarrow> table \<Rightarrow> (sql_result \<times> table) option" where
  "exec_cmd dia CCreate t = Some (RDone, t)"
| "exec_cmd dia (CGet s k) t = Some (RRows (filter (row_matches (dl_coll dia) s k) t), t)"
| "exec_cmd dia (CGetIn s ks) t =
     Some (RRows (filter (\<lambda>r. \<exists>k \<in> set ks. row_matches (dl_coll dia) s k r) t), t)"
| "exec_cmd dia (CUpsert us) t =
     (if dl_dup_error dia \<and> \<not> distinct (map (\<lambda>(s, k, _, _). (dl_coll dia s, dl_coll dia k)) us) then None
      else Some (RDone, fold (upsert_row (dl_coll dia)) us t))"
| "exec_cmd dia (CDeleteIn s ks) t =
     Some (RDone, filter (\<lambda>r. \<not> (\<exists>k \<in> set ks. row_matches (dl_coll dia) s k r)) t)"
| "exec_cmd dia (CKeys s) t =
     Some (RStrs (map row_key (filter (\<lambda>r. dl_coll dia (row_session_id r) = dl_coll dia s) t)), t)"
| "exec_cmd dia (CWipe s) t =
     Some (RDone, filter (\<lambda>r. dl_coll dia (row_session_id r) \<noteq> dl_coll dia s) t)"
| "exec_cmd dia CSessions t = Some (RStrs (remdups_by (dl_coll dia) (map row_session_id t)), t)"
| "exec_cmd dia (CExists s) t =
     Some (RStrs (if \<exists>r \<in> set t. dl_coll dia (row_session_id r) = dl_coll dia s then [''1''] else []), t)"

fun exec_batch :: "dialect \<Rightarrow> sql_batch \<Rightarrow> table \<Rightarrow> (sql_result \<times> table) option" where
  "exec_batch dia [] t = Some (RDone, t)"
| "exec_batch dia [(st, ps)] t = Option.bind (bind_stmt st ps) (\<lambda>c. exec_cmd dia c t)"
| "exec_batch dia ((st, ps) # b) t =
     Option.bind (bind_stmt st ps) (\<lambda>c. Option.bind (exec_cmd dia c t) (\<lambda>(_, t'). exec_batch dia b t'))"

text \<open>A query without \<open>ORDER BY\<close> may return its rows in any order.\<close>

fun same_result :: "sql_result \<Rightarrow> sql_result \<Rightarrow> bool" where
  "same_result (RRows a) (RRows b) \<longleftrightarrow> mset a = mset b"
| "same_result (RStrs a) (RStrs b) \<longleftrightarrow> mset a = mset b"
| "same_result RDone _ \<longleftrightarrow> True"
| "same_result _ _ \<longleftrightarrow> False"

section \<open>What the adapters read from a result\<close>

definition row_record :: "sql_row \<Rightarrow> session_record" where
  "row_record r = \<lparr>sr_sessionId = row_session_id r, sr_key = row_key r, sr_value = row_value r,
     sr_updatedAt = row_updated_at r, sr_version = row_version r\<rparr>"

fun rows_of :: "sql_result \<Rightarrow> sql_row list" where
  "rows_of (RRows rs) = rs"
| "rows_of _ = []"

fun strs_of :: "sql_result \<Rightarrow> string list" where
  "strs_of (RStrs ss) = ss"
| "strs_of _ = []"

text \<open>\<open>rows[0] ? toRecord(rows[0]) : null\<close>\<close>

definition first_record :: "sql_row list \<Rightarrow> session_record option" where
  "first_record rs = (case rs of [] \<Rightarrow> None | r # _ \<Rightarrow> Some (row_record r))"

text \<open>\<open>for (const row of rows) map.set(row.key, toRecord(row))\<close>\<close>

definition record_map :: "sql_row list \<Rightarrow> (string \<times> session_record) list" where
  "record_map rs = fold (\<lambda>r m. AList.update (row_key r) (row_record r) m) rs []"

text \<open>Placeholders \<open>?\<close> are numbered by their position in the text.\<close>

definition qmarks :: "nat \<Rightarrow> nat \<Rightarrow> nat list" where
  "qmarks start n = [start..<start + n]"

definition quad :: "nat \<Rightarrow> nat \<times> nat \<times> nat \<times> nat" where
  "quad i = (let base = i * 4 in (base + 1, base + 2, base + 3, base + 4))"

definition quad_params :: "string \<Rightarrow> int \<Rightarrow> (string \<times> jstr) list \<Rightarrow> sql_param list" where
  "quad_params sid now es = concat (map (\<lambda>(k, v). [PStr sid, PStr k, PText v, PInt now]) es)"

section \<open>The table as a store of records\<close>

definition row_view ::
  "(string \<Rightarrow> string) \<Rightarrow> (string \<Rightarrow> bool) \<Rightarrow> (string \<Rightarrow> bool) \<Rightarrow> table \<Rightarrow> db_view" where
  "row_view coll lsid lkey t s k =
     (if lsid s \<and> lkey k then map_option row_record (find (row_matches coll s k) t) else None)"

definition table_ok :: "(string \<Rightarrow> bool) \<Rightarrow> (string \<Rightarrow> bool) \<Rightarrow> table \<Rightarrow> bool" where
  "table_ok lsid lkey t \<longleftrightarrow> distinct (map (\<lambda>r. (row_session_id r, row_key r)) t) \<and>
     (\<forall>r \<in> set t. lsid (row_session_id r) \<and> lkey (row_key r))"

text \<open>Which names may be used: those the collation keeps apart.\<close>

locale sql_names =
  fixes dia :: dialect and lsid :: "string \<Rightarrow> bool" and lkey :: "string \<Rightarrow> bool"
  assumes inj_sid: "lsid a \<Longrightarrow> lsid b \<Longrightarrow> dl_coll dia a = dl_coll dia b \<Longrightarrow> a = b"
    and inj_key: "lkey a \<Longrightarrow> lkey b \<Longrightarrow> dl_coll dia a = dl_coll dia b \<Longrightarrow> a = b"
begin

abbreviation vw :: "table \<Rightarrow> db_view" where
  "vw \<equiv> row_view (dl_coll dia) lsid lkey"

abbreviation tok :: "table \<Rightarrow> bool" where
  "tok \<equiv> table_ok lsid lkey"

lemma matches_iff:
  "tok t \<Longrightarrow> r \<in> set t \<Longrightarrow> lsid s \<Longrightarrow> lkey k \<Longrightarrow>
    row_matches (dl_coll dia) s k r \<longleftrightarrow> row_session_id r = s \<and> row_key r = k"
  unfolding row_matches_def table_ok_def by (metis inj_sid inj_key)

lemma tok_unique:
  "tok t \<Longrightarrow> r \<in> set t \<Longrightarrow> r' \<in> set t \<Longrightarrow> row_session_id r = row_session_id r' \<Longrightarrow>
    row_key r = row_key r' \<Longrightarrow> r = r'"
  by (auto simp: table_ok_def distinct_map inj_on_def)

lemma vw_Some:
  assumes "tok t"
  shows "vw t s k = Some x \<longleftrightarrow> (\<exists>r \<in> set t. row_session_id r = s \<and> row_key r = k \<and> x = row_record r)"
proof
  assume "vw t s k = Some x"
  then obtain r where "lsid s" "lkey k" "find (row_matches (dl_coll dia) s k) t = Some r" "x = row_record r"
    by (auto simp: row_view_def split: if_splits)
  moreover from this have "r \<in> set t" "row_matches (dl_coll dia) s k r"
    by (auto simp: find_Some_iff)
  ultimately show "\<exists>r \<in> set t. row_session_id r = s \<and> row_key r = k \<and> x = row_record r"
    using matches_iff [OF assms] by blast
next
  assume "\<exists>r \<in> set t. row_session_id r = s \<and> row_key r = k \<and> x = row_record r"
  then obtain r where r: "r \<in> set t" "row_session_id r = s" "row_key r = k" "x = row_record r" by blast
  with assms have l: "lsid s" "lkey k" by (auto simp: table_ok_def)
  have "row_matches (dl_coll dia) s k r" using r by (simp add: row_matches_def)
  with r(1) obtain r' where f: "find (row_matches (dl_coll dia) s k) t = Some r'"
    by (metis find_None_iff not_Some_eq)
  then have "r' \<in> set t" "row_matches (dl_coll dia) s k r'" by (auto simp: find_Some_iff)
  with matches_iff [OF assms] l r tok_unique [OF assms] have "r' = r" by metis
  with f l r show "vw t s k = Some x" by (simp add: row_view_def)
qed

lemma vw_None:
  "tok t \<Longrightarrow> vw t s k = None \<longleftrightarrow> \<not> (\<exists>r \<in> set t. row_session_id r = s \<and> row_key r = k)"
  using vw_Some [of t s k] by (metis not_Some_eq)

lemma vw_ex: "tok t \<Longrightarrow> (\<exists>k. vw t s k \<noteq> None) \<longleftrightarrow> (\<exists>r \<in> set t. row_session_id r = s)"
  by (simp add: vw_None del: not_None_eq) blast

lemma vw_eqI:
  assumes "tok t" and "\<And>x. (\<exists>r \<in> set t. row_session_id r = s \<and> row_key r = k \<and> x = row_record r) \<longleftrightarrow> y = Some x"
  shows "vw t s k = y"
  using vw_Some [OF assms(1), of s k] assms(2) by (metis not_Some_eq)

lemma get_result:
  assumes "tok t" and "lsid s" and "lkey k"
    and "same_result (RRows (filter (row_matches (dl_coll dia) s k) t)) res"
  shows "first_record (rows_of res) = vw t s k"
proof -
  from assms(4) obtain rs where res: "res = RRows rs" by (cases res) auto
  with assms(4) have set: "set rs = {r \<in> set t. row_matches (dl_coll dia) s k r}"
    by (metis same_result.simps(1) set_filter set_mset_mset)
  then have m: "r \<in> set rs \<longleftrightarrow> r \<in> set t \<and> row_session_id r = s \<and> row_key r = k" for r
    using matches_iff [OF assms(1) _ assms(2,3)] by blast
  show ?thesis
  proof (cases rs)
    case Nil
    with m have "vw t s k = None" using vw_None [OF assms(1)] by auto
    with Nil res show ?thesis by (simp add: first_record_def)
  next
    case (Cons r rs')
    with m have "vw t s k = Some (row_record r)" using vw_Some [OF assms(1)] by auto
    with Cons res show ?thesis by (simp add: first_record_def)
  qed
qed

lemma record_map_eq:
  "map_of (record_map rs) = map_of (rev (map (\<lambda>r. (row_key r, row_record r)) rs))"
  "distinct (keys_of (record_map rs))"
proof -
  have "map_of (fold (\<lambda>r m. AList.update (row_key r) (row_record r) m) rs m) =
      map_of m ++ map_of (rev (map (\<lambda>r. (row_key r, row_record r)) rs))" for m
    by (induction rs arbitrary: m) (auto simp: jmap_simps map_add_assoc)
  then show "map_of (record_map rs) = map_of (rev (map (\<lambda>r. (row_key r, row_record r)) rs))"
    by (simp add: record_map_def)
  have "distinct (keys_of m) \<Longrightarrow>
      distinct (keys_of (fold (\<lambda>r m. AList.update (row_key r) (row_record r) m) rs m))" for m
    by (induction rs arbitrary: m) (auto simp: jmap_simps)
  then show "distinct (keys_of (record_map rs))" by (simp add: record_map_def)
qed

lemma getMany_result:
  assumes "tok t" and "lsid s" and "\<forall>k \<in> set ks. lkey k"
    and "same_result (RRows (filter (\<lambda>r. \<exists>k \<in> set ks. row_matches (dl_coll dia) s k r) t)) res"
  shows "map_of (record_map (rows_of res)) = (\<lambda>k. if k \<in> set ks then vw t s k else None)"
proof -
  from assms(4) obtain rs where res: "res = RRows rs" by (cases res) auto
  let ?f = "filter (\<lambda>r. \<exists>k \<in> set ks. row_matches (dl_coll dia) s k r) t"
  let ?kv = "map (\<lambda>r. (row_key r, row_record r)) rs"
  from assms(4) res have ms: "mset ?f = mset rs" by simp
  have "set rs = set ?f" using mset_eq_setD [OF ms] by simp
  then have m: "r \<in> set rs \<longleftrightarrow> r \<in> set t \<and> row_session_id r = s \<and> row_key r \<in> set ks" for r
    using matches_iff [OF assms(1) _ assms(2)] assms(3) by auto
  have "distinct ?f" using assms(1) by (auto simp: table_ok_def distinct_map)
  with ms have "distinct rs" by (metis mset_eq_imp_distinct_iff)
  then have d: "distinct (keys_of ?kv)"
    using m tok_unique [OF assms(1)] by (auto simp: distinct_map inj_on_def)
  show ?thesis
  proof
    fix k
    have "map_of (rev ?kv) k = (if k \<in> set ks then vw t s k else None)"
    proof (cases "map_of ?kv k")
      case None
      then have "\<not> (\<exists>r \<in> set rs. row_key r = k)" by (force simp: map_of_eq_None_iff)
      with m have "k \<in> set ks \<Longrightarrow> vw t s k = None" using vw_None [OF assms(1)] by auto
      with None d show ?thesis by (simp add: map_of_rev_distinct)
    next
      case (Some x)
      then have "\<exists>r \<in> set rs. row_key r = k \<and> x = row_record r" by (auto dest!: map_of_SomeD)
      with m have "k \<in> set ks \<and> vw t s k = Some x" using vw_Some [OF assms(1)] by auto
      with Some d show ?thesis by (simp add: map_of_rev_distinct)
    qed
    then show "map_of (record_map (rows_of res)) k = (if k \<in> set ks then vw t s k else None)"
      by (simp add: res record_map_eq)
  qed
qed

end

section \<open>Writes to the table\<close>

definition rows_for :: "string \<Rightarrow> int \<Rightarrow> (string \<times> jstr) list \<Rightarrow> (string \<times> string \<times> jstr \<times> int) list" where
  "rows_for s now es = map (\<lambda>(k, v). (s, k, v, now)) es"

context sql_names begin

lemma row_matches_trans:
  "row_matches coll s k r \<Longrightarrow> row_matches coll (row_session_id r) (row_key r) r' \<Longrightarrow> row_matches coll s k r'"
  by (simp add: row_matches_def)

text \<open>A write to one row of a well-formed table, seen through the view.\<close>

lemma upsert_row_set:
  assumes "tok t" and "lsid s" and "lkey k"
  shows "set (upsert_row (dl_coll dia) (s, k, v, now) t) =
    {r \<in> set t. \<not> (row_session_id r = s \<and> row_key r = k)} \<union>
    {\<lparr>row_session_id = s, row_key = k, row_value = v, row_updated_at = now,
       row_version = (case vw t s k of None \<Rightarrow> 1 | Some x \<Rightarrow> sr_version x + 1)\<rparr>}"
  using assms(1)
proof (induction t)
  case Nil
  then show ?case by (simp add: row_view_def)
next
  case (Cons r t)
  have tok: "tok t" using Cons.prems by (auto simp: table_ok_def)
  note mi = matches_iff [OF Cons.prems _ assms(2,3)]
  show ?case
  proof (cases "row_matches (dl_coll dia) s k r")
    case True
    with mi have r: "row_session_id r = s" "row_key r = k" by auto
    have "row_session_id r' = s \<Longrightarrow> row_key r' = k \<Longrightarrow> r' \<notin> set t" for r'
      using Cons.prems r by (force simp: table_ok_def)
    moreover have "vw (r # t) s k = Some (row_record r)"
      using True assms by (simp add: row_view_def)
    moreover have "r\<lparr>row_value := v, row_updated_at := now, row_version := row_version r + 1\<rparr> =
       \<lparr>row_session_id = s, row_key = k, row_value = v, row_updated_at = now, row_version = row_version r + 1\<rparr>"
      using r by (cases r) simp
    ultimately show ?thesis using True r by (auto simp: row_record_def)
  next
    case False
    with mi have r: "\<not> (row_session_id r = s \<and> row_key r = k)" by auto
    have "vw (r # t) s k = vw t s k" using False by (simp add: row_view_def)
    with Cons.IH [OF tok] False r show ?thesis by auto
  qed
qed

lemma upsert_row_keys:
  assumes "tok t" and "lsid s" and "lkey k"
  shows "map (\<lambda>r. (row_session_id r, row_key r)) (upsert_row (dl_coll dia) (s, k, v, now) t) =
    (if (s, k) \<in> set (map (\<lambda>r. (row_session_id r, row_key r)) t)
     then map (\<lambda>r. (row_session_id r, row_key r)) t
     else map (\<lambda>r. (row_session_id r, row_key r)) t @ [(s, k)])"
  using assms(1)
proof (induction t)
  case (Cons r t)
  have tok: "tok t" using Cons.prems by (auto simp: table_ok_def)
  have "row_matches (dl_coll dia) s k r \<longleftrightarrow> row_session_id r = s \<and> row_key r = k"
    using matches_iff [OF Cons.prems _ assms(2,3)] by simp
  with Cons.IH [OF tok] show ?case by auto
qed simp

lemma upsert_row_ok:
  assumes "tok t" and "lsid s" and "lkey k"
  shows "tok (upsert_row (dl_coll dia) (s, k, v, now) t)"
  unfolding table_ok_def
proof
  show "distinct (map (\<lambda>r. (row_session_id r, row_key r)) (upsert_row (dl_coll dia) (s, k, v, now) t))"
    using assms(1) by (simp add: upsert_row_keys [OF assms] table_ok_def del: set_map)
  show "\<forall>r\<in>set (upsert_row (dl_coll dia) (s, k, v, now) t). lsid (row_session_id r) \<and> lkey (row_key r)"
    using assms by (auto simp: upsert_row_set table_ok_def)
qed

lemma upsert_row_view:
  assumes "tok t" and "lsid s" and "lkey k"
  shows "vw (upsert_row (dl_coll dia) (s, k, v, now) t) = (vw t)(s := (vw t s)(k \<mapsto>
    \<lparr>sr_sessionId = s, sr_key = k, sr_value = v, sr_updatedAt = now,
      sr_version = (case vw t s k of None \<Rightarrow> 1 | Some x \<Rightarrow> sr_version x + 1)\<rparr>))"
proof (intro ext)
  fix s' k'
  show "vw (upsert_row (dl_coll dia) (s, k, v, now) t) s' k' = ((vw t)(s := (vw t s)(k \<mapsto>
    \<lparr>sr_sessionId = s, sr_key = k, sr_value = v, sr_updatedAt = now,
      sr_version = (case vw t s k of None \<Rightarrow> 1 | Some x \<Rightarrow> sr_version x + 1)\<rparr>))) s' k'"
  proof (cases "s' = s \<and> k' = k")
    case True
    then show ?thesis
      by (intro vw_eqI [OF upsert_row_ok [OF assms]]) (auto simp: upsert_row_set [OF assms] row_record_def)
  next
    case False
    then have "vw (upsert_row (dl_coll dia) (s, k, v, now) t) s' k' = vw t s' k'"
      using vw_Some [OF assms(1), of s' k']
      by (intro vw_eqI [OF upsert_row_ok [OF assms]]) (auto simp: upsert_row_set [OF assms])
    with False show ?thesis by auto
  qed
qed

lemma upserted_Cons:
  assumes "v1 = v(s := (v s)(k \<mapsto> r))" and "sr_sessionId r = s" "sr_key r = k" "sr_value r = x" "sr_updatedAt r = now"
    and "upserted s es now v1 v2"
  shows "upserted s ((k, x) # es) now v v2"
  unfolding upserted_def
proof (intro allI)
  fix s' k'
  show "if s' = s \<and> k' \<in> fst ` set ((k, x) # es)
    then \<exists>r. v2 s' k' = Some r \<and> sr_sessionId r = s' \<and> sr_key r = k' \<and>
      Some (sr_value r) = store_all ((k, x) # es) Map.empty k' \<and> sr_updatedAt r = now
    else v2 s' k' = v s' k'"
  proof (cases "s' = s \<and> k' \<in> fst ` set es")
    case True
    then have "store_all ((k, x) # es) Map.empty k' = store_all es Map.empty k'"
      using store_all_present [of k' es "Map.empty(k \<mapsto> x)" Map.empty] by simp
    moreover from True upserted_there [OF assms(6)] obtain r' where "v2 s' k' = Some r'" "sr_sessionId r' = s'" "sr_key r' = k'"
      "Some (sr_value r') = store_all es Map.empty k'" "sr_updatedAt r' = now" by blast
    moreover have "s' = s \<and> k' \<in> fst ` set ((k, x) # es)" using True by simp
    ultimately show ?thesis by simp
  next
    case False
    then have v2: "v2 s' k' = v1 s' k'" using upserted_other [OF assms(6)] by blast
    show ?thesis
    proof (cases "s' = s \<and> k' = k")
      case True
      with False have "store_all es (Map.empty(k \<mapsto> x)) k = Some x" by (simp add: store_all_absent)
      with True v2 assms(1-5) show ?thesis by simp
    next
      case no: False
      with False have "\<not> (s' = s \<and> k' \<in> fst ` set ((k, x) # es))" by auto
      moreover have "v1 s' k' = v s' k'" using no assms(1) by auto
      ultimately show ?thesis using v2 by presburger
    qed
  qed
qed

lemma bumped_Cons:
  assumes "v1 = v(s := (v s)(k \<mapsto> r))" and "sr_version r = (case v s k of None \<Rightarrow> 1 | Some x \<Rightarrow> sr_version x + 1)"
    and "upserted s es now v1 v2" and "bumped s es v1 v2"
  shows "bumped s ((k, x) # es) v v2"
  unfolding bumped_def
proof (intro ballI allI impI)
  fix k' r'
  assume k': "k' \<in> fst ` set ((k, x) # es)" and r': "v2 s k' = Some r'"
  show "case v s k' of None \<Rightarrow> 1 \<le> sr_version r' | Some r \<Rightarrow> sr_version r < sr_version r'"
  proof (cases "k' \<in> fst ` set es")
    case True
    with assms(4) r' have "case v1 s k' of None \<Rightarrow> 1 \<le> sr_version r' | Some r \<Rightarrow> sr_version r < sr_version r'"
      unfolding bumped_def by blast
    then show ?thesis using assms(1,2) by (cases "k' = k") (auto split: option.splits)
  next
    case False
    with k' have "k' = k" by auto
    moreover from False have "v2 s k' = v1 s k'" using upserted_other [OF assms(3)] by blast
    ultimately have "r' = r" using assms(1) r' by simp
    with assms(2) \<open>k' = k\<close> show ?thesis by (auto split: option.splits)
  qed
qed

lemma upsert_rows_ok:
  assumes "tok t" and "lsid s" and "\<forall>e \<in> set es. lkey (fst e)"
  shows "tok (fold (upsert_row (dl_coll dia)) (rows_for s now es) t) \<and>
    upserted s es now (vw t) (vw (fold (upsert_row (dl_coll dia)) (rows_for s now es) t)) \<and>
    bumped s es (vw t) (vw (fold (upsert_row (dl_coll dia)) (rows_for s now es) t))"
  using assms(1,3)
proof (induction es arbitrary: t)
  case Nil
  then show ?case by (simp add: rows_for_def bumped_def)
next
  case (Cons e es)
  obtain k x where e: "e = (k, x)" by fastforce
  let ?t = "upsert_row (dl_coll dia) (s, k, x, now) t"
  have k: "lkey k" using Cons.prems(2) e by simp
  have IH: "tok (fold (upsert_row (dl_coll dia)) (rows_for s now es) ?t) \<and>
    upserted s es now (vw ?t) (vw (fold (upsert_row (dl_coll dia)) (rows_for s now es) ?t)) \<and>
    bumped s es (vw ?t) (vw (fold (upsert_row (dl_coll dia)) (rows_for s now es) ?t))"
    by (rule Cons.IH) (use upsert_row_ok [OF Cons.prems(1) assms(2) k] Cons.prems(2) in auto)
  then have u: "upserted s es now (vw ?t) (vw (fold (upsert_row (dl_coll dia)) (rows_for s now es) ?t))"
    and b: "bumped s es (vw ?t) (vw (fold (upsert_row (dl_coll dia)) (rows_for s now es) ?t))" by auto
  note view = upsert_row_view [OF Cons.prems(1) assms(2) k, of x now]
  from IH upserted_Cons [OF view _ _ _ _ u] bumped_Cons [OF view _ u b]
  show ?case by (simp add: e rows_for_def)
qed

lemma tok_filter: "tok t \<Longrightarrow> tok (filter P t)"
  by (auto simp: table_ok_def distinct_map inj_on_def)

lemma vw_filter:
  assumes "tok t" and "\<And>r. r \<in> set t \<Longrightarrow> P r \<longleftrightarrow> Q (row_session_id r) (row_key r)"
  shows "vw (filter P t) s k = (if Q s k then vw t s k else None)"
  by (rule vw_eqI [OF tok_filter [OF assms(1)]]) (use vw_Some [OF assms(1)] assms(2) in auto)

lemma delete_rows_view:
  assumes "tok t" and "lsid s" and "\<forall>k \<in> set ks. lkey k"
  shows "removed s ks (vw t) (vw (filter (\<lambda>r. \<not> (\<exists>k \<in> set ks. row_matches (dl_coll dia) s k r)) t))"
proof -
  have "\<not> (\<exists>k \<in> set ks. row_matches (dl_coll dia) s k r) \<longleftrightarrow> \<not> (row_session_id r = s \<and> row_key r \<in> set ks)"
    if "r \<in> set t" for r
    using matches_iff [OF assms(1) that assms(2)] assms(3) by auto
  then show ?thesis
    by (simp add: removed_def fun_eq_iff
        vw_filter [OF assms(1), where Q = "\<lambda>s' k'. \<not> (s' = s \<and> k' \<in> set ks)"])
qed

lemma sid_iff: "tok t \<Longrightarrow> r \<in> set t \<Longrightarrow> lsid s \<Longrightarrow> dl_coll dia (row_session_id r) = dl_coll dia s \<longleftrightarrow> row_session_id r = s"
  unfolding table_ok_def by (metis inj_sid)

lemma wipe_view:
  assumes "tok t" and "lsid s"
  shows "wiped s (vw t) (vw (filter (\<lambda>r. dl_coll dia (row_session_id r) \<noteq> dl_coll dia s) t))"
proof -
  have "dl_coll dia (row_session_id r) \<noteq> dl_coll dia s \<longleftrightarrow> row_session_id r \<noteq> s" if "r \<in> set t" for r
    using sid_iff [OF assms(1) that assms(2)] by simp
  then show ?thesis
    by (simp add: wiped_def fun_eq_iff vw_filter [OF assms(1), where Q = "\<lambda>s' k'. s' \<noteq> s"])
qed

lemma keys_result:
  assumes "tok t" and "lsid s"
    and "same_result (RStrs (map row_key (filter (\<lambda>r. dl_coll dia (row_session_id r) = dl_coll dia s) t))) res"
  shows "distinct (strs_of res) \<and> set (strs_of res) = {k. vw t s k \<noteq> None}"
proof -
  let ?ks = "map row_key (filter (\<lambda>r. dl_coll dia (row_session_id r) = dl_coll dia s) t)"
  from assms(3) obtain ss where res: "res = RStrs ss" and ms: "mset ?ks = mset ss" by (cases res) auto
  have "distinct ?ks"
    using assms(1) tok_unique [OF assms(1)] sid_iff [OF assms(1) _ assms(2)]
    by (auto simp: table_ok_def distinct_map inj_on_def)
  moreover have "set ?ks = {k. vw t s k \<noteq> None}"
    using vw_None [OF assms(1)] sid_iff [OF assms(1) _ assms(2)] by auto
  ultimately show ?thesis
    using mset_eq_imp_distinct_iff [OF ms] mset_eq_setD [OF ms] by (simp add: res)
qed

lemma remdups_by_inj: "inj_on f (set xs) \<Longrightarrow> distinct (remdups_by f xs) \<and> set (remdups_by f xs) = set xs"
  by (induction xs) (auto simp: inj_on_def)

lemma sessions_result:
  assumes "tok t" and "same_result (RStrs (remdups_by (dl_coll dia) (map row_session_id t))) res"
  shows "distinct (strs_of res) \<and> set (strs_of res) = {s. \<exists>k. vw t s k \<noteq> None}"
proof -
  let ?ss = "remdups_by (dl_coll dia) (map row_session_id t)"
  from assms(2) obtain ss where res: "res = RStrs ss" and ms: "mset ?ss = mset ss" by (cases res) auto
  have "inj_on (dl_coll dia) (set (map row_session_id t))"
  proof (rule inj_onI)
    fix a b
    assume "a \<in> set (map row_session_id t)" "b \<in> set (map row_session_id t)" "dl_coll dia a = dl_coll dia b"
    then show "a = b" using assms(1) inj_sid [of a b] by (auto simp: table_ok_def)
  qed
  note rd = remdups_by_inj [OF this]
  have "set (map row_session_id t) = {s. \<exists>k. vw t s k \<noteq> None}"
    by (auto simp: vw_ex [OF assms(1)] simp del: not_None_eq)
  with rd show ?thesis
    using mset_eq_imp_distinct_iff [OF ms] mset_eq_setD [OF ms] by (simp add: res)
qed

lemma exists_result:
  assumes "tok t" and "lsid s"
    and "same_result (RStrs (if \<exists>r \<in> set t. dl_coll dia (row_session_id r) = dl_coll dia s then [''1''] else [])) res"
  shows "strs_of res \<noteq> [] \<longleftrightarrow> (\<exists>k. vw t s k \<noteq> None)"
proof -
  have "(\<exists>r \<in> set t. dl_coll dia (row_session_id r) = dl_coll dia s) \<longleftrightarrow> (\<exists>k. vw t s k \<noteq> None)"
    unfolding vw_ex [OF assms(1)] using sid_iff [OF assms(1) _ assms(2)] by blast
  with assms(3) show ?thesis by (cases res) (auto split: if_splits)
qed

end

section \<open>A driver connected to a server\<close>

text \<open>The batch \<open>b\<close> means the command \<open>c\<close>.\<close>

definition sends :: "dialect \<Rightarrow> sql_batch \<Rightarrow> sql_cmd \<Rightarrow> bool" where
  "sends dia b c \<longleftrightarrow> (\<forall>t. exec_batch dia b t = exec_cmd dia c t)"

definition stored :: "string \<Rightarrow> (string \<times> jstr) list \<Rightarrow> int \<Rightarrow> db_view \<Rightarrow> db_view \<Rightarrow> bool" where
  "stored s es now v v' \<longleftrightarrow> upserted s es now v v' \<and> bumped s es v v'"

lemma stored_idem: "stored s es now v u \<Longrightarrow> stored s es now u w \<Longrightarrow> stored s es now v w"
  unfolding stored_def
proof (elim conjE, intro conjI)
  assume u: "upserted s es now v u" "upserted s es now u w" and b: "bumped s es v u" "bumped s es u w"
  show "upserted s es now v w" by (rule upserted_idem [OF u])
  show "bumped s es v w"
    unfolding bumped_def
  proof (intro ballI allI impI)
    fix k r
    assume k: "k \<in> fst ` set es" and r: "w s k = Some r"
    from upserted_there [OF u(1) k] obtain r1 where r1: "u s k = Some r1" by blast
    with b k r have "sr_version r1 < sr_version r"
      "case v s k of None \<Rightarrow> 1 \<le> sr_version r1 | Some r0 \<Rightarrow> sr_version r0 < sr_version r1"
      unfolding bumped_def by (fastforce, blast)
    then show "case v s k of None \<Rightarrow> 1 \<le> sr_version r | Some r0 \<Rightarrow> sr_version r0 < sr_version r"
      by (auto split: option.splits)
  qed
qed

text \<open>The rows of the server, as a store of records.\<close>

definition store_view ::
  "dialect \<Rightarrow> (string \<Rightarrow> bool) \<Rightarrow> (string \<Rightarrow> bool) \<Rightarrow> ('s \<Rightarrow> table) \<Rightarrow> 's \<Rightarrow> db_view" where
  "store_view dia lsid lkey tbl d = row_view (dl_coll dia) lsid lkey (tbl d)"

definition store_ok :: "(string \<Rightarrow> bool) \<Rightarrow> (string \<Rightarrow> bool) \<Rightarrow> ('s \<Rightarrow> table) \<Rightarrow> 's \<Rightarrow> bool" where
  "store_ok lsid lkey tbl d \<longleftrightarrow> table_ok lsid lkey (tbl d)"

locale sql_client = sql_names dia lsid lkey
  for dia :: dialect and lsid :: "string \<Rightarrow> bool" and lkey :: "string \<Rightarrow> bool" +
  fixes run :: "sql_batch \<Rightarrow> ('s, sql_result) io"
    and tbl :: "'s \<Rightarrow> table"
    and sup :: "'s \<Rightarrow> bool"
  assumes run_ok: "run b d = (Inr res, d') \<Longrightarrow>
      \<exists>res0. exec_batch dia b (tbl d) = Some (res0, tbl d') \<and> same_result res0 res"
    and run_err: "run b d = (Inl e, d') \<Longrightarrow>
      tbl d' = tbl d \<or> (\<exists>res0. exec_batch dia b (tbl d) = Some (res0, tbl d'))"
    and run_up: "sup d \<Longrightarrow> exec_batch dia b (tbl d) \<noteq> None \<Longrightarrow> \<exists>res d'. run b d = (Inr res, d') \<and> sup d'"
begin

abbreviation view :: "'s \<Rightarrow> db_view" where
  "view \<equiv> store_view dia lsid lkey tbl"

abbreviation ok :: "'s \<Rightarrow> bool" where
  "ok \<equiv> store_ok lsid lkey tbl"

lemma run_query:
  assumes "\<And>t. tok t \<Longrightarrow> vw t = view d \<Longrightarrow>
      \<exists>res0. exec_batch dia b t = Some (res0, t) \<and> (\<forall>res. same_result res0 res \<longrightarrow> P res)"
    and "ok d"
  shows "query_ok view ok sup (run b) d P"
proof -
  from assms(1) [of "tbl d"] assms(2) obtain res0 where
    x: "exec_batch dia b (tbl d) = Some (res0, tbl d)" "\<And>res. same_result res0 res \<Longrightarrow> P res"
    by (auto simp: store_view_def store_ok_def)
  show ?thesis
  proof (rule query_okI)
    fix r d'
    assume r: "run b d = (r, d')"
    show "ok d' \<and> view d' = view d \<and> (\<forall>y. r = Inr y \<longrightarrow> P y)"
    proof (cases r)
      case (Inl e)
      with run_err r x(1) have "tbl d' = tbl d" by fastforce
      with assms(2) Inl show ?thesis by (simp add: store_ok_def store_view_def)
    next
      case (Inr y)
      with run_ok r x(1) have "tbl d' = tbl d \<and> same_result res0 y" by fastforce
      with assms(2) Inr x(2) show ?thesis by (simp add: store_ok_def store_view_def)
    qed
  next
    assume "sup d"
    with run_up x(1) show "\<exists>y d'. run b d = (Inr y, d') \<and> sup d'" by blast
  qed
qed

lemma run_update:
  assumes "\<And>res0 t'. exec_batch dia b (tbl d) = Some (res0, t') \<Longrightarrow> tok t' \<and> Q (vw t')"
    and "can \<Longrightarrow> exec_batch dia b (tbl d) \<noteq> None" and "ok d"
  shows "update_ok view ok sup can (run b) d Q"
  unfolding update_ok_def
proof (intro conjI allI impI)
  fix r d'
  assume r: "run b d = (r, d')"
  have "ok d' \<and> (case r of Inl _ \<Rightarrow> view d' = view d \<or> Q (view d') | Inr _ \<Rightarrow> Q (view d'))"
  proof (cases r)
    case (Inl e)
    with run_err r have "tbl d' = tbl d \<or> (\<exists>res0. exec_batch dia b (tbl d) = Some (res0, tbl d'))" by blast
    with assms(1,3) Inl show ?thesis by (auto simp: store_ok_def store_view_def)
  next
    case (Inr y)
    with run_ok r have "\<exists>res0. exec_batch dia b (tbl d) = Some (res0, tbl d')" by blast
    with assms(1) Inr show ?thesis by (auto simp: store_ok_def store_view_def)
  qed
  then show "ok d'" and "case r of Inl _ \<Rightarrow> view d' = view d \<or> Q (view d') | Inr _ \<Rightarrow> Q (view d')" by auto
next
  assume "sup d \<and> can"
  with run_up assms(2) show "\<exists>x d'. run b d = (Inr x, d') \<and> sup d'" by blast
qed

text \<open>What the adapters send, command by command.\<close>

lemma run_get:
  "sends dia b (CGet s k) \<Longrightarrow> ok d \<Longrightarrow> lsid s \<Longrightarrow> lkey k \<Longrightarrow>
    query_ok view ok sup (run b) d (\<lambda>res. first_record (rows_of res) = view d s k)"
  by (rule run_query) (auto simp: sends_def get_result)

lemma run_getMany:
  "sends dia b (CGetIn s ks) \<Longrightarrow> ok d \<Longrightarrow> lsid s \<Longrightarrow> \<forall>k \<in> set ks. lkey k \<Longrightarrow>
    query_ok view ok sup (run b) d
      (\<lambda>res. map_of (record_map (rows_of res)) = (\<lambda>k. if k \<in> set ks then view d s k else None))"
  by (rule run_query) (auto simp: sends_def getMany_result)

lemma run_keys:
  "sends dia b (CKeys s) \<Longrightarrow> ok d \<Longrightarrow> lsid s \<Longrightarrow>
    query_ok view ok sup (run b) d (\<lambda>res. distinct (strs_of res) \<and> set (strs_of res) = {k. view d s k \<noteq> None})"
  by (rule run_query) (simp_all add: sends_def keys_result)

lemma run_sessions:
  "sends dia b CSessions \<Longrightarrow> ok d \<Longrightarrow>
    query_ok view ok sup (run b) d
      (\<lambda>res. distinct (strs_of res) \<and> set (strs_of res) = {s. \<exists>k. view d s k \<noteq> None})"
  by (rule run_query) (simp_all add: sends_def sessions_result)

lemma run_exists:
  assumes "sends dia b (CExists s)" and "ok d" and "lsid s"
  shows "query_ok view ok sup (run b) d (\<lambda>res. strs_of res \<noteq> [] \<longleftrightarrow> (\<exists>k. view d s k \<noteq> None))"
proof (rule run_query [OF _ assms(2)])
  fix t
  assume t: "tok t" "vw t = view d"
  let ?res0 = "RStrs (if \<exists>r \<in> set t. dl_coll dia (row_session_id r) = dl_coll dia s then [''1''] else [])"
  have "strs_of res \<noteq> [] \<longleftrightarrow> (\<exists>k. view d s k \<noteq> None)" if "same_result ?res0 res" for res
    using exists_result [OF t(1) assms(3) that] by (simp only: t(2))
  moreover have "exec_batch dia b t = Some (?res0, t)"
    using assms(1) by (simp only: sends_def exec_cmd.simps)
  ultimately show "\<exists>res0. exec_batch dia b t = Some (res0, t) \<and>
      (\<forall>res. same_result res0 res \<longrightarrow> (strs_of res \<noteq> [] \<longleftrightarrow> (\<exists>k. view d s k \<noteq> None)))"
    by blast
qed

lemma run_deleteMany:
  assumes "sends dia b (CDeleteIn s ks)" and "ok d" and "lsid s" and "\<forall>k \<in> set ks. lkey k"
  shows "update_ok view ok sup True (run b) d (removed s ks (view d))"
proof (rule run_update [OF _ _ assms(2)])
  fix res0 t'
  assume "exec_batch dia b (tbl d) = Some (res0, t')"
  with assms(1) have t': "t' = filter (\<lambda>r. \<not> (\<exists>k \<in> set ks. row_matches (dl_coll dia) s k r)) (tbl d)"
    by (simp only: sends_def exec_cmd.simps option.inject prod.inject)
  have "tok (tbl d)" using assms(2) by (simp add: store_ok_def)
  from tok_filter [OF this] delete_rows_view [OF this assms(3,4)]
  show "tok t' \<and> removed s ks (view d) (vw t')" by (simp only: t' store_view_def)
qed (use assms(1) in \<open>simp add: sends_def\<close>)

lemma run_wipe:
  "sends dia b (CWipe s) \<Longrightarrow> ok d \<Longrightarrow> lsid s \<Longrightarrow> update_ok view ok sup True (run b) d (wiped s (view d))"
  by (rule run_update) (auto simp: sends_def store_view_def store_ok_def tok_filter intro: wipe_view)

lemma coll_distinct:
  assumes "lsid s" and "\<forall>e \<in> set es. lkey (fst e)" and "distinct (keys_of es)"
  shows "distinct (map (\<lambda>(s, k, _, _). (dl_coll dia s, dl_coll dia k)) (rows_for s now es))"
proof -
  have "inj_on (\<lambda>k. (dl_coll dia s, dl_coll dia k)) (set (keys_of es))"
    using assms(2) by (auto simp: inj_on_def intro: inj_key)
  from distinct_map [THEN iffD2, OF conjI, OF assms(3) this]
  have "distinct (map (\<lambda>k. (dl_coll dia s, dl_coll dia k)) (keys_of es))" .
  moreover have "map (\<lambda>(s, k, _, _). (dl_coll dia s, dl_coll dia k)) (rows_for s now es) =
      map (\<lambda>k. (dl_coll dia s, dl_coll dia k)) (keys_of es)"
    by (auto simp: rows_for_def)
  ultimately show ?thesis by argo
qed

lemma run_setMany:
  assumes "sends dia b (CUpsert (rows_for s now es))" and "ok d" and "lsid s" and "\<forall>e \<in> set es. lkey (fst e)"
  shows "update_ok view ok sup (distinct (keys_of es)) (run b) d (stored s es now (view d))"
proof (rule run_update [OF _ _ assms(2)])
  fix res0 t'
  assume "exec_batch dia b (tbl d) = Some (res0, t')"
  with assms(1) have "t' = fold (upsert_row (dl_coll dia)) (rows_for s now es) (tbl d)"
    by (auto simp: sends_def split: if_splits)
  with upsert_rows_ok [OF _ assms(3,4)] assms(2) show "tok t' \<and> stored s es now (view d) (vw t')"
    by (simp add: store_ok_def store_view_def stored_def)
next
  assume "distinct (keys_of es)"
  from coll_distinct [OF assms(3,4) this] show "exec_batch dia b (tbl d) \<noteq> None"
    using assms(1) by (simp add: sends_def)
qed

text \<open>The same calls inside \<open>withRetry\<close>.\<close>

lemma retry_query:
  assumes "\<And>d'. ok d' \<Longrightarrow> view d' = view d \<Longrightarrow> query_ok view ok sup m d' P" and "ok d" and "may_retry opts"
  shows "query_ok view ok sup (with_retry opts label m) d P"
  by (rule query_ok_retry [where v = "view d"]) (use assms in auto)

lemma retry_deleteMany:
  assumes "\<And>d. ok d \<Longrightarrow> update_ok view ok sup True m d (removed s ks (view d))" and "ok d" and "may_retry opts"
  shows "update_ok view ok sup True (with_retry opts label m) d (removed s ks (view d))"
  by (rule update_ok_retry [where v = "view d" and Q' = "removed s ks"])
    (use assms in \<open>auto intro: removed_idem update_ok_weaken\<close>)

lemma retry_wipe:
  assumes "\<And>d. ok d \<Longrightarrow> update_ok view ok sup True m d (wiped s (view d))" and "ok d" and "may_retry opts"
  shows "update_ok view ok sup True (with_retry opts label m) d (wiped s (view d))"
  by (rule update_ok_retry [where v = "view d" and Q' = "wiped s"])
    (use assms in \<open>auto intro: wiped_idem update_ok_weaken\<close>)

lemma retry_setMany:
  assumes "\<And>d. ok d \<Longrightarrow> update_ok view ok sup can m d (stored s es now (view d))" and "ok d" and "may_retry opts"
  shows "update_ok view ok sup can (with_retry opts label m) d (stored s es now (view d))"
  by (rule update_ok_retry [where v = "view d" and Q' = "stored s es now"])
    (use assms in \<open>auto intro: stored_idem update_ok_weaken\<close>)

lemma stored_upserted:
  "update_ok view ok sup can m d (stored s es now v) \<Longrightarrow> update_ok view ok sup can m d (upserted s es now v)"
  by (erule update_ok_weaken) (auto simp: stored_def)

lemma stored_bumped:
  "update_ok view ok sup can m d (stored s es now v) \<Longrightarrow> m d = (Inr x, d') \<Longrightarrow> bumped s es v (view d')"
  by (auto simp: update_ok_def stored_def)

lemma view_names: "ok d \<Longrightarrow> view d s k \<noteq> None \<Longrightarrow> lsid s \<and> lkey k"
  by (auto simp: store_view_def row_view_def split: if_splits)

lemma view_rows: "ok d \<Longrightarrow> view d s k = Some r \<Longrightarrow> sr_sessionId r = s \<and> sr_key r = k"
  using vw_Some [of "tbl d" s k] by (auto simp: store_view_def store_ok_def row_record_def)

end

section \<open>What the statement texts bind to\<close>

lemma param_Cons:
  "param (p # ps) (Suc n) = (if n = 0 then Some p else param ps n)"
  by (cases n) (auto simp: param_def)

lemma param_numerals [simp]:
  "param (p # ps) 1 = Some p" "param (p # ps) (Suc 0) = Some p"
  "param (p # q # ps) 2 = Some q" "param (p # q # r # ps) 3 = Some r" "param (p # q # r # u # ps) 4 = Some u"
  by (simp_all add: param_def)

lemma param_append: "n \<le> length ps \<Longrightarrow> param (ps @ qs) n = param ps n"
  by (auto simp: param_def nth_append)

lemma param_append_right: "1 \<le> n \<Longrightarrow> param (ps @ qs) (length ps + n) = param qs n"
  by (auto simp: param_def nth_append)

lemma all_some_map_Some: "(\<And>x. x \<in> set xs \<Longrightarrow> f x = Some (g x)) \<Longrightarrow> all_some (map f xs) = Some (map g xs)"
  by (induction xs) auto

lemma all_some_append: "all_some (xs @ ys) = Option.bind (all_some xs) (\<lambda>a. map_option (append a) (all_some ys))"
  by (induction xs) (auto simp: Option.bind_def map_option_case split: option.splits)

lemma qmarks_Suc: "qmarks start (Suc n) = qmarks start n @ [start + n]"
  by (simp add: qmarks_def)

lemma bind_qmarks:
  "bind_keys (PStr s # map PStr ks) (InParams (qmarks 2 (length ks))) = Some ks"
proof (induction ks rule: rev_induct)
  case (snoc k ks)
  have pre: "map (str_param (PStr s # map PStr ks @ [PStr k])) (qmarks 2 (length ks)) =
      map (str_param (PStr s # map PStr ks)) (qmarks 2 (length ks))"
  proof (intro map_cong refl)
    fix n
    assume "n \<in> set (qmarks 2 (length ks))"
    then have "n \<le> length (PStr s # map PStr ks)" by (auto simp: qmarks_def)
    from param_append [OF this, of "[PStr k]"]
    show "str_param (PStr s # map PStr ks @ [PStr k]) n = str_param (PStr s # map PStr ks) n"
      by (simp add: str_param_def)
  qed
  have last: "str_param (PStr s # map PStr ks @ [PStr k]) (2 + length ks) = Some k"
    by (simp add: str_param_def param_def nth_append)
  have "map (str_param (PStr s # map PStr (ks @ [k]))) (qmarks 2 (length (ks @ [k]))) =
      map (str_param (PStr s # map PStr ks)) (qmarks 2 (length ks)) @ [Some k]"
    using last by (simp add: qmarks_Suc pre del: map_eq_conv)
  with snoc.IH show ?case by (simp only: bind_keys.simps all_some_append) simp
qed (simp add: qmarks_def)

lemma quad_params_length: "length (quad_params sid now es) = 4 * length es"
  by (induction es) (auto simp: quad_params_def)

lemma bind_quads:
  "all_some (map (bind_tuple (quad_params sid now es)) (map quad [0..<length es])) = Some (rows_for sid now es)"
proof (induction es rule: rev_induct)
  case Nil
  show ?case by (simp add: rows_for_def)
next
  case (snoc e es)
  obtain k v where e: "e = (k, v)" by fastforce
  let ?ps = "quad_params sid now es" and ?q = "[PStr sid, PStr k, PText v, PInt now]"
  have ps: "quad_params sid now (es @ [e]) = ?ps @ ?q" by (simp add: quad_params_def e)
  have pre: "map (bind_tuple (?ps @ ?q)) (map quad [0..<length es]) = map (bind_tuple ?ps) (map quad [0..<length es])"
  proof (intro map_cong refl)
    fix x
    assume "x \<in> set (map quad [0..<length es])"
    then obtain i where "i < length es" and x: "x = quad i" by auto
    then have "j \<le> length ?ps" if "j \<le> i * 4 + 4" for j using that by (simp add: quad_params_length)
    then show "bind_tuple (?ps @ ?q) x = bind_tuple ?ps x"
      by (simp add: x quad_def Let_def str_param_def text_param_def int_param_def param_append)
  qed
  have at: "param (?ps @ ?q) (length es * 4 + n) = param ?q n" if "1 \<le> n" for n
    using param_append_right [OF that, of ?ps ?q] by (simp add: quad_params_length mult.commute)
  have last: "bind_tuple (?ps @ ?q) (quad (length es)) = Some (sid, k, v, now)"
    using at [of 1] at [of 2] at [of 3] at [of 4]
    by (simp add: quad_def Let_def str_param_def text_param_def int_param_def)
  have "map (bind_tuple (?ps @ ?q)) (map quad [0..<length (es @ [e])]) =
      map (bind_tuple ?ps) (map quad [0..<length es]) @ [Some (sid, k, v, now)]"
    using pre last by (simp del: map_map)
  with snoc.IH show ?case
    by (simp only: ps all_some_append) (simp add: rows_for_def e)
qed

end
