(* ===== verification/SqlAdapter.thy ===== *)
theory SqlAdapter
  imports SqlEngine
begin

text \<open>
  What the relational adapters share: \<open>BaseAdapter.withRetry\<close> (\<^verbatim>\<open>src/adapters/base-adapter.ts\<close>),
  the \<open>pool\<close> field with its \<open>client\<close> getter (\<^verbatim>\<open>postgres-adapter.ts\<close>, \<^verbatim>\<open>mysql-adapter.ts\<close>), and the
  locale \<open>sql_adapter\<close>: an adapter whose operations send, inside the retry loop, batches that mean
  the right commands is a \<open>versioned_store\<close>. Each adapter is then an instance of it.
\<close>

section \<open>The retry wrapper of the base class\<close>

definition retry_label :: "string \<Rightarrow> string \<Rightarrow> string" where
  "retry_label name label = name @ '' adapter: '' @ label"

definition base_withRetry ::
  "string \<Rightarrow> retry_options option \<Rightarrow> ('s, 'a) io \<Rightarrow> string \<Rightarrow> ('s, 'a) io" where
  "base_withRetry name opts fn label = with_retry opts (retry_label name label) fn"

lemma base_retry_map:
  "bindA (base_withRetry name opts (bindA m (\<lambda>x. ret (f x))) label) (\<lambda>y. ret (g y)) =
    bindA (base_withRetry name opts m label) (\<lambda>x. ret (g (f x)))"
  by (simp only: base_withRetry_def with_retry_map bindA_assoc bindA_ret)

section \<open>An adapter that sends the right statements\<close>

locale sql_adapter = sql_client dia lsid lkey run tbl sup
  for dia :: dialect and lsid :: "string \<Rightarrow> bool" and lkey :: "string \<Rightarrow> bool"
    and run :: "sql_batch \<Rightarrow> ('s, sql_result) io" and tbl :: "'s \<Rightarrow> table" and sup :: "'s \<Rightarrow> bool" +
  fixes A :: "'s adapter"
    and name :: string
    and opts :: "retry_options option"
    and bget :: "string \<Rightarrow> string \<Rightarrow> sql_batch"
    and bgetMany :: "string \<Rightarrow> string list \<Rightarrow> sql_batch"
    and bsetMany :: "string \<Rightarrow> (string \<times> jstr) list \<Rightarrow> int \<Rightarrow> sql_batch"
    and bdeleteMany :: "string \<Rightarrow> string list \<Rightarrow> sql_batch"
    and bkeys :: "string \<Rightarrow> sql_batch"
    and bwipe :: "string \<Rightarrow> sql_batch"
    and bsessions :: sql_batch
    and bexists :: "string \<Rightarrow> sql_batch"
  assumes retries: "may_retry opts"
    and sends_get: "sends dia (bget s k) (CGet s k)"
    and sends_getMany: "sends dia (bgetMany s ks) (CGetIn s ks)"
    and sends_setMany: "sends dia (bsetMany s es now) (CUpsert (rows_for s now es))"
    and sends_deleteMany: "sends dia (bdeleteMany s ks) (CDeleteIn s ks)"
    and sends_keys: "sends dia (bkeys s) (CKeys s)"
    and sends_wipe: "sends dia (bwipe s) (CWipe s)"
    and sends_sessions: "sends dia bsessions CSessions"
    and sends_exists: "sends dia (bexists s) (CExists s)"
    and A_get: "ad_get A s k =
      bindA (base_withRetry name opts (run (bget s k)) ''get'') (\<lambda>res. ret (first_record (rows_of res)))"
    and A_getMany: "ks \<noteq> [] \<Longrightarrow> ad_getMany A s ks =
      bindA (base_withRetry name opts (run (bgetMany s ks)) ''getMany'') (\<lambda>res. ret (record_map (rows_of res)))"
    and A_getMany_Nil: "store_ok lsid lkey tbl d \<Longrightarrow>
      query_ok (store_view dia lsid lkey tbl) (store_ok lsid lkey tbl) sup (ad_getMany A s []) d (\<lambda>m. m = [])"
    and A_set: "ad_set A s k x now = ad_setMany A s [(k, x)] now"
    and A_setMany: "ad_setMany A s es now = (if es = [] then ret () else
      thenA (base_withRetry name opts (run (bsetMany s es now)) ''setMany'') (ret ()))"
    and A_delete: "ad_delete A s k = ad_deleteMany A s [k]"
    and A_deleteMany: "ad_deleteMany A s ks = (if ks = [] then ret () else
      thenA (base_withRetry name opts (run (bdeleteMany s ks)) ''deleteMany'') (ret ()))"
    and A_keys: "ad_getAllKeys A s =
      bindA (base_withRetry name opts (run (bkeys s)) ''getAllKeys'') (\<lambda>res. ret (strs_of res))"
    and A_wipe: "ad_deleteSession A s =
      thenA (base_withRetry name opts (run (bwipe s)) ''deleteSession'') (ret ())"
    and A_sessions: "ad_listSessions A =
      bindA (base_withRetry name opts (run bsessions) ''listSessions'') (\<lambda>res. ret (strs_of res))"
    and A_exists: "ad_sessionExists A s =
      bindA (base_withRetry name opts (run (bexists s)) ''sessionExists'') (\<lambda>res. ret (strs_of res \<noteq> []))"
begin

lemma retried_query:
  assumes "\<And>d'. ok d' \<Longrightarrow> query_ok view ok sup m d' (Q (view d'))" and "ok d"
    and "\<And>res. Q (view d) res \<Longrightarrow> P (f res)"
  shows "query_ok view ok sup (bindA (base_withRetry name opts m label) (\<lambda>res. ret (f res))) d P"
  unfolding base_withRetry_def
proof (rule query_ok_map [where P = "Q (view d)"])
  show "query_ok view ok sup (with_retry opts (retry_label name label) m) d (Q (view d))"
  proof (rule retry_query [OF _ assms(2) retries])
    fix d'
    assume "ok d'" and "view d' = view d"
    with assms(1) [of d'] show "query_ok view ok sup m d' (Q (view d))" by simp
  qed
qed (rule assms(3))

lemma adapter_get:
  assumes "ok d" and "lsid s" and "lkey k"
  shows "query_ok view ok sup (ad_get A s k) d (\<lambda>r. r = view d s k)"
  unfolding A_get
  by (rule retried_query [where Q = "\<lambda>v res. first_record (rows_of res) = v s k", OF _ assms(1)])
    (rule run_get [OF sends_get _ assms(2,3)])

lemma adapter_getMany:
  assumes "ok d" and "lsid s" and "\<forall>k \<in> set ks. lkey k"
  shows "query_ok view ok sup (ad_getMany A s ks) d
    (\<lambda>m. distinct (keys_of m) \<and> map_of m = (\<lambda>k. if k \<in> set ks then view d s k else None))"
proof (cases "ks = []")
  case True
  from A_getMany_Nil [OF assms(1), of s] show ?thesis by (auto simp: True query_ok_def)
next
  case False
  have "query_ok view ok sup
      (bindA (base_withRetry name opts (run (bgetMany s ks)) ''getMany'') (\<lambda>res. ret (record_map (rows_of res)))) d
      (\<lambda>m. distinct (keys_of m) \<and> map_of m = (\<lambda>k. if k \<in> set ks then view d s k else None))"
    by (rule retried_query [where Q = "\<lambda>v res. map_of (record_map (rows_of res)) =
          (\<lambda>k. if k \<in> set ks then v s k else None)", OF _ assms(1)])
      (rule run_getMany [OF sends_getMany _ assms(2,3)], simp_all add: record_map_eq(2))
  with False show ?thesis by (simp add: A_getMany)
qed

lemma adapter_setMany:
  assumes "ok d" and "lsid s" and "\<forall>e \<in> set es. lkey (fst e)"
  shows "update_ok view ok sup (distinct (keys_of es)) (ad_setMany A s es now) d (stored s es now (view d))"
proof (cases "es = []")
  case True
  with assms(1) show ?thesis by (simp add: A_setMany update_ok_return stored_def bumped_def)
next
  case False
  have "update_ok view ok sup (distinct (keys_of es))
      (with_retry opts (retry_label name ''setMany'') (run (bsetMany s es now))) d (stored s es now (view d))"
    by (rule retry_setMany [OF _ assms(1) retries]) (rule run_setMany [OF sends_setMany _ assms(2,3)])
  from update_ok_discard [OF this] False show ?thesis by (simp add: A_setMany base_withRetry_def)
qed

lemma adapter_deleteMany:
  assumes "ok d" and "lsid s" and "\<forall>k \<in> set ks. lkey k"
  shows "update_ok view ok sup True (ad_deleteMany A s ks) d (removed s ks (view d))"
proof (cases "ks = []")
  case True
  with assms(1) show ?thesis by (simp add: A_deleteMany update_ok_return)
next
  case False
  have "update_ok view ok sup True
      (with_retry opts (retry_label name ''deleteMany'') (run (bdeleteMany s ks))) d (removed s ks (view d))"
    by (rule retry_deleteMany [OF _ assms(1) retries]) (rule run_deleteMany [OF sends_deleteMany _ assms(2,3)])
  from update_ok_discard [OF this] False show ?thesis by (simp add: A_deleteMany base_withRetry_def)
qed

lemma adapter_getAllKeys:
  assumes "ok d" and "lsid s"
  shows "query_ok view ok sup (ad_getAllKeys A s) d (\<lambda>ks. distinct ks \<and> set ks = {k. view d s k \<noteq> None})"
  unfolding A_keys
  by (rule retried_query [where Q = "\<lambda>v res. distinct (strs_of res) \<and> set (strs_of res) = {k. v s k \<noteq> None}", OF _ assms(1)])
    (rule run_keys [OF sends_keys _ assms(2)])

lemma adapter_deleteSession:
  assumes "ok d" and "lsid s"
  shows "update_ok view ok sup True (ad_deleteSession A s) d (wiped s (view d))"
  unfolding A_wipe base_withRetry_def
  by (rule update_ok_discard, rule retry_wipe [OF _ assms(1) retries])
    (rule run_wipe [OF sends_wipe _ assms(2)])

lemma adapter_listSessions:
  assumes "ok d"
  shows "query_ok view ok sup (ad_listSessions A) d
    (\<lambda>sids. distinct sids \<and> set sids = {s. \<exists>k. view d s k \<noteq> None})"
  unfolding A_sessions
  by (rule retried_query [where Q = "\<lambda>v res. distinct (strs_of res) \<and> set (strs_of res) = {s. \<exists>k. v s k \<noteq> None}", OF _ assms])
    (rule run_sessions [OF sends_sessions])

lemma adapter_sessionExists:
  assumes "ok d" and "lsid s"
  shows "query_ok view ok sup (ad_sessionExists A s) d (\<lambda>b. b \<longleftrightarrow> (\<exists>k. view d s k \<noteq> None))"
  unfolding A_exists
  by (rule retried_query [where Q = "\<lambda>v res. strs_of res \<noteq> [] \<longleftrightarrow> (\<exists>k. v s k \<noteq> None)", OF _ assms(1)])
    (rule run_exists [OF sends_exists _ assms(2)])

end

sublocale sql_adapter \<subseteq> versioned_store A view ok sup lsid lkey
proof unfold_locales
  fix d s k x now
  assume a: "ok d" "lsid s" "lkey k"
  show "query_ok view ok sup (ad_get A s k) d (\<lambda>r. r = view d s k)" using a by (rule adapter_get)
  show "update_ok view ok sup True (ad_set A s k x now) d (upserted s [(k, x)] now (view d))"
    using adapter_setMany [OF a(1,2), of "[(k, x)]" now] a(3) by (auto simp: A_set intro: stored_upserted)
  show "update_ok view ok sup True (ad_delete A s k) d (removed s [k] (view d))"
    using adapter_deleteMany [OF a(1,2), of "[k]"] a(3) by (simp add: A_delete)
next
  fix d sid
  assume a: "ok d" "lsid sid"
  show "query_ok view ok sup (ad_getAllKeys A sid) d (\<lambda>ks. distinct ks \<and> set ks = {k. view d sid k \<noteq> None})"
    using a by (rule adapter_getAllKeys)
  show "query_ok view ok sup (ad_sessionExists A sid) d (\<lambda>b. b \<longleftrightarrow> (\<exists>k. view d sid k \<noteq> None))"
    using a by (rule adapter_sessionExists)
  show "update_ok view ok sup True (ad_deleteSession A sid) d (wiped sid (view d))"
    using a by (rule adapter_deleteSession)
next
  fix d
  assume "ok d"
  then show "query_ok view ok sup (ad_listSessions A) d (\<lambda>sids. distinct sids \<and> set sids = {s. \<exists>k. view d s k \<noteq> None})"
    by (rule adapter_listSessions)
next
  fix d sid now d' and es :: "(string \<times> jstr) list"
  assume a: "ok d" "lsid sid" "\<forall>e \<in> set es. lkey (fst e)"
  show "update_ok view ok sup (distinct (keys_of es)) (ad_setMany A sid es now) d (upserted sid es now (view d))"
    by (rule stored_upserted [OF adapter_setMany [OF a]])
  show "bumped sid es (view d) (view d')" if "ad_setMany A sid es now d = (Inr (), d')"
    by (rule stored_bumped [OF adapter_setMany [OF a] that])
qed (rule adapter_getMany adapter_deleteMany view_names view_rows; assumption)+

context sql_adapter begin

lemma is_versioned_store: "versioned_store A view ok sup lsid lkey"
  by (rule versioned_store_axioms)

end

lemma sends_multi_upsert:
  "sends dia [(InsertOnConflictUpdate (map quad [0..<length es]), quad_params s now es)] (CUpsert (rows_for s now es))"
  unfolding sends_def by (simp only: exec_batch.simps bind_stmt.simps bind_quads) simp

section \<open>The pool field\<close>

text \<open>\<open>private pool: PoolLike | null\<close>: the driver is reached only while a pool is open. The getter
  \<open>client\<close> throws inside the function given to \<open>withRetry\<close>, so it is retried like any error.\<close>

record 's pooled =
  po_open :: bool
  po_db :: 's

definition po_lift :: "('s, 'a) io \<Rightarrow> (('s, 'z) pooled_scheme, 'a) io" where
  "po_lift m p = (case m (po_db p) of (r, d) \<Rightarrow> (r, p\<lparr>po_db := d\<rparr>))"

definition po_query :: "string \<Rightarrow> (sql_batch \<Rightarrow> ('s, sql_result) io) \<Rightarrow> sql_batch \<Rightarrow> ('s pooled, sql_result) io" where
  "po_query name run b p =
     (if po_open p then po_lift (run b) p else (Inl (NotInitialised name), p))"

text \<open>\<open>init\<close>: import the driver, open a pool, create the table. \<open>close\<close>: \<open>await this.pool?.end();
  this.pool = null\<close> (if \<open>end\<close> throws, the pool stays).\<close>

definition po_init ::
  "string \<Rightarrow> retry_options option \<Rightarrow> ('s, unit) io \<Rightarrow> (sql_batch \<Rightarrow> ('s, sql_result) io) \<Rightarrow> ('s pooled, unit) io" where
  "po_init name opts import_driver run =
     thenA (po_lift import_driver)
       (\<lambda>p. thenA (base_withRetry name opts (po_lift (run [(CreateTable, [])])) ''init'') (ret ()) (p\<lparr>po_open := True\<rparr>))"

definition po_close :: "('s, unit) io \<Rightarrow> ('s pooled, unit) io" where
  "po_close pool_end p =
     (if po_open p then thenA (po_lift pool_end) (\<lambda>p'. (Inr (), p'\<lparr>po_open := False\<rparr>)) p
      else (Inr (), p\<lparr>po_open := False\<rparr>))"

lemma po_lift_eq: "po_lift m p = (r, p') \<longleftrightarrow> (\<exists>d. m (po_db p) = (r, d) \<and> p' = p\<lparr>po_db := d\<rparr>)"
  by (auto simp: po_lift_def split: prod.splits)

lemma pooled_client:
  fixes up :: "'s \<Rightarrow> bool"
  assumes "sql_client dia lsid lkey run tbl up"
  shows "sql_client dia lsid lkey (po_query name run) (\<lambda>p :: 's pooled. tbl (po_db p)) (\<lambda>p :: 's pooled. po_open p \<and> up (po_db p))"
proof (intro sql_client.intro sql_client_axioms.intro)
  show "sql_names dia lsid lkey" by (rule sql_client.axioms [OF assms])
next
  fix b res and d d' :: "'s pooled"
  assume "po_query name run b d = (Inr res, d')"
  then show "\<exists>res0. exec_batch dia b (tbl (po_db d)) = Some (res0, tbl (po_db d')) \<and> same_result res0 res"
    using sql_client.run_ok [OF assms] by (fastforce simp: po_query_def po_lift_eq split: if_splits)
next
  fix b e and d d' :: "'s pooled"
  assume "po_query name run b d = (Inl e, d')"
  then show "tbl (po_db d') = tbl (po_db d) \<or> (\<exists>res0. exec_batch dia b (tbl (po_db d)) = Some (res0, tbl (po_db d')))"
    using sql_client.run_err [OF assms] by (fastforce simp: po_query_def po_lift_eq split: if_splits)
next
  fix b and d :: "'s pooled"
  assume "po_open d \<and> up (po_db d)" and "exec_batch dia b (tbl (po_db d)) \<noteq> None"
  with sql_client.run_up [OF assms]
  show "\<exists>res d'. po_query name run b d = (Inr res, d') \<and> po_open d' \<and> up (po_db d')"
    by (fastforce simp: po_query_def po_lift_eq)
qed

text \<open>A closed pool: every call throws, and nothing reaches the server.\<close>

lemma retry_closed:
  "\<not> po_open p \<Longrightarrow> may_retry opts \<Longrightarrow>
    base_withRetry name opts (po_query drv run b) label p = (Inl (NotInitialised drv), p)"
proof -
  assume closed: "\<not> po_open p" and r: "may_retry opts"
  have same: "after_throws (po_query drv run b) n p = Some p" for n
    using closed by (induction n) (auto simp: po_query_def)
  let ?c = "resolve_retry opts"
  have "\<exists>ws. retry_loop ?c (retry_label name label) (po_query drv run b) 0 UndefinedThrown p =
      ((Inl (NotInitialised drv), p), ws) \<and> map rw_delay ws = map (\<lambda>i. backoff ?c (0 + int i)) [0..<nat (rt_retries ?c)]"
    by (rule retry_loop_gives_up [OF same]) (use closed r in \<open>simp_all add: po_query_def may_retry_def\<close>)
  then show ?thesis by (auto simp: base_withRetry_def with_retry_def with_retry_log_def)
qed

end
