(* ===== verification/SqlMemory.thy ===== *)
theory SqlMemory
  imports SqlAdapter
begin

text \<open>
  A server small enough to compute with: it keeps the table, executes batches, and follows a
  script of faults (a call that is lost before it reaches the server, or whose answer is lost
  after it was executed). It satisfies the laws of \<open>sql_client\<close> for every dialect, so these are
  laws a server can satisfy, and the witnesses of the adapters' theorems run on it.
\<close>

datatype fault = Healthy | LostBefore | LostAfter

record mem_server =
  ms_rows :: table
  ms_faults :: "fault list"

definition mem_run :: "dialect \<Rightarrow> sql_batch \<Rightarrow> (mem_server, sql_result) io" where
  "mem_run dia b d =
     (let f = (case ms_faults d of [] \<Rightarrow> Healthy | f # _ \<Rightarrow> f); d1 = d\<lparr>ms_faults := tl (ms_faults d)\<rparr> in
      if f = LostBefore then (Inl (DriverError ''connection lost''), d1)
      else (case exec_batch dia b (ms_rows d) of
          None \<Rightarrow> (Inl (DriverError ''statement rejected''), d1)
        | Some (res, t) \<Rightarrow>
            (if f = LostAfter then Inl (DriverError ''connection lost'') else Inr res, d1\<lparr>ms_rows := t\<rparr>)))"

definition mem_up :: "mem_server \<Rightarrow> bool" where
  "mem_up d \<longleftrightarrow> ms_faults d = []"

lemma same_result_refl: "same_result r r"
  by (cases r) auto

lemma mem_client:
  assumes "sql_names dia lsid lkey"
  shows "sql_client dia lsid lkey (mem_run dia) ms_rows mem_up"
  by (intro sql_client.intro sql_client_axioms.intro assms)
    (auto simp: mem_run_def mem_up_def Let_def same_result_refl split: if_splits option.splits prod.splits)

lemma id_names: "dl_coll dia = (\<lambda>s. s) \<Longrightarrow> sql_names dia lsid lkey"
  by unfold_locales auto

interpretation mem: sql_client "\<lparr>dl_coll = (\<lambda>s. s), dl_dup_error = False\<rparr>" "\<lambda>_. True" "\<lambda>_. True"
    "mem_run \<lparr>dl_coll = (\<lambda>s. s), dl_dup_error = False\<rparr>" ms_rows mem_up
  by (rule mem_client, rule id_names) simp

text \<open>On a healthy connection the first attempt succeeds.\<close>

lemma mem_run_healthy:
  "exec_batch dia b t = Some (res, t') \<Longrightarrow>
    mem_run dia b \<lparr>ms_rows = t, ms_faults = []\<rparr> = (Inr res, \<lparr>ms_rows = t', ms_faults = []\<rparr>)"
  by (simp add: mem_run_def)

lemma mem_pooled_healthy:
  assumes "exec_batch dia b t = Some (res, t')" and "may_retry opts"
  shows "base_withRetry name opts (po_query drv (mem_run dia) b) label
      \<lparr>po_open = True, po_db = \<lparr>ms_rows = t, ms_faults = []\<rparr>\<rparr> =
    (Inr res, \<lparr>po_open = True, po_db = \<lparr>ms_rows = t', ms_faults = []\<rparr>\<rparr>)"
  unfolding base_withRetry_def
  by (rule with_retry_returns [OF _ assms(2)]) (simp add: po_query_def po_lift_def mem_run_healthy [OF assms(1)])

lemma may_retry_None: "may_retry None"
  by (simp add: may_retry_def resolve_retry_def opt_field_def DEFAULT_RETRIES_def)

end
