(* ===== verification/D1Adapter.thy ===== *)
theory D1Adapter
  imports SqlMemory
begin

text \<open>
  \<^verbatim>\<open>src/adapters/cloudflare-d1-adapter.ts\<close>. The D1 binding is the parameter \<open>run\<close>: one prepared
  and bound statement (\<open>first\<close>, \<open>all\<close>, \<open>run\<close>), or the statements of \<open>batch\<close>, which is one
  transaction. D1 is SQLite: the collation of TEXT keys keeps all names apart, and each entry of
  \<open>setMany\<close> is a statement of its own, so a key may occur twice. There is nothing to open or close.
  \<open>init\<close> alone uses \<open>exec\<close>, the parameter of that name, which takes a text and not a statement.
\<close>

definition sqlite_dialect :: dialect where
  "sqlite_dialect = \<lparr>dl_coll = (\<lambda>s. s), dl_dup_error = False\<rparr>"

definition d1_run :: "(sql_batch \<Rightarrow> ('s, sql_result) io) \<Rightarrow> sql_stmt \<Rightarrow> sql_param list \<Rightarrow> ('s, sql_result) io" where
  "d1_run run st ps = run [(st, ps)]"

definition d1_withRetry :: "retry_options option \<Rightarrow> ('s, 'a) io \<Rightarrow> string \<Rightarrow> ('s, 'a) io" where
  "d1_withRetry opts fn label = base_withRetry ''cloudflare-d1'' opts fn label"

definition d1_get ::
  "retry_options option \<Rightarrow> (sql_batch \<Rightarrow> ('s, sql_result) io) \<Rightarrow> string \<Rightarrow> string \<Rightarrow>
    ('s, session_record option) io" where
  "d1_get opts run sessionId key =
     bindA (d1_withRetry opts (d1_run run (SelectByKey 1 2) [PStr sessionId, PStr key]) ''get'')
       (\<lambda>res. ret (first_record (rows_of res)))"

definition d1_getMany ::
  "retry_options option \<Rightarrow> (sql_batch \<Rightarrow> ('s, sql_result) io) \<Rightarrow> string \<Rightarrow> string list \<Rightarrow>
    ('s, (string \<times> session_record) list) io" where
  "d1_getMany opts run sessionId keys =
     (if keys = [] then ret []
      else let placeholders = qmarks 2 (length keys) in
        bindA (d1_withRetry opts (d1_run run (SelectByKeys 1 (InParams placeholders)) (PStr sessionId # map PStr keys)) ''getMany'')
        (\<lambda>res. ret (record_map (rows_of res))))"

definition d1_upsert :: "string \<Rightarrow> int \<Rightarrow> string \<times> jstr \<Rightarrow> sql_stmt \<times> sql_param list" where
  "d1_upsert sessionId now = (\<lambda>(key, value).
     (InsertOnConflictUpdate [(1, 2, 3, 4)], [PStr sessionId, PStr key, PText value, PInt now]))"

definition d1_setMany ::
  "retry_options option \<Rightarrow> (sql_batch \<Rightarrow> ('s, sql_result) io) \<Rightarrow> string \<Rightarrow> (string \<times> jstr) list \<Rightarrow> int \<Rightarrow>
    ('s, unit) io" where
  "d1_setMany opts run sessionId entries now =
     (if entries = [] then ret ()
      else
        (let statements = map (d1_upsert sessionId now) entries
         in thenA (d1_withRetry opts (run statements) ''setMany'') (ret ())))"

definition d1_set ::
  "retry_options option \<Rightarrow> (sql_batch \<Rightarrow> ('s, sql_result) io) \<Rightarrow> string \<Rightarrow> string \<Rightarrow> jstr \<Rightarrow> int \<Rightarrow>
    ('s, unit) io" where
  "d1_set opts run sessionId key value now = d1_setMany opts run sessionId [(key, value)] now"

definition d1_deleteMany ::
  "retry_options option \<Rightarrow> (sql_batch \<Rightarrow> ('s, sql_result) io) \<Rightarrow> string \<Rightarrow> string list \<Rightarrow> ('s, unit) io" where
  "d1_deleteMany opts run sessionId keys =
     (if keys = [] then ret ()
      else let placeholders = qmarks 2 (length keys) in
        thenA (d1_withRetry opts (d1_run run (DeleteByKeys 1 (InParams placeholders)) (PStr sessionId # map PStr keys)) ''deleteMany'')
        (ret ()))"

definition d1_delete ::
  "retry_options option \<Rightarrow> (sql_batch \<Rightarrow> ('s, sql_result) io) \<Rightarrow> string \<Rightarrow> string \<Rightarrow> ('s, unit) io" where
  "d1_delete opts run sessionId key = d1_deleteMany opts run sessionId [key]"

definition d1_getAllKeys ::
  "retry_options option \<Rightarrow> (sql_batch \<Rightarrow> ('s, sql_result) io) \<Rightarrow> string \<Rightarrow> ('s, string list) io" where
  "d1_getAllKeys opts run sessionId =
     bindA (d1_withRetry opts (d1_run run (SelectKeys 1) [PStr sessionId]) ''getAllKeys'')
       (\<lambda>res. ret (strs_of res))"

definition d1_deleteSession ::
  "retry_options option \<Rightarrow> (sql_batch \<Rightarrow> ('s, sql_result) io) \<Rightarrow> string \<Rightarrow> ('s, unit) io" where
  "d1_deleteSession opts run sessionId =
     thenA (d1_withRetry opts (d1_run run (DeleteBySession 1) [PStr sessionId]) ''deleteSession'') (ret ())"

definition d1_listSessions ::
  "retry_options option \<Rightarrow> (sql_batch \<Rightarrow> ('s, sql_result) io) \<Rightarrow> ('s, string list) io" where
  "d1_listSessions opts run =
     bindA (d1_withRetry opts (d1_run run SelectDistinctSessions []) ''listSessions'') (\<lambda>res. ret (strs_of res))"

definition d1_sessionExists ::
  "retry_options option \<Rightarrow> (sql_batch \<Rightarrow> ('s, sql_result) io) \<Rightarrow> string \<Rightarrow> ('s, bool) io" where
  "d1_sessionExists opts run sessionId =
     bindA (d1_withRetry opts (d1_run run (SelectOneBySession 1) [PStr sessionId]) ''sessionExists'')
       (\<lambda>res. ret (strs_of res \<noteq> []))"

text \<open>The text \<open>init\<close> hands to \<open>exec\<close>, line by line, with the tabs of the source.\<close>

definition SESSIONS_TABLE :: string where
  "SESSIONS_TABLE = ''baileys_sessions''"

definition text_line :: "nat \<Rightarrow> string \<Rightarrow> string" where
  "text_line tabs l = CHR 0x0A # replicate tabs (CHR 0x09) @ l"

definition d1_schema :: string where
  "d1_schema = concat
     [text_line 5 (''CREATE TABLE IF NOT EXISTS '' @ SESSIONS_TABLE @ '' (''),
      text_line 6 ''session_id TEXT NOT NULL,'',
      text_line 6 ''key TEXT NOT NULL,'',
      text_line 6 ''value TEXT NOT NULL,'',
      text_line 6 ''updated_at INTEGER NOT NULL,'',
      text_line 6 ''version INTEGER NOT NULL DEFAULT 1,'',
      text_line 6 ''PRIMARY KEY (session_id, key)'',
      text_line 5 '')'',
      text_line 4 []]"

definition d1_init :: "retry_options option \<Rightarrow> (string \<Rightarrow> ('s, unit) io) \<Rightarrow> ('s, unit) io" where
  "d1_init opts exec = thenA (d1_withRetry opts (exec d1_schema) ''init'') (ret ())"

definition d1_close :: "('s, unit) io" where
  "d1_close = ret ()"

definition d1_adapter ::
  "retry_options option \<Rightarrow> (sql_batch \<Rightarrow> ('s, sql_result) io) \<Rightarrow> (string \<Rightarrow> ('s, unit) io) \<Rightarrow> 's adapter" where
  "d1_adapter opts run exec =
     \<lparr>ad_name = ''cloudflare-d1'', ad_init = d1_init opts exec,
      ad_get = d1_get opts run, ad_getMany = d1_getMany opts run,
      ad_set = d1_set opts run, ad_setMany = d1_setMany opts run,
      ad_delete = d1_delete opts run, ad_deleteMany = d1_deleteMany opts run,
      ad_getAllKeys = d1_getAllKeys opts run, ad_deleteSession = d1_deleteSession opts run,
      ad_listSessions = d1_listSessions opts run, ad_sessionExists = d1_sessionExists opts run,
      ad_close = d1_close\<rparr>"

lemmas d1_defs = d1_adapter_def d1_get_def d1_getMany_def d1_setMany_def d1_set_def d1_upsert_def d1_deleteMany_def d1_delete_def
  d1_getAllKeys_def d1_deleteSession_def d1_listSessions_def d1_sessionExists_def d1_run_def d1_withRetry_def

section \<open>The statements mean what the adapter promises\<close>

lemma d1_sends:
  "sends dia [(SelectByKey 1 2, [PStr s, PStr k])] (CGet s k)"
  "sends dia [(SelectByKeys 1 (InParams (qmarks 2 (length ks))), PStr s # map PStr ks)] (CGetIn s ks)"
  "sends dia [(DeleteByKeys 1 (InParams (qmarks 2 (length ks))), PStr s # map PStr ks)] (CDeleteIn s ks)"
  "sends dia [(SelectKeys 1, [PStr s])] (CKeys s)"
  "sends dia [(DeleteBySession 1, [PStr s])] (CWipe s)"
  "sends dia [(SelectDistinctSessions, [])] CSessions"
  "sends dia [(SelectOneBySession 1, [PStr s])] (CExists s)"
  by (simp_all add: sends_def str_param_def bind_qmarks del: bind_keys.simps)

lemma d1_batch:
  "sends sqlite_dialect (map (d1_upsert s now) es) (CUpsert (rows_for s now es))"
  unfolding sends_def
proof
  fix t
  show "exec_batch sqlite_dialect (map (d1_upsert s now) es) t = exec_cmd sqlite_dialect (CUpsert (rows_for s now es)) t"
  proof (induction es arbitrary: t)
    case (Cons e es)
    obtain k v where e: "e = (k, v)" by fastforce
    let ?t = "upsert_row (\<lambda>s. s) (s, k, v, now) t"
    have "exec_batch sqlite_dialect (map (d1_upsert s now) (e # es)) t =
        (if es = [] then Some (RDone, ?t) else exec_batch sqlite_dialect (map (d1_upsert s now) es) ?t)"
      by (cases es) (simp_all add: e d1_upsert_def sqlite_dialect_def str_param_def text_param_def int_param_def)
    with Cons.IH [of ?t] show ?case by (simp add: e rows_for_def sqlite_dialect_def)
  qed (simp add: rows_for_def sqlite_dialect_def)
qed

lemma d1_is_sql_adapter:
  assumes "sql_client sqlite_dialect lsid lkey run tbl up" and "may_retry opts"
  shows "sql_adapter sqlite_dialect lsid lkey run tbl up (d1_adapter opts run exec) ''cloudflare-d1'' opts
    (\<lambda>s k. [(SelectByKey 1 2, [PStr s, PStr k])])
    (\<lambda>s ks. [(SelectByKeys 1 (InParams (qmarks 2 (length ks))), PStr s # map PStr ks)])
    (\<lambda>s es now. map (d1_upsert s now) es)
    (\<lambda>s ks. [(DeleteByKeys 1 (InParams (qmarks 2 (length ks))), PStr s # map PStr ks)])
    (\<lambda>s. [(SelectKeys 1, [PStr s])]) (\<lambda>s. [(DeleteBySession 1, [PStr s])])
    [(SelectDistinctSessions, [])] (\<lambda>s. [(SelectOneBySession 1, [PStr s])])"
  by (intro sql_adapter.intro sql_adapter_axioms.intro assms d1_sends d1_batch) (simp_all add: d1_defs Let_def query_ok_return)

text \<open>A binding that executes the text of \<open>init\<close> as the one statement it is meant to be.\<close>

definition mem_exec :: "string \<Rightarrow> (mem_server, unit) io" where
  "mem_exec sql =
     (if sql = d1_schema then thenA (mem_run sqlite_dialect [(CreateTable, [])]) (ret ()) else raise (DriverError ''syntax error''))"

interpretation d1_mem: sql_adapter sqlite_dialect "\<lambda>_. True" "\<lambda>_. True" "mem_run sqlite_dialect" ms_rows mem_up
    "d1_adapter None (mem_run sqlite_dialect) mem_exec" "''cloudflare-d1''" None
    "\<lambda>s k. [(SelectByKey 1 2, [PStr s, PStr k])]"
    "\<lambda>s ks. [(SelectByKeys 1 (InParams (qmarks 2 (length ks))), PStr s # map PStr ks)]"
    "\<lambda>s es now. map (d1_upsert s now) es"
    "\<lambda>s ks. [(DeleteByKeys 1 (InParams (qmarks 2 (length ks))), PStr s # map PStr ks)]"
    "\<lambda>s. [(SelectKeys 1, [PStr s])]" "\<lambda>s. [(DeleteBySession 1, [PStr s])]"
    "[(SelectDistinctSessions, [])]" "\<lambda>s. [(SelectOneBySession 1, [PStr s])]"
  by (intro d1_is_sql_adapter mem_client id_names may_retry_None) (simp add: sqlite_dialect_def)

section \<open>What \<open>exec\<close> does with the text\<close>

text \<open>D1 documents that \<open>exec\<close> takes one or several queries separated by line ends, executes them one after
  the other and stops at the first that fails. A query whose parentheses are not closed is incomplete, which
  SQLite rejects without touching a row (in texts without quotes, where parentheses are parentheses).\<close>

fun sql_lines :: "string \<Rightarrow> string list" where
  "sql_lines [] = [[]]"
| "sql_lines (c # cs) =
     (if c = CHR 0x0A then [] # sql_lines cs
      else (case sql_lines cs of [] \<Rightarrow> [[c]] | l # ls \<Rightarrow> (c # l) # ls))"

definition blank_line :: "string \<Rightarrow> bool" where
  "blank_line l \<longleftrightarrow> set l \<subseteq> {CHR '' '', CHR 0x09}"

fun run_lines :: "(string \<Rightarrow> ('s, unit) io) \<Rightarrow> string list \<Rightarrow> ('s, unit) io" where
  "run_lines query [] = ret ()"
| "run_lines query (l # ls) = (if blank_line l then run_lines query ls else thenA (query l) (run_lines query ls))"

definition count_char :: "char \<Rightarrow> string \<Rightarrow> nat" where
  "count_char c q = length (filter (\<lambda>x. x = c) q)"

text \<open>No quotes (single, double, back, bracket), no comments, and more parentheses opened than closed.\<close>

definition unclosed :: "string \<Rightarrow> bool" where
  "unclosed q \<longleftrightarrow> set q \<inter> {CHR 0x27, CHR 0x22, CHR 0x60, CHR 0x5B, CHR 0x2D, CHR 0x2F} = {} \<and> count_char (CHR 0x29) q < count_char (CHR 0x28) q"

locale d1_exec =
  fixes exec :: "string \<Rightarrow> ('s, unit) io" and query :: "string \<Rightarrow> ('s, unit) io" and tbl :: "'s \<Rightarrow> table"
  assumes exec_lines: "exec sql = run_lines query (sql_lines sql)"
    and query_unclosed: "unclosed q \<Longrightarrow> \<exists>e d'. query q d = (Inl e, d') \<and> tbl d' = tbl d"
begin

lemma unclosed_first:
  assumes "sql_lines sql = l0 # l # ls" and "blank_line l0" and "\<not> blank_line l" and "unclosed l"
  shows "\<exists>e d'. exec sql d = (Inl e, d') \<and> tbl d' = tbl d"
  using query_unclosed [OF assms(4), of d] assms(1-3) by (auto simp: exec_lines thenA_def bindA_def)

text \<open>The first line of the text that is not blank ends in an open parenthesis.\<close>

lemma schema_rejected: "\<exists>e d'. exec d1_schema d = (Inl e, d') \<and> tbl d' = tbl d"
proof (rule unclosed_first)
  show "sql_lines d1_schema = [] # hd (tl (sql_lines d1_schema)) # tl (tl (sql_lines d1_schema))" by code_simp
  show "blank_line []" "\<not> blank_line (hd (tl (sql_lines d1_schema)))" "unclosed (hd (tl (sql_lines d1_schema)))" by code_simp+
qed

lemma init_rejected: "\<exists>e d'. d1_init opts exec d = (Inl e, d') \<and> tbl d' = tbl d"
proof -
  let ?m = "exec d1_schema"
  obtain r d' where run: "with_retry opts (retry_label ''cloudflare-d1'' ''init'') ?m d = (r, d')" by fastforce
  have "case r of Inl e \<Rightarrow> tbl d' = tbl d | Inr x \<Rightarrow> False"
  proof (rule with_retry_rule [OF _ refl run])
    fix s r s'
    assume "tbl s = tbl d" and "?m s = (r, s')"
    with schema_rejected [of s] show "case r of Inl e \<Rightarrow> tbl s' = tbl d | Inr x \<Rightarrow> False" by auto
  qed
  then obtain e where "r = Inl e" "tbl d' = tbl d" by (cases r) auto
  with run show ?thesis by (simp add: d1_init_def d1_withRetry_def base_withRetry_def thenA_def bindA_def)
qed

end

text \<open>A binding that works as documented, on the server in memory.\<close>

definition mem_query :: "string \<Rightarrow> (mem_server, unit) io" where
  "mem_query q =
     (if startsWith (dropWhile (\<lambda>c. c = CHR 0x09) q) ''CREATE TABLE '' \<and> \<not> unclosed q
      then thenA (mem_run sqlite_dialect [(CreateTable, [])]) (ret ()) else raise (DriverError ''syntax error''))"

definition mem_exec_lines :: "string \<Rightarrow> (mem_server, unit) io" where
  "mem_exec_lines sql = run_lines mem_query (sql_lines sql)"

interpretation mem_d1_exec: d1_exec mem_exec_lines mem_query ms_rows
  by unfold_locales (simp_all add: mem_exec_lines_def mem_query_def)

section \<open>Properties\<close>

text \<open>Over any D1 binding that executes the statements, a batch as one transaction, the D1
  adapter is a versioned store of records: every read returns what is stored, every write that
  returns has stored its entries, the last one winning where a key occurs twice, with the time
  given and a higher version; a write that throws did all or nothing.\<close>

lemma d1_refines_store:
  assumes "sql_client sqlite_dialect lsid lkey run tbl up" and "may_retry opts"
  shows "versioned_store (d1_adapter opts run exec) (store_view sqlite_dialect lsid lkey tbl) (store_ok lsid lkey tbl) up lsid lkey"
  by (rule sql_adapter.is_versioned_store [OF d1_is_sql_adapter [OF assms]])

lemma d1_refines_store_witness:
  "versioned_store (d1_adapter None (mem_run sqlite_dialect) mem_exec) (store_view sqlite_dialect (\<lambda>_. True) (\<lambda>_. True) ms_rows)
    (store_ok (\<lambda>_. True) (\<lambda>_. True) ms_rows) mem_up (\<lambda>_. True) (\<lambda>_. True)"
  by (rule d1_refines_store [OF mem_client may_retry_None]) (rule id_names, simp add: sqlite_dialect_def)

end
