(* ===== verification/CacheCoherence.thy ===== *)
theory CacheCoherence
  imports CacheManager D1Adapter
begin

text \<open>
  What the cache manager promises, over any store and any L2 cache that keep their contracts, and
  an instance of the contracts to compute with: the D1 adapter and the two Redis caches over the
  in-memory server and client. A world is coherent when L1 and L2 hold, for legal names, only
  values that are stored; session ids must be free of colons, since the composite key is
  \<open>sessionId:key\<close>.
\<close>

section \<open>A stack to compute with\<close>

definition colon_free :: "string \<Rightarrow> bool" where
  "colon_free s \<longleftrightarrow> CHR '':'' \<notin> set s"

abbreviation any_name :: "string \<Rightarrow> bool" where
  "any_name \<equiv> \<lambda>_. True"

definition mem_adapter :: "mem_server adapter" where
  "mem_adapter = d1_adapter None (mem_run sqlite_dialect) mem_exec"

abbreviation mem_view :: "mem_server \<Rightarrow> db_view" where
  "mem_view \<equiv> store_view sqlite_dialect colon_free any_name ms_rows"

abbreviation mem_ok :: "mem_server \<Rightarrow> bool" where
  "mem_ok \<equiv> store_ok colon_free any_name ms_rows"

abbreviation mem_http :: "mem_kv redis_cache option" where
  "mem_http \<equiv> Some (http_redis mem_redis_client)"

abbreviation mem_tcp :: "mem_kv tcp_cache redis_cache option" where
  "mem_tcp \<equiv> Some (tcp_redis mem_redis_client)"

lemma mem_versioned: "versioned_store mem_adapter mem_view mem_ok mem_up colon_free any_name"
  unfolding mem_adapter_def
  by (rule sql_adapter.is_versioned_store [OF d1_is_sql_adapter [OF mem_client may_retry_None]])
    (rule id_names, simp add: sqlite_dialect_def)

interpretation mem_stack: cache_stack mem_adapter mem_view mem_ok mem_up colon_free any_name mem_http
    mem_kv.l2h mem_kv.uph
  by (intro cache_stack.intro cache_stack_axioms.intro versioned_store.axioms(1) [OF mem_versioned])
    (auto simp: colon_free_def intro: mem_kv.http_store)

interpretation mem_tcp_stack: cache_stack mem_adapter mem_view mem_ok mem_up colon_free any_name mem_tcp
    "\<lambda>s. mem_kv.l2h (tc_client s)" "\<lambda>s. mem_kv.uph (tc_client s)"
  by (intro cache_stack.intro cache_stack_axioms.intro versioned_store.axioms(1) [OF mem_versioned])
    (auto simp: colon_free_def intro: mem_kv.tcp_store)

text \<open>One stored row, cold caches.\<close>

definition mem_world :: "(mem_server, mem_kv) world" where
  "mem_world = \<lparr>w_l1 = mc_new None None None, w_l2 = \<lparr>mk_store = [], mk_fails = []\<rparr>,
     w_db = \<lparr>ms_rows = [\<lparr>row_session_id = ''bot'', row_key = ''creds'', row_value = lit ''v1'',
       row_updated_at = 5, row_version = 3\<rparr>], ms_faults = []\<rparr>, w_now = 10, w_log = []\<rparr>"

lemma mc_store_new [simp]: "mc_store (mc_new t n b) = []"
  by (simp add: mc_new_def Let_def)

lemma mem_world_coherent: "coherent mem_view mem_ok colon_free any_name mem_kv.l2h mem_http X1 X2 mem_world"
  by (simp add: coherent_def mem_world_def mc_wf_new agree_def l1_map_def l2_map_def
      mem_kv.l2h_def payloads_def store_ok_def table_ok_def colon_free_def)

text \<open>One outdated entry in an otherwise empty L1.\<close>

lemma mem_world_stale:
  assumes "colon_free s"
  shows "coherent mem_view mem_ok colon_free any_name mem_kv.l2h mem_http {(s, k)} {} (l1_set (cacheKey s k) v n mem_world)"
proof -
  let ?w = "l1_set (cacheKey s k) v n mem_world"
  have le: "l1_map ?w \<subseteq>\<^sub>m (l1_map mem_world)(cacheKey s k \<mapsto> v)"
    by (rule l1_set_map) (simp add: mem_world_def mc_wf_new)
  have "l1_map mem_world = Map.empty" by (simp add: l1_map_def mem_world_def fun_eq_iff)
  with le have le: "l1_map ?w \<subseteq>\<^sub>m Map.empty(cacheKey s k \<mapsto> v)" by simp
  have "agree colon_free any_name {(s, k)} (Map.empty(cacheKey s k \<mapsto> v)) ref" for ref
    using assms by (auto simp: agree_def colon_free_def cacheKey_inject split: if_splits)
  from agree_le [OF this le] mem_world_coherent [of "{}" "{}"] show ?thesis
    by (simp add: coherent_def l2_map_def [abs_def])
qed

section \<open>Reads\<close>

text \<open>C3. A read through the three levels is right: in a coherent world \<open>get\<close> returns exactly the
  stored value of the key (or null when there is none), whichever level answers and whatever Redis
  does; it changes no stored row and leaves the caches coherent; and it throws only if the
  database does.\<close>

theorem cache_get_correct:
  assumes "cache_stack A view ivr up lsid lkey l2 l2v rup"
    and "coherent view ivr lsid lkey l2v l2 {} {} w" and "lsid s" and "lkey k"
    and "cm_get A l2 s k w = (r, w')"
  shows "(\<forall>x. r = Inr x \<longrightarrow> x = value_at (view (w_db w)) s k) \<and> view (w_db w') = view (w_db w) \<and>
    coherent view ivr lsid lkey l2v l2 {} {} w' \<and> (up (w_db w) \<longrightarrow> (\<exists>x. r = Inr x))"
  using cache_stack.get_reads [OF assms(1-4)] assms(5)
  by (auto simp: cache_stack.reads_ok_def [OF assms(1)])

theorem cache_get_correct_witness:
  "\<exists>x. fst (cm_get mem_adapter mem_http ''bot'' ''creds'' mem_world) = Inr x"
  using cache_get_correct [OF mem_stack.cache_stack_axioms mem_world_coherent _ _ surjective_pairing, of "''bot''" "''creds''"]
  by (auto simp: colon_free_def mem_world_def mem_up_def)

text \<open>C5. A batched read is right: in a coherent world \<open>getMany\<close> returns a map that holds, for each
  key asked for, its stored value, and nothing else; it changes no stored row, leaves the caches
  coherent, and throws only if the database does.\<close>

theorem cache_getMany_correct:
  assumes "cache_stack A view ivr up lsid lkey l2 l2v rup"
    and "coherent view ivr lsid lkey l2v l2 {} {} w" and "lsid s" and "\<forall>k \<in> set ks. lkey k"
    and "cm_getMany A l2 s ks w = (r, w')"
  shows "(\<forall>m. r = Inr m \<longrightarrow> distinct (keys_of m) \<and>
        map_of m = (\<lambda>k. if k \<in> set ks then value_at (view (w_db w)) s k else None)) \<and>
    view (w_db w') = view (w_db w) \<and> coherent view ivr lsid lkey l2v l2 {} {} w' \<and>
    (up (w_db w) \<longrightarrow> (\<exists>m. r = Inr m))"
  using cache_stack.getMany_reads [OF assms(1-4)] assms(5)
  by (auto simp: cache_stack.reads_ok_def [OF assms(1)])

theorem cache_getMany_correct_witness:
  "\<exists>x. fst (cm_getMany mem_adapter mem_http ''bot'' [''creds'', ''x''] mem_world) = Inr x"
  using cache_getMany_correct [OF mem_stack.cache_stack_axioms mem_world_coherent _ _ surjective_pairing,
      of "''bot''" "[''creds'', ''x'']"]
  by (auto simp: colon_free_def mem_world_def mem_up_def)

section \<open>Other instances\<close>

text \<open>C18. Invalidation over pub/sub works: if another process has written a key, so that this
  process' L1 may hold an outdated value for it, then once the message for that key has been
  delivered the world is coherent again, and the next read returns the value now stored.\<close>

theorem cache_invalidation_restores:
  assumes "cache_stack A view ivr up lsid lkey l2 l2v rup"
    and "coherent view ivr lsid lkey l2v l2 {(s, k)} {} w" and "lsid s" and "lkey k"
    and "cm_get A l2 s k (cm_on_invalidation (cacheKey s k) w) = (Inr x, w')"
  shows "x = value_at (view (w_db w)) s k \<and> coherent view ivr lsid lkey l2v l2 {} {} w'"
proof -
  let ?w = "cm_on_invalidation (cacheKey s k) w"
  have "coherent view ivr lsid lkey l2v l2 {} {} ?w"
    using cache_stack.on_invalidation_coh [OF assms(1-3), of k] by simp
  from cache_stack.get_reads [OF assms(1) this assms(3,4)] assms(5)
  show ?thesis by (auto simp: cache_stack.reads_ok_def [OF assms(1)] cm_on_invalidation_def)
qed

theorem cache_invalidation_restores_witness:
  "fst (cm_get mem_adapter mem_http ''bot'' ''creds''
      (cm_on_invalidation (cacheKey ''bot'' ''creds'') (l1_set (cacheKey ''bot'' ''creds'') (lit ''old'') 1 mem_world))) =
    Inr (value_at (mem_view (w_db mem_world)) ''bot'' ''creds'')"
proof -
  let ?w = "l1_set (cacheKey ''bot'' ''creds'') (lit ''old'') 1 mem_world"
  have s: "colon_free ''bot''" by (simp add: colon_free_def)
  have up: "mem_up (w_db (cm_on_invalidation (cacheKey ''bot'' ''creds'') ?w))"
    by (simp add: cm_on_invalidation_def mem_world_def mem_up_def)
  have "coherent mem_view mem_ok colon_free any_name mem_kv.l2h mem_http {} {} (cm_on_invalidation (cacheKey ''bot'' ''creds'') ?w)"
    using mem_stack.on_invalidation_coh [OF mem_world_stale [OF s] s, of "''creds''" "''creds''" "lit ''old''" 1] by simp
  from mem_stack.get_returns [OF this s TrueI up] obtain x w' where
    g: "cm_get mem_adapter mem_http ''bot'' ''creds'' (cm_on_invalidation (cacheKey ''bot'' ''creds'') ?w) = (Inr x, w')" by blast
  from cache_invalidation_restores [OF mem_stack.cache_stack_axioms mem_world_stale [OF s] s TrueI g] g
  show ?thesis by simp
qed

text \<open>C28. The version check of HTTP mode works: when L1 holds an outdated value of a key and L2
  answers with another version, \<open>get\<close> does not return the outdated value; a value it returns is
  the one stored, and the world is coherent again.\<close>

theorem cache_http_version_check:
  assumes "cache_stack A view ivr up lsid lkey l2 l2v rup"
    and "coherent view ivr lsid lkey l2v l2 {(s, k)} {} w" and "lsid s" and "lkey k" and "is_http l2"
    and "l1_get (cacheKey s k) w = (Some (v, n), w1)"
    and "safeL2Get l2 (cacheKey s k) w1 = (Some (v', n'), w2)" and "n' \<noteq> n"
    and "cm_get A l2 s k w = (Inr x, w')"
  shows "x = value_at (view (w_db w)) s k \<and> coherent view ivr lsid lkey l2v l2 {} {} w'"
proof -
  note l1 = cache_stack.l1_get_coh [OF assms(1,2,6)]
  note c2 = cache_stack.safeL2Get_coh(1) [OF assms(1) l1(1) assms(7)]
  have "coherent view ivr lsid lkey l2v l2 {} {} (l1_delete (cacheKey s k) w2)"
    using cache_stack.l1_delete_coh [OF assms(1) c2 assms(3), of k] by simp
  from cache_stack.get_l2_ok [OF assms(1) this assms(3,4)]
  have "cache_stack.reads_ok view ivr up lsid lkey l2 l2v (cm_get_l2 A l2 s k) (l1_delete (cacheKey s k) w2)
      (\<lambda>x. x = value_at (view (w_db (l1_delete (cacheKey s k) w2))) s k)" .
  moreover have "cm_get_l2 A l2 s k (l1_delete (cacheKey s k) w2) = (Inr x, w')"
    using assms(5-9) by (simp add: cm_get_def Let_def)
  moreover have "w_db w2 = w_db w" using safeL2Get_keep [OF assms(7)] l1(2) by simp
  ultimately show ?thesis by (simp add: cache_stack.reads_ok_def [OF assms(1)])
qed

text \<open>The same world after another instance wrote: L2 has the stored value, L1 an outdated one.\<close>

definition mem_world2 :: "(mem_server, mem_kv) world" where
  "mem_world2 = mem_world\<lparr>w_l2 := \<lparr>mk_store = [(cacheKey ''bot'' ''creds'', stringify_payload (lit ''v1'') 3)], mk_fails = []\<rparr>\<rparr>"

lemma mem_world2_stale:
  "coherent mem_view mem_ok colon_free any_name mem_kv.l2h mem_http {(''bot'', ''creds'')} {}
    (l1_set (cacheKey ''bot'' ''creds'') v n mem_world2)"
proof -
  let ?w = "l1_set (cacheKey ''bot'' ''creds'') v n mem_world2"
  have "agree colon_free any_name {} (l2_map mem_kv.l2h ?w) (value_at (mem_view (w_db mem_world)))"
    by (auto simp: agree_def l2_map_def mem_kv.l2h_def payloads_def mem_world2_def payload_roundtrip colon_free_def
        cacheKey_inject value_at_def store_view_def row_view_def mem_world_def row_matches_def sqlite_dialect_def
        row_record_def split: if_splits)
  moreover have "l1_map ?w = l1_map (l1_set (cacheKey ''bot'' ''creds'') v n mem_world)"
    by (rule ext) (simp add: l1_map_def l1_set_def mem_world2_def)
  moreover have "w_db ?w = w_db mem_world" "w_l1 ?w = w_l1 (l1_set (cacheKey ''bot'' ''creds'') v n mem_world)"
    by (simp_all add: mem_world2_def l1_set_def)
  ultimately show ?thesis
    using mem_world_stale [of "''bot''" "''creds''" v n] by (simp add: coherent_def colon_free_def)
qed

lemma l1_get_set_fresh:
  assumes "mc_store (w_l1 w) = []" and "mc_currentBytes (w_l1 w) = 0" and "0 < mc_ttlMs (w_l1 w)"
    and "1 \<le> mc_maxEntries (w_l1 w)" and "int (byteLength v) \<le> mc_maxBytes (w_l1 w)"
  shows "\<exists>c. l1_get ck (l1_set ck v n w) = (Some (v, n), w\<lparr>w_l1 := c\<rparr>)"
proof -
  let ?c = "mc_before_evict ck v n (w_now w) (w_l1 w)"
  have set: "mc_set ck v n (w_now w) (w_l1 w) = ?c"
    unfolding mc_set_eq by (rule evict_stop) (use assms in \<open>simp add: mc_over_def mc_before_evict_def mc_entry_def mc_delete_def\<close>)
  have "map_of (mc_store ?c) ck = Some (mc_entry v n (w_now w) (w_l1 w))" using assms(1) by simp
  then show ?thesis
    using assms(3) by (auto simp: l1_get_def l1_set_def set mc_get_def mc_entry_def)
qed

theorem cache_http_version_check_witness:
  "fst (cm_get mem_adapter mem_http ''bot'' ''creds'' (l1_set (cacheKey ''bot'' ''creds'') [] 1 mem_world2)) =
    Inr (value_at (mem_view (w_db mem_world2)) ''bot'' ''creds'')"
proof -
  obtain c where g: "l1_get (cacheKey ''bot'' ''creds'') (l1_set (cacheKey ''bot'' ''creds'') [] 1 mem_world2) =
      (Some ([], 1), mem_world2\<lparr>w_l1 := c\<rparr>)"
    using l1_get_set_fresh [of mem_world2 "[]" "cacheKey ''bot'' ''creds''" 1]
    by (auto simp: mem_world2_def mem_world_def mc_new_def Let_def DEFAULT_TTL_MS_def DEFAULT_MAX_ENTRIES_def DEFAULT_MAX_BYTES_def)
  have s: "safeL2Get mem_http (cacheKey ''bot'' ''creds'') (mem_world2\<lparr>w_l1 := c\<rparr>) =
      (Some (lit ''v1'', 3), mem_world2\<lparr>w_l1 := c\<rparr>)"
    by (simp add: safeL2Get_def http_redis_def http_get_def mem_redis_client_def mk_call_def bindA_def mem_world2_def
        decode_raw_def payload_roundtrip payload_nonempty)
  let ?w = "l1_set (cacheKey ''bot'' ''creds'') [] 1 mem_world2"
  have b: "colon_free ''bot''" by (simp add: colon_free_def)
  have h: "is_http mem_http" by (simp add: is_http_def http_redis_def)
  have "cm_get mem_adapter mem_http ''bot'' ''creds'' ?w =
      cm_get_l2 mem_adapter mem_http ''bot'' ''creds'' (l1_delete (cacheKey ''bot'' ''creds'') (mem_world2\<lparr>w_l1 := c\<rparr>))"
    using g s h by (simp add: cm_get_def Let_def)
  moreover have "\<exists>x w'. cm_get_l2 mem_adapter mem_http ''bot'' ''creds''
      (l1_delete (cacheKey ''bot'' ''creds'') (mem_world2\<lparr>w_l1 := c\<rparr>)) = (Inr x, w')"
    by (simp add: cm_get_l2_def Let_def safeL2Get_def http_redis_def http_get_def mem_redis_client_def mk_call_def bindA_def
        mem_world2_def decode_raw_def payload_roundtrip payload_nonempty)
  ultimately obtain x w' where r: "cm_get mem_adapter mem_http ''bot'' ''creds'' ?w = (Inr x, w')" by auto
  from cache_http_version_check [OF mem_stack.cache_stack_axioms mem_world2_stale b TrueI h g s _ r] r
  show ?thesis by simp
qed

section \<open>Where L2 outlives a write\<close>

text \<open>C29. A write whose L2 update fails leaves an outdated value that keeps being served: the
  database has the new value, \<open>onWritten\<close> could not set it in Redis (the failure is logged and
  swallowed), and the manager's own invalidation message, delivered back to it, drops its L1 entry;
  the next \<open>get\<close> then finds the old payload in L2, which has no expiry, and returns the old value
  whatever the database holds.\<close>

theorem cache_stale_after_l2_failure:
  "let w = \<lparr>w_l1 = mc_new ttl maxEntries maxBytes,
            w_l2 = \<lparr>tc_client = \<lparr>mk_store = [(cacheKey s k, stringify_payload old n)], mk_fails = [True]\<rparr>,
                     tc_subscriber = True, tc_listening = True\<rparr>,
            w_db = d, w_now = now, w_log = []\<rparr>;
       w1 = cm_onWritten mem_tcp s k new n' w;
       w2 = cm_on_invalidation (cacheKey s k) w1
   in w_log w1 = [''redis cache write failed, database write already succeeded so this is non-fatal''] \<and>
      fst (cm_get A mem_tcp s k w2) = Inr (Some old)"
proof -
  let ?c = "\<lparr>mk_store = [(cacheKey s k, stringify_payload old n)], mk_fails = [True]\<rparr>"
  let ?w = "\<lparr>w_l1 = mc_new ttl maxEntries maxBytes, w_l2 = \<lparr>tc_client = ?c, tc_subscriber = True, tc_listening = True\<rparr>,
    w_db = d, w_now = now, w_log = []\<rparr>"
  let ?w1 = "cm_onWritten mem_tcp s k new n' ?w"
  have w1: "?w1 = ?w\<lparr>w_l1 := mc_set (cacheKey s k) new n' now (mc_new ttl maxEntries maxBytes),
      w_l2 := \<lparr>tc_client = ?c\<lparr>mk_fails := []\<rparr>, tc_subscriber = True, tc_listening = True\<rparr>,
      w_log := [''redis cache write failed, database write already succeeded so this is non-fatal'']\<rparr>"
    by (simp add: cm_onWritten_def safeL2Set_def publisher_def l2_catch_def tcp_redis_def tcp_set_def truthy_ttl_def
        tcp_publishInvalidation_def tc_lift_def mem_redis_client_def mk_call_def log_def l1_set_def Let_def)
  have none: "map_of (mc_store (mc_delete ck c)) ck = None" for ck c by (simp add: mc_store_delete jmap_simps)
  show ?thesis
    unfolding Let_def w1
    by (simp add: cm_on_invalidation_def l1_delete_def cm_get_def cm_get_l2_def l1_get_def mc_get_def none Let_def
        safeL2Get_def tcp_redis_def tcp_get_def tc_lift_def mem_redis_client_def mk_call_def bindA_def
        decode_raw_def payload_roundtrip payload_nonempty)
qed

end
