(* ===== verification/Retention.thy ===== *)
theory Retention
  imports CacheCoherence
begin

text \<open>
  \<^verbatim>\<open>src/retention.ts\<close>: the opt-in, time-based cleanup. \<open>resolveCategory\<close> recovers the signal data
  category of a stored key, \<open>pruneExpiredKeys\<close> deletes the keys of configured categories that are
  too old, in the database and in the caches.
\<close>

definition CREDS_KEY :: string where "CREDS_KEY = ''creds''"

text \<open>\<open>[...].sort((a, b) => b.length - a.length)\<close>, a stable sort.\<close>

definition CATEGORIES :: "string list" where
  "CATEGORIES = sort_key (\<lambda>c. - int (length c))
     [''app-state-sync-version'', ''sender-key-memory'', ''app-state-sync-key'', ''identity-key'', ''device-list'',
      ''lid-mapping'', ''sender-key'', ''pre-key'', ''session'', ''tctoken'']"

definition resolveCategory :: "string \<Rightarrow> string option" where
  "resolveCategory key =
     (if key = CREDS_KEY then None
      else find (\<lambda>category. key = category \<or> startsWith key (category @ ''-'')) CATEGORIES)"

definition is_candidate :: "(string \<rightharpoonup> int) \<Rightarrow> string \<Rightarrow> bool" where
  "is_candidate configured key \<longleftrightarrow>
     (if key = CREDS_KEY then False
      else (case resolveCategory key of None \<Rightarrow> False | Some category \<Rightarrow> configured category \<noteq> None))"

definition is_stale :: "(string \<rightharpoonup> int) \<Rightarrow> (string \<times> session_record) list \<Rightarrow> int \<Rightarrow> string \<Rightarrow> bool" where
  "is_stale configured records now key =
     (case map_of records key of
        None \<Rightarrow> False
      | Some record \<Rightarrow>
          (case resolveCategory key of
             None \<Rightarrow> False
           | Some category \<Rightarrow>
               (case configured category of
                  None \<Rightarrow> False
                | Some maxAgeMs \<Rightarrow> now - sr_updatedAt record \<ge> maxAgeMs)))"

definition pruneExpiredKeys ::
  "'d adapter \<Rightarrow> 'r redis_cache option \<Rightarrow> key_retention_options \<Rightarrow> string \<Rightarrow> (('d, 'r) world, string list) io" where
  "pruneExpiredKeys A l2 options sessionId =
     (if \<not> kr_enabled options then ret []
      else
        (let configuredCategories = kr_maxAgeMsByCategory options in
         bindA (on_db (ad_getAllKeys A sessionId)) (\<lambda>allKeys.
           let candidates = filter (is_candidate configuredCategories) allKeys in
           if candidates = [] then ret []
           else bindA (on_db (ad_getMany A sessionId candidates)) (\<lambda>records w.
             let staleKeys = filter (is_stale configuredCategories records (w_now w)) candidates in
             if staleKeys = [] then (Inr [], w)
             else bindA (on_db (ad_deleteMany A sessionId staleKeys))
               (\<lambda>_ w. (Inr staleKeys, log ''pruned expired keys'' (cm_allDeleted l2 sessionId staleKeys w))) w))))"

section \<open>Categories\<close>

lemma CATEGORIES_eq: "CATEGORIES =
  [''app-state-sync-version'', ''app-state-sync-key'', ''sender-key-memory'', ''identity-key'', ''device-list'',
   ''lid-mapping'', ''sender-key'', ''pre-key'', ''session'', ''tctoken'']"
  by (simp add: CATEGORIES_def)

lemma resolve_creds [simp]: "resolveCategory ''creds'' = None"
  by (simp add: resolveCategory_def CREDS_KEY_def)

lemma resolve_category_names:
  "list_all (\<lambda>c. resolveCategory (c @ ''-'' @ i) =
     Some (if c = ''sender-key'' \<and> (i = ''memory'' \<or> startsWith i ''memory-'') then ''sender-key-memory'' else c)) CATEGORIES"
  by (simp add: CATEGORIES_eq resolveCategory_def CREDS_KEY_def startsWith_def)

text \<open>C39. A key the auth state builds, \<open>category-id\<close>, resolves to its own category, for every
  category and id, except that a \<open>sender-key\<close> whose id starts with \<open>memory-\<close> (or is \<open>memory\<close>) is
  taken for a \<open>sender-key-memory\<close> entry; \<open>creds\<close> resolves to none.\<close>

theorem resolve_category_correct:
  "resolveCategory ''creds'' = None \<and>
   (\<forall>id. list_all (\<lambda>c. resolveCategory (c @ ''-'' @ id) =
      Some (if c = ''sender-key'' \<and> (id = ''memory'' \<or> startsWith id ''memory-'') then ''sender-key-memory'' else c)) CATEGORIES)"
  using resolve_category_names by simp

section \<open>What a pass prunes\<close>

text \<open>The keys a pass may delete: stored, of a configured category, and too old.\<close>

definition prunable :: "key_retention_options \<Rightarrow> db_view \<Rightarrow> int \<Rightarrow> string \<Rightarrow> string set" where
  "prunable options v now sid = {k. kr_enabled options \<and>
     (\<exists>r c maxAge. v sid k = Some r \<and> resolveCategory k = Some c \<and> kr_maxAgeMsByCategory options c = Some maxAge \<and>
        maxAge \<le> now - sr_updatedAt r)}"

lemma creds_not_prunable: "''creds'' \<notin> prunable options v now sid"
  by (simp add: prunable_def)

lemma is_candidate_iff:
  "is_candidate conf k \<longleftrightarrow> (\<exists>c. resolveCategory k = Some c \<and> conf c \<noteq> None)"
  by (auto simp: is_candidate_def resolveCategory_def split: option.splits)

lemma stale_prunable:
  assumes "kr_enabled options" and "\<And>k. k \<in> set ks \<longleftrightarrow> v sid k \<noteq> None"
    and "map_of records = (\<lambda>k. if k \<in> set (filter (is_candidate (kr_maxAgeMsByCategory options)) ks) then v sid k else None)"
  shows "set (filter (is_stale (kr_maxAgeMsByCategory options) records now)
      (filter (is_candidate (kr_maxAgeMsByCategory options)) ks)) = prunable options v now sid"
proof -
  let ?conf = "kr_maxAgeMsByCategory options"
  have "k \<in> set ks \<and> is_candidate ?conf k \<and> is_stale ?conf records now k \<longleftrightarrow> k \<in> prunable options v now sid" for k
  proof (cases "k \<in> set ks \<and> is_candidate ?conf k")
    case True
    with assms(3) have "map_of records k = v sid k" by simp
    with True assms(1) show ?thesis by (auto simp: is_stale_def prunable_def is_candidate_iff split: option.splits)
  next
    case False
    with assms(2) [of k] show ?thesis by (auto simp: prunable_def is_candidate_iff)
  qed
  then show ?thesis by auto
qed

text \<open>The result and the final store of a pass, in the order the code takes its branches.\<close>

definition pruned_ok ::
  "('d \<Rightarrow> db_view) \<Rightarrow> key_retention_options \<Rightarrow> string \<Rightarrow> ('d, 'r) world \<Rightarrow> error + string list \<Rightarrow> ('d, 'r) world \<Rightarrow> bool" where
  "pruned_ok view options sid w r w' \<longleftrightarrow>
     (let P = prunable options (view (w_db w)) (w_now w) sid; gone = (\<lambda>s k. if s = sid \<and> k \<in> P then None else view (w_db w) s k)
      in case r of Inr pruned \<Rightarrow> set pruned = P \<and> view (w_db w') = gone
                 | Inl _ \<Rightarrow> view (w_db w') = view (w_db w) \<or> view (w_db w') = gone)"

context cache_stack begin

lemma prune_result:
  assumes "coh {} {} w" and "lsid sid" and "pruneExpiredKeys A l2 options sid w = (r, w')"
  shows "pruned_ok view options sid w r w' \<and> (\<forall>x. r = Inr x \<longrightarrow> l2_works w \<longrightarrow> coh {} {} w')"
proof -
  let ?conf = "kr_maxAgeMsByCategory options" and ?v = "view (w_db w)"
  let ?P = "prunable options ?v (w_now w) sid"
  have keep: ?thesis if "view (w_db w') = ?v" "r = Inr [] \<and> ?P = {} \<and> coh {} {} w' \<or> (\<exists>e. r = Inl e)"
    using that by (auto simp: pruned_ok_def Let_def fun_eq_iff)
  show ?thesis
  proof (cases "kr_enabled options")
    case False
    with assms(1,3) keep show ?thesis by (auto simp: pruneExpiredKeys_def prunable_def)
  next
    case en: True
    obtain r1 w1 where q1: "on_db (ad_getAllKeys A sid) w = (r1, w1)" by fastforce
    note k1 = on_db_query [OF assms(1) getAllKeys_ok [OF cohD(1) [OF assms(1)] assms(2)] q1]
    show ?thesis
    proof (cases r1)
      case (Inl e)
      with assms(3) en q1 have "r = Inl e" "w' = w1" by (simp_all add: pruneExpiredKeys_def bindA_def Let_def)
      with keep k1(2) show ?thesis by blast
    next
      case (Inr keys)
      with k1(4) have keys: "\<And>k. k \<in> set keys \<longleftrightarrow> ?v sid k \<noteq> None" by blast
      let ?cand = "filter (is_candidate ?conf) keys"
      have cand: "?P \<subseteq> set ?cand" using keys by (auto simp: prunable_def is_candidate_iff)
      show ?thesis
      proof (cases "?cand = []")
        case True
        with cand have "?P = {}" by auto
        moreover from assms(3) en q1 Inr True have "r = Inr []" "w' = w1"
          by (simp_all add: pruneExpiredKeys_def bindA_def Let_def)
        ultimately show ?thesis using keep k1(1,2) by blast
      next
        case ne: False
        obtain r2 w2 where q2: "on_db (ad_getMany A sid ?cand) w1 = (r2, w2)" by fastforce
        have "\<forall>k \<in> set ?cand. lkey k" using keys view_legal [OF cohD(1) [OF assms(1)]] by auto
        note k2 = on_db_query [OF k1(1) getMany_ok [OF cohD(1) [OF k1(1)] assms(2) this] q2]
        have v2: "view (w_db w2) = ?v" using k1(2) k2(2) by simp
        show ?thesis
        proof (cases r2)
          case (Inl e)
          with assms(3) en q1 Inr ne q2 have "r = Inl e" "w' = w2" by (simp_all add: pruneExpiredKeys_def bindA_def Let_def)
          with keep v2 show ?thesis by blast
        next
          case records: (Inr records)
          from k2(4) [OF records] have "map_of records = (\<lambda>k. if k \<in> set ?cand then view (w_db w1) sid k else None)" by blast
          then have "map_of records = (\<lambda>k. if k \<in> set ?cand then ?v sid k else None)" by (simp only: k1(2))
          note stale = stale_prunable [where v = ?v and sid = sid, OF en keys this]
          have now: "w_now w2 = w_now w" by (subst k2(3), subst k1(3)) simp
          let ?stale = "filter (is_stale ?conf records (w_now w2)) ?cand"
          have sP: "set ?stale = ?P" using stale [of "w_now w"] now by simp
          show ?thesis
          proof (cases "?stale = []")
            case True
            with sP have "?P = {}" by (metis set_empty)
            moreover from assms(3) en q1 Inr ne q2 records True have "r = Inr []" "w' = w2"
              by (simp_all add: pruneExpiredKeys_def bindA_def Let_def)
            ultimately show ?thesis using keep v2 k2(1) by blast
          next
            case some: False
            obtain r3 w3 where q3: "on_db (ad_deleteMany A sid ?stale) w2 = (r3, w3)" by fastforce
            have legal: "\<forall>k \<in> set ?stale. lkey k" using keys view_legal [OF cohD(1) [OF assms(1)]] by auto
            note u3 = on_db_deleteMany [OF k2(1) assms(2) legal q3]
            have gone: "removed sid ?stale (view (w_db w2)) v' \<longleftrightarrow> v' = (\<lambda>s k. if s = sid \<and> k \<in> ?P then None else ?v s k)" for v'
              unfolding removed_def sP v2 ..
            show ?thesis
            proof (cases r3)
              case (Inl e)
              with assms(3) en q1 Inr ne q2 records some q3 have "r = Inl e" "w' = w3"
                by (simp_all add: pruneExpiredKeys_def bindA_def Let_def)
              with u3(4) show ?thesis unfolding gone by (simp add: pruned_ok_def Let_def v2)
            next
              case (Inr u)
              from assms(3) en q1 \<open>r1 = Inr keys\<close> ne q2 records some q3 Inr
              have r: "r = Inr ?stale" and w': "w' = log ''pruned expired keys'' (cm_allDeleted l2 sid ?stale w3)"
                by (simp_all add: pruneExpiredKeys_def bindA_def Let_def)
              from u3(3) [OF Inr] have v3: "view (w_db w3) = (\<lambda>s k. if s = sid \<and> k \<in> ?P then None else ?v s k)" unfolding gone .
              from allDeleted_ok [OF u3(1) assms(2), of ?stale]
              have db: "w_db w' = w_db w3" and c: "l2_works w3 \<Longrightarrow> coh {} {} w'"
                by (auto simp: w' coherent_def l1_map_def [abs_def] l2_map_def [abs_def])
              have "l2_works w \<Longrightarrow> l2_works w3" by (subst u3(2), subst k2(3), subst k1(3)) simp
              with r db v3 c sP show ?thesis by (simp add: pruned_ok_def Let_def)
            qed
          qed
        qed
      qed
    qed
  qed
qed

end

section \<open>Properties\<close>

text \<open>C8. A retention pass deletes exactly what it was asked to: if it returns, the keys returned are
  the stored keys of a configured category whose age is at least the configured maximum (none, when
  retention is not enabled), those rows are gone, every other row of every session is as it was,
  and the caches are coherent; if it throws, it has deleted all of those rows or none. The \<open>creds\<close>
  row is never touched, whatever the options say. The caches must be coherent to begin with, and Redis
  absent or up.\<close>

theorem prune_correct:
  assumes "cache_stack A view ivr up lsid lkey l2 l2v rup"
    and "coherent view ivr lsid lkey l2v l2 {} {} w" and "lsid sid" and "l2 = None \<or> rup (w_l2 w)"
    and "pruneExpiredKeys A l2 options sid w = (r, w')"
  shows "pruned_ok view options sid w r w' \<and> (\<forall>x. r = Inr x \<longrightarrow> coherent view ivr lsid lkey l2v l2 {} {} w') \<and>
    view (w_db w') sid ''creds'' = view (w_db w) sid ''creds''"
proof -
  note p = cache_stack.prune_result [OF assms(1-3,5)]
  have "view (w_db w') sid ''creds'' = view (w_db w) sid ''creds''"
    using conjunct1 [OF p] creds_not_prunable
    by (auto simp: pruned_ok_def Let_def fun_eq_iff split: sum.splits)
  with p assms(4) show ?thesis by blast
qed

theorem prune_correct_witness:
  "mem_view (w_db (snd (pruneExpiredKeys mem_adapter mem_http
      \<lparr>kr_enabled = True, kr_maxAgeMsByCategory = [''creds'' \<mapsto> 0, ''device-list'' \<mapsto> 0], kr_autoRunIntervalMs = None\<rparr> ''bot''
      mem_world))) ''bot'' ''creds'' = mem_view (w_db mem_world) ''bot'' ''creds''"
  by (rule conjunct2 [OF conjunct2 [OF prune_correct [OF mem_stack.cache_stack_axioms mem_world_coherent _ _ surjective_pairing]]])
    (simp_all add: colon_free_def mem_world_def mem_kv.uph_def mk_up_def all_parse_def)

end
