(* ===== verification/SessionManager.thy ===== *)
theory SessionManager
  imports Retention
begin

text \<open>
  \<^verbatim>\<open>src/session-manager.ts\<close>: the management API over the same adapter and caches as the auth state.
  The object is a record of what it was built with; its operations run over the world. The
  concurrency limiter only bounds how many of the reads of \<open>getSessionInfo\<close> overlap; here they run
  in order. \<open>exportSession\<close> is the sequence of pairs the generator yields when it is consumed.
\<close>

record session_info =
  si_sessionId :: string
  si_keys :: "string list"
  si_updatedAt :: int

definition DISABLED_RETENTION :: key_retention_options where
  "DISABLED_RETENTION = \<lparr>kr_enabled = False, kr_maxAgeMsByCategory = Map.empty, kr_autoRunIntervalMs = None\<rparr>"

record ('d, 'r) session_manager =
  sm_sessionId :: string
  sm_adapter :: "'d adapter"
  sm_l2 :: "'r redis_cache option"
  sm_limit :: int
  sm_retention :: key_retention_options

definition sm_new ::
  "string \<Rightarrow> 'd adapter \<Rightarrow> 'r redis_cache option \<Rightarrow> int option \<Rightarrow> key_retention_options option \<Rightarrow>
    ('d, 'r) session_manager" where
  "sm_new sessionId adapter l2 concurrency retention =
     \<lparr>sm_sessionId = sessionId, sm_adapter = adapter, sm_l2 = l2,
      sm_limit = (case concurrency of None \<Rightarrow> 10 | Some n \<Rightarrow> n),
      sm_retention = (case retention of None \<Rightarrow> DISABLED_RETENTION | Some r \<Rightarrow> r)\<rparr>"

text \<open>\<open>sessionId: string = this.sessionId\<close>\<close>

definition sid_or :: "('d, 'r) session_manager \<Rightarrow> string option \<Rightarrow> string" where
  "sid_or M sessionId = (case sessionId of None \<Rightarrow> sm_sessionId M | Some s \<Rightarrow> s)"

definition sm_listSessions :: "('d, 'r) session_manager \<Rightarrow> (('d, 'r) world, string list) io" where
  "sm_listSessions M = on_db (ad_listSessions (sm_adapter M))"

fun sm_latest :: "'d adapter \<Rightarrow> string \<Rightarrow> string list \<Rightarrow> int \<Rightarrow> (('d, 'r) world, int) io" where
  "sm_latest A sessionId [] updatedAt = ret updatedAt"
| "sm_latest A sessionId (key # keys) updatedAt =
     bindA (on_db (ad_get A sessionId key)) (\<lambda>record.
       sm_latest A sessionId keys
         (case record of None \<Rightarrow> updatedAt
          | Some r \<Rightarrow> if sr_updatedAt r > updatedAt then sr_updatedAt r else updatedAt))"

definition sm_getSessionInfo ::
  "('d, 'r) session_manager \<Rightarrow> string option \<Rightarrow> (('d, 'r) world, session_info option) io" where
  "sm_getSessionInfo M sessionId =
     (let s = sid_or M sessionId; A = sm_adapter M in
      bindA (on_db (ad_sessionExists A s)) (\<lambda>exists.
        if \<not> exists then ret None
        else bindA (on_db (ad_getAllKeys A s)) (\<lambda>keys.
          bindA (sm_latest A s keys 0) (\<lambda>updatedAt.
            ret (Some \<lparr>si_sessionId = s, si_keys = keys, si_updatedAt = updatedAt\<rparr>)))))"

definition sm_sessionExists :: "('d, 'r) session_manager \<Rightarrow> string option \<Rightarrow> (('d, 'r) world, bool) io" where
  "sm_sessionExists M sessionId = on_db (ad_sessionExists (sm_adapter M) (sid_or M sessionId))"

definition sm_deleteSession :: "('d, 'r) session_manager \<Rightarrow> string option \<Rightarrow> (('d, 'r) world, unit) io" where
  "sm_deleteSession M sessionId =
     (let s = sid_or M sessionId in
      thenA (on_db (ad_deleteSession (sm_adapter M) s))
        (\<lambda>w. (Inr (), log ''deleted session'' (cm_clearSession s w))))"

fun sm_yield :: "'d adapter \<Rightarrow> string \<Rightarrow> string list \<Rightarrow> (('d, 'r) world, (string \<times> jstr) list) io" where
  "sm_yield A sessionId [] = ret []"
| "sm_yield A sessionId (key # keys) =
     bindA (on_db (ad_get A sessionId key)) (\<lambda>record.
       bindA (sm_yield A sessionId keys) (\<lambda>rest.
         ret (case record of None \<Rightarrow> rest | Some r \<Rightarrow> (key, sr_value r) # rest)))"

definition sm_exportSession ::
  "('d, 'r) session_manager \<Rightarrow> string option \<Rightarrow> (('d, 'r) world, (string \<times> jstr) list) io" where
  "sm_exportSession M sessionId =
     (let s = sid_or M sessionId; A = sm_adapter M in
      bindA (on_db (ad_getAllKeys A s)) (sm_yield A s))"

text \<open>\<open>result[key] = value\<close> for every pair yielded.\<close>

definition to_object :: "(string \<times> 'v) list \<Rightarrow> (string \<times> 'v) list" where
  "to_object ps = fold (\<lambda>(k, v) m. AList.update k v m) ps []"

definition sm_exportSessionToObject ::
  "('d, 'r) session_manager \<Rightarrow> string option \<Rightarrow> (('d, 'r) world, (string \<times> jstr) list) io" where
  "sm_exportSessionToObject M sessionId = bindA (sm_exportSession M sessionId) (\<lambda>ps. ret (to_object ps))"

definition sm_importSession ::
  "('d, 'r) session_manager \<Rightarrow> string \<Rightarrow> (string \<times> jstr) list \<Rightarrow> (('d, 'r) world, unit) io" where
  "sm_importSession M sessionId data = (\<lambda>w.
     thenA (on_db (ad_setMany (sm_adapter M) sessionId data (w_now w)))
       (\<lambda>w. (Inr (), log ''imported session'' (cm_clearSession sessionId w))) w)"

text \<open>\<open>if (sessionId)\<close>: an empty id clears everything.\<close>

definition sm_clearCache :: "('d, 'r) session_manager \<Rightarrow> string option \<Rightarrow> ('d, 'r) world \<Rightarrow> ('d, 'r) world" where
  "sm_clearCache M sessionId w =
     (case sessionId of Some (c # cs) \<Rightarrow> cm_clearSession (c # cs) w | _ \<Rightarrow> cm_clearAll w)"

definition sm_pruneExpiredKeys :: "('d, 'r) session_manager \<Rightarrow> string option \<Rightarrow> (('d, 'r) world, string list) io" where
  "sm_pruneExpiredKeys M sessionId =
     pruneExpiredKeys (sm_adapter M) (sm_l2 M) (sm_retention M) (sid_or M sessionId)"

section \<open>What the operations do\<close>

context cache_stack begin

lemma latest_ok:
  assumes "coh {} {} w" and "lsid s" and "\<forall>k \<in> set ks. lkey k" and "sm_latest A s ks u w = (r, w')"
  shows "coh {} {} w' \<and> view (w_db w') = view (w_db w) \<and>
    (\<forall>x. r = Inr x \<longrightarrow> x = Max (insert u {sr_updatedAt rec |k rec. k \<in> set ks \<and> view (w_db w) s k = Some rec})) \<and>
    (up (w_db w) \<longrightarrow> (\<exists>x. r = Inr x) \<and> up (w_db w'))"
  using assms(1,3,4)
proof (induction ks arbitrary: u w)
  case Nil
  then show ?case by auto
next
  case (Cons k ks)
  let ?S = "\<lambda>ks. {sr_updatedAt rec |k rec. k \<in> set ks \<and> view (w_db w) s k = Some rec}"
  obtain r1 w1 where q: "on_db (ad_get A s k) w = (r1, w1)" by fastforce
  have "lkey k" using Cons.prems(2) by simp
  note d = on_db_query [OF Cons.prems(1) get_ok [OF cohD(1) [OF Cons.prems(1)] assms(2) this] q]
  show ?case
  proof (cases r1)
    case (Inl e)
    with Cons.prems(3) q d(1,2,5) show ?thesis by (auto simp: bindA_def)
  next
    case (Inr x)
    with d(4) have x: "x = view (w_db w) s k" by blast
    define u' where "u' = (case x of None \<Rightarrow> u | Some r \<Rightarrow> if sr_updatedAt r > u then sr_updatedAt r else u)"
    from Cons.prems(3) q Inr have run: "sm_latest A s ks u' w1 = (r, w')" by (simp add: bindA_def u'_def)
    have fin: "finite (?S ks)" by (rule finite_subset [where B = "(\<lambda>k. sr_updatedAt (the (view (w_db w) s k))) ` set ks"]) force+
    have eq: "Max (insert u' (?S ks)) = Max (insert u (?S (k # ks)))"
    proof (cases "view (w_db w) s k")
      case None
      then have "?S (k # ks) = ?S ks" by auto
      then show ?thesis by (simp add: u'_def x None)
    next
      case (Some rec)
      then have "?S (k # ks) = insert (sr_updatedAt rec) (?S ks)" by auto
      moreover have "u' = max u (sr_updatedAt rec)" by (simp add: u'_def x Some)
      moreover have "Max (insert (max u t) T) = Max (insert u (insert t T))" if "finite T" for t and T :: "int set"
        using that by (cases "T = {}") (simp_all add: max.assoc)
      ultimately show ?thesis using fin by simp
    qed
    from Cons.IH [OF d(1) _ run] Cons.prems(2) d(2,5) eq show ?thesis by auto
  qed
qed

lemma yield_ok:
  assumes "coh {} {} w" and "lsid s" and "\<forall>k \<in> set ks. lkey k" and "sm_yield A s ks w = (r, w')"
  shows "coh {} {} w' \<and> view (w_db w') = view (w_db w) \<and>
    (\<forall>ps. r = Inr ps \<longrightarrow> ps = List.map_filter (\<lambda>k. map_option (Pair k) (stored_value w s k)) ks) \<and>
    (up (w_db w) \<longrightarrow> (\<exists>x. r = Inr x) \<and> up (w_db w'))"
  using assms(1,3,4)
proof (induction ks arbitrary: w r w')
  case Nil
  then show ?case by (auto simp: List.map_filter_simps)
next
  case (Cons k ks)
  obtain r1 w1 where q: "on_db (ad_get A s k) w = (r1, w1)" by fastforce
  have "lkey k" using Cons.prems(2) by simp
  note d = on_db_query [OF Cons.prems(1) get_ok [OF cohD(1) [OF Cons.prems(1)] assms(2) this] q]
  show ?case
  proof (cases r1)
    case (Inl e)
    with Cons.prems(3) q d(1,2,5) show ?thesis by (auto simp: bindA_def)
  next
    case (Inr x)
    with d(4) have x: "x = view (w_db w) s k" by blast
    obtain r2 w2 where y: "sm_yield A s ks w1 = (r2, w2)" by fastforce
    have rest: "\<forall>k \<in> set ks. lkey k" using Cons.prems(2) by simp
    from Cons.IH [OF d(1) rest y] d(2)
    have IH: "coh {} {} w2 \<and> view (w_db w2) = view (w_db w) \<and>
      (\<forall>ps. r2 = Inr ps \<longrightarrow> ps = List.map_filter (\<lambda>k. map_option (Pair k) (stored_value w s k)) ks) \<and>
      (up (w_db w1) \<longrightarrow> (\<exists>x. r2 = Inr x) \<and> up (w_db w2))" by simp
    from Cons.prems(3) q Inr y have "w' = w2"
      and "r = (case r2 of Inl e \<Rightarrow> Inl e | Inr rest \<Rightarrow> Inr (case x of None \<Rightarrow> rest | Some r \<Rightarrow> (k, sr_value r) # rest))"
      by (auto simp: bindA_def split: sum.splits)
    with IH d(5) show ?thesis
      by (auto simp: x value_at_def List.map_filter_simps split: sum.splits option.splits)
  qed
qed

lemma clearSession_restores:
  assumes "coh (X1 \<union> {s} \<times> Y) X2 w" and "lsid s"
  shows "coh X1 X2 (cm_clearSession s w)"
proof (rule cohI)
  note c = clearSession_coh [OF assms(1), of s]
  show "agr X1 (l1_map (cm_clearSession s w)) (stored_value (cm_clearSession s w))"
    unfolding agree_def
  proof (intro allI impI)
    fix s' k v
    assume l: "lsid s'" "lkey k" "(s', k) \<notin> X1" and h: "l1_map (cm_clearSession s w) (cacheKey s' k) = Some v"
    have "s' \<noteq> s" using clearSession_map [OF assms(2), of w k] h by auto
    then show "stored_value (cm_clearSession s w) s' k = Some v"
      using agreeD [OF cohD(3) [OF c] l(1,2) _ h] l(3) by auto
  qed
  show "agr X2 (l2_map l2v (cm_clearSession s w)) (stored_value (cm_clearSession s w))" if "l2 \<noteq> None"
    using cohD(4) [OF c] that by auto
qed (use cohD [OF clearSession_coh [OF assms(1), of s]] in simp_all)

lemma log_coh: "coh X1 X2 (log msg w) \<longleftrightarrow> coh X1 X2 w"
  by (simp add: coherent_def l1_map_def [abs_def] l2_map_def [abs_def])

lemma deleteSession_ok':
  assumes "coh {} {} w" and "lsid s" and "sm_adapter M = A" and "sm_deleteSession M (Some s) w = (Inr u, w')"
  shows "wiped s (view (w_db w)) (view (w_db w'))" and "coh {} ({s} \<times> UNIV) w'"
    and "l1_map w' (cacheKey s k) = None"
proof -
  obtain r1 w1 where q: "on_db (ad_deleteSession A s) w = (r1, w1)" by fastforce
  note d = on_db_deleteSession [OF assms(1,2) q]
  from assms(3,4) q have r1: "r1 = Inr ()" and w': "w' = log ''deleted session'' (cm_clearSession s w1)"
    by (auto simp: sm_deleteSession_def sid_or_def Let_def thenA_def bindA_def split: sum.splits)
  have db: "w_db w' = w_db w1" by (simp add: w' cm_clearSession_def)
  show "wiped s (view (w_db w)) (view (w_db w'))" using d(3) [OF r1] db by simp
  show "coh {} ({s} \<times> UNIV) w'"
    using clearSession_restores [of "{}" s UNIV "{s} \<times> UNIV" w1] d(1) assms(2) by (simp add: w' log_coh)
  show "l1_map w' (cacheKey s k) = None"
    using clearSession_map [OF assms(2)] by (simp add: w' l1_map_def)
qed

lemma importSession_ok:
  assumes "coh {} {} w" and "lsid s" and "\<forall>e \<in> set es. lkey (fst e)" and "sm_adapter M = A"
    and "sm_importSession M s es w = (r, w')"
  shows "r = Inr u \<Longrightarrow> upserted s es (w_now w) (view (w_db w)) (view (w_db w')) \<and> coh {} (Pair s ` fst ` set es) w'"
    and "view (w_db w') = view (w_db w) \<or> upserted s es (w_now w) (view (w_db w)) (view (w_db w'))"
    and "up (w_db w) \<Longrightarrow> distinct (keys_of es) \<Longrightarrow> r = Inr ()"
proof -
  obtain r1 w1 where q: "on_db (ad_setMany A s es (w_now w)) w = (r1, w1)" by fastforce
  note d = on_db_setMany [OF assms(1-3) q]
  from assms(4,5) q have w': "r1 = Inr () \<and> r = Inr () \<and> w' = log ''imported session'' (cm_clearSession s w1) \<or>
      (\<exists>e. r1 = Inl e \<and> r = Inl e \<and> w' = w1)"
    by (auto simp: sm_importSession_def thenA_def bindA_def split: sum.splits)
  then have db: "w_db w' = w_db w1" by (auto simp: cm_clearSession_def)
  show "view (w_db w') = view (w_db w) \<or> upserted s es (w_now w) (view (w_db w)) (view (w_db w'))" using d(4) db by simp
  show "r = Inr ()" if "up (w_db w)" "distinct (keys_of es)" using d(5) [OF that] w' by auto
  show "upserted s es (w_now w) (view (w_db w)) (view (w_db w')) \<and> coh {} (Pair s ` fst ` set es) w'" if "r = Inr u"
  proof -
    from w' that have r1: "r1 = Inr ()" and w': "w' = log ''imported session'' (cm_clearSession s w1)" by auto
    have pairs: "{s} \<times> fst ` set es = Pair s ` fst ` set es" by auto
    have "coh ({} \<union> {s} \<times> fst ` set es) (Pair s ` fst ` set es) w1" using d(1) by (simp add: pairs)
    from clearSession_restores [OF this assms(2)] have "coh {} (Pair s ` fst ` set es) w'" by (simp add: w' log_coh)
    with d(3) [OF r1] db show ?thesis by simp
  qed
qed

end

section \<open>Inspecting, exporting and importing\<close>

lemma to_object_map: "distinct (keys_of (to_object ps)) \<and> map_of (to_object ps) = map_of (rev ps)"
proof (induction ps rule: rev_induct)
  case (snoc p ps)
  obtain k v where p: "p = (k, v)" by fastforce
  have "to_object (ps @ [p]) = AList.update k v (to_object ps)" by (simp add: to_object_def p)
  with snoc p show ?case by (simp add: jmap_simps)
qed (simp add: to_object_def)

lemma map_of_yielded:
  assumes "distinct ks"
  shows "map_of (rev (List.map_filter (\<lambda>k. map_option (Pair k) (f k)) ks)) = (\<lambda>k. if k \<in> set ks then f k else None)"
proof -
  have keys: "keys_of (List.map_filter (\<lambda>k. map_option (Pair k) (f k)) ks) = filter (\<lambda>k. f k \<noteq> None) ks"
    by (induction ks) (auto simp: List.map_filter_simps split: option.splits)
  have "map_of (List.map_filter (\<lambda>k. map_option (Pair k) (f k)) ks) = (\<lambda>k. if k \<in> set ks then f k else None)"
    using assms by (induction ks) (auto simp: List.map_filter_simps fun_eq_iff split: option.splits)
  then show ?thesis using assms keys by (simp add: map_of_rev_distinct)
qed

context cache_stack begin

lemma keys_run:
  assumes "coh {} {} w" and "lsid s" and "on_db (ad_getAllKeys A s) w = (r, w')"
  shows "coh {} {} w' \<and> view (w_db w') = view (w_db w) \<and>
    (\<forall>ks. r = Inr ks \<longrightarrow> distinct ks \<and> set ks = {k. view (w_db w) s k \<noteq> None} \<and> (\<forall>k \<in> set ks. lkey k)) \<and>
    (up (w_db w) \<longrightarrow> (\<exists>x. r = Inr x) \<and> up (w_db w'))"
  using on_db_query [OF assms(1) getAllKeys_ok [OF cohD(1) [OF assms(1)] assms(2)] assms(3)]
    view_legal [OF cohD(1) [OF assms(1)]] by blast

lemma export_ok:
  assumes "coh {} {} w" and "lsid s" and "sm_adapter M = A" and "sid_or M sid = s"
    and "sm_exportSessionToObject M sid w = (r, w')"
  shows "coh {} {} w' \<and> view (w_db w') = view (w_db w) \<and>
    (\<forall>es. r = Inr es \<longrightarrow> distinct (keys_of es) \<and> map_of es = stored_value w s) \<and>
    (up (w_db w) \<longrightarrow> (\<exists>x. r = Inr x) \<and> up (w_db w'))"
proof -
  obtain r1 w1 where q: "on_db (ad_getAllKeys A s) w = (r1, w1)" by fastforce
  note k = keys_run [OF assms(1,2) q]
  show ?thesis
  proof (cases r1)
    case (Inl e)
    with assms(3-5) q k show ?thesis
      by (auto simp: sm_exportSessionToObject_def sm_exportSession_def Let_def bindA_def)
  next
    case (Inr ks)
    with k have ks: "distinct ks" "set ks = {k. view (w_db w) s k \<noteq> None}" "\<forall>k \<in> set ks. lkey k" by blast+
    obtain r2 w2 where y: "sm_yield A s ks w1 = (r2, w2)" by fastforce
    note yd = yield_ok [OF conjunct1 [OF k] assms(2) ks(3) y]
    from assms(3-5) q Inr y have "w' = w2" and "r = map_sum id to_object r2"
      by (auto simp: sm_exportSessionToObject_def sm_exportSession_def Let_def bindA_def split: sum.splits)
    moreover have "(\<lambda>k. if k \<in> set ks then stored_value w s k else None) = stored_value w s"
      using ks(2) by (auto simp: value_at_def fun_eq_iff)
    ultimately show ?thesis
      using yd k ks(1) to_object_map map_of_yielded [OF ks(1), of "stored_value w s"] by (cases r2) auto
  qed
qed

lemma info_ok:
  assumes "coh {} {} w" and "lsid s" and "sm_adapter M = A" and "sid_or M sid = s"
    and "sm_getSessionInfo M sid w = (r, w')"
  shows "(\<forall>i. r = Inr (Some i) \<longrightarrow> si_sessionId i = s \<and> distinct (si_keys i) \<and>
      set (si_keys i) = {k. view (w_db w) s k \<noteq> None} \<and> si_keys i \<noteq> [] \<and>
      si_updatedAt i = Max (insert 0 {sr_updatedAt rec |k rec. view (w_db w) s k = Some rec})) \<and>
    (r = Inr None \<longrightarrow> view (w_db w) s = Map.empty) \<and>
    view (w_db w') = view (w_db w) \<and> (up (w_db w) \<longrightarrow> (\<exists>x. r = Inr x))"
proof -
  obtain r0 w0 where e: "on_db (ad_sessionExists A s) w = (r0, w0)" by fastforce
  note ex = on_db_query [OF assms(1) sessionExists_ok [OF cohD(1) [OF assms(1)] assms(2)] e]
  obtain r1 w1 where q: "on_db (ad_getAllKeys A s) w0 = (r1, w1)" by fastforce
  note k = keys_run [OF ex(1) assms(2) q]
  consider (err) e where "r0 = Inl e" | (no) "r0 = Inr False" | (keyErr) e where "r0 = Inr True" "r1 = Inl e"
    | (yes) ks where "r0 = Inr True" "r1 = Inr ks" by (cases r0; cases r1) auto
  then show ?thesis
  proof cases
    case no
    with ex(4) have "view (w_db w) s = Map.empty" by auto
    with assms(3-5) e no ex(2) show ?thesis by (auto simp: sm_getSessionInfo_def Let_def bindA_def)
  next
    case yes
    with k ex(2) have ks: "distinct ks" "set ks = {k. view (w_db w) s k \<noteq> None}" "\<forall>k \<in> set ks. lkey k" by auto
    have "\<exists>k. view (w_db w) s k \<noteq> None" using ex(4) [of True] yes(1) by blast
    then have ne: "ks \<noteq> []" using ks(2) by (metis empty_set mem_Collect_eq emptyE)
    obtain r2 w2 where l: "sm_latest A s ks 0 w1 = (r2, w2)" by fastforce
    note la = latest_ok [OF conjunct1 [OF k] assms(2) ks(3) l]
    have "{sr_updatedAt rec |k rec. k \<in> set ks \<and> view (w_db w) s k = Some rec} =
        {sr_updatedAt rec |k rec. view (w_db w) s k = Some rec}" using ks(2) by auto
    with assms(3-5) e q yes l la k ex(2,5) ks ne show ?thesis
      by (auto simp: sm_getSessionInfo_def Let_def bindA_def split: sum.splits)
  qed (use assms(3-5) e q k ex(2,5) in \<open>auto simp: sm_getSessionInfo_def Let_def bindA_def\<close>)
qed

end

section \<open>Properties\<close>

text \<open>\<open>getSessionInfo\<close> describes the stored session: it returns null exactly when no row is stored,
  and otherwise the keys of the rows, each once, and the time of the latest write among them (or 0,
  if none is later); it changes nothing and returns whenever the database is up.\<close>

lemma session_info_correct:
  assumes "cache_stack A view ivr up lsid lkey l2 l2v rup"
    and "coherent view ivr lsid lkey l2v l2 {} {} w" and "lsid (sid_or M sid)" and "sm_adapter M = A"
    and "sm_getSessionInfo M sid w = (r, w')"
  shows "(r = Inr None \<longrightarrow> view (w_db w) (sid_or M sid) = Map.empty) \<and>
    (\<forall>i. r = Inr (Some i) \<longrightarrow> si_sessionId i = sid_or M sid \<and> si_keys i \<noteq> [] \<and> distinct (si_keys i) \<and>
      set (si_keys i) = {k. view (w_db w) (sid_or M sid) k \<noteq> None} \<and>
      si_updatedAt i = Max (insert 0 {sr_updatedAt rec |k rec. view (w_db w) (sid_or M sid) k = Some rec})) \<and>
    view (w_db w') = view (w_db w) \<and> (up (w_db w) \<longrightarrow> (\<exists>x. r = Inr x))"
  using cache_stack.info_ok [OF assms(1-4) refl assms(5)] by blast

definition mem_manager :: "(mem_server, mem_kv) session_manager" where
  "mem_manager = sm_new ''bot'' mem_adapter mem_http None None"

lemma session_info_correct_witness:
  "\<exists>x. fst (sm_getSessionInfo mem_manager None mem_world) = Inr x"
  using session_info_correct [OF mem_stack.cache_stack_axioms mem_world_coherent _ _ surjective_pairing, of mem_manager None]
  by (auto simp: mem_manager_def sm_new_def sid_or_def colon_free_def mem_world_def mem_up_def)

text \<open>C15. Export followed by import moves a session: the object exported from one store, imported
  under a session id of another store (or the same one), gives that session exactly the exported
  values; keys the export did not have keep what they held, no other session changes, and the L1
  cache of the importing side holds nothing outdated.\<close>

theorem export_import_roundtrip:
  assumes "cache_stack A view ivr up lsid lkey l2 l2v rup" and "cache_stack A' view' ivr' up' lsid' lkey' l2' l2v' rup'"
    and "coherent view ivr lsid lkey l2v l2 {} {} w" and "coherent view' ivr' lsid' lkey' l2v' l2' {} {} w'"
    and "lsid (sid_or M sid)" and "lsid' s'" and "\<forall>k. lkey k \<longrightarrow> lkey' k"
    and "sm_adapter M = A" and "sm_adapter M' = A'"
    and "sm_exportSessionToObject M sid w = (Inr es, w1)" and "sm_importSession M' s' es w' = (Inr u, w2)"
  shows "value_at (view' (w_db w2)) s' = value_at (view' (w_db w')) s' ++ value_at (view (w_db w)) (sid_or M sid) \<and>
    (\<forall>s. s \<noteq> s' \<longrightarrow> view' (w_db w2) s = view' (w_db w') s) \<and>
    agree lsid' lkey' {} (l1_map w2) (value_at (view' (w_db w2)))"
proof -
  from cache_stack.export_ok [OF assms(1,3,5,8) refl assms(10)]
  have d: "distinct (keys_of es)" and m: "map_of es = value_at (view (w_db w)) (sid_or M sid)" by auto
  have legal: "\<forall>e \<in> set es. lkey' (fst e)"
  proof
    fix e assume "e \<in> set es"
    then have "map_of es (fst e) \<noteq> None" by (metis map_of_eq_None_iff imageI)
    then have st: "view (w_db w) (sid_or M sid) (fst e) \<noteq> None" by (simp add: m value_at_def)
    from assms(3) have "ivr (w_db w)" by (simp add: coherent_def)
    from db_store.view_legal [OF cache_stack.axioms(1) [OF assms(1)] this st] assms(7) show "lkey' (fst e)" by blast
  qed
  from cache_stack.importSession_ok(1) [OF assms(2,4,6) legal assms(9,11), of u]
  have up: "upserted s' es (w_now w') (view' (w_db w')) (view' (w_db w2))"
    and c: "coherent view' ivr' lsid' lkey' l2v' l2' {} (Pair s' ` fst ` set es) w2" by auto
  have "value_at (view' (w_db w2)) s' k = (value_at (view' (w_db w')) s' ++ value_at (view (w_db w)) (sid_or M sid)) k" for k
    using upserted_value_at [OF up, of s' k] store_all_distinct [OF d, of Map.empty k] map_of_eq_None_iff [of es k]
    by (auto simp: m [symmetric] map_add_def split: option.splits)
  moreover have "view' (w_db w2) s k = view' (w_db w') s k" if "s \<noteq> s'" for s k using upserted_other [OF up] that by blast
  moreover from c have "agree lsid' lkey' {} (l1_map w2) (value_at (view' (w_db w2)))" by (simp add: coherent_def)
  ultimately show ?thesis by (auto simp: fun_eq_iff)
qed

theorem export_import_roundtrip_witness:
  "\<exists>es w1 w2. sm_exportSessionToObject mem_manager None mem_world = (Inr es, w1) \<and>
     sm_importSession mem_manager ''copy'' es mem_world = (Inr (), w2) \<and>
     value_at (mem_view (w_db w2)) ''copy'' ''creds'' = Some (lit ''v1'')"
proof -
  have up: "mem_up (w_db mem_world)" by (simp add: mem_world_def mem_up_def)
  have M: "sm_adapter mem_manager = mem_adapter" "sid_or mem_manager None = ''bot''"
    by (simp_all add: mem_manager_def sm_new_def sid_or_def)
  have s: "colon_free (sid_or mem_manager None)" "colon_free ''copy''" by (simp_all add: M colon_free_def)
  note ex = mem_stack.export_ok [OF mem_world_coherent s(1) M(1) refl surjective_pairing]
  from ex up obtain es where es: "fst (sm_exportSessionToObject mem_manager None mem_world) = Inr es" "distinct (keys_of es)" by blast
  from es(1) obtain w1 where e: "sm_exportSessionToObject mem_manager None mem_world = (Inr es, w1)" by (metis prod.collapse)
  have "fst (sm_importSession mem_manager ''copy'' es mem_world) = Inr ()"
    by (rule mem_stack.importSession_ok(3) [OF mem_world_coherent s(2) _ M(1) surjective_pairing up es(2)]) simp
  then obtain w2 where i: "sm_importSession mem_manager ''copy'' es mem_world = (Inr (), w2)" by (metis prod.collapse)
  have "value_at (mem_view (w_db w2)) ''copy'' =
      value_at (mem_view (w_db mem_world)) ''copy'' ++ value_at (mem_view (w_db mem_world)) (sid_or mem_manager None)"
    by (rule conjunct1 [OF export_import_roundtrip [OF mem_stack.cache_stack_axioms mem_stack.cache_stack_axioms
          mem_world_coherent mem_world_coherent s _ M(1) M(1) e i]]) simp
  moreover have "value_at (mem_view (w_db mem_world)) ''bot'' ''creds'' = Some (lit ''v1'')"
    by (simp add: value_at_def store_view_def row_view_def mem_world_def row_matches_def sqlite_dialect_def row_record_def colon_free_def)
  ultimately have "value_at (mem_view (w_db w2)) ''copy'' ''creds'' = Some (lit ''v1'')"
    unfolding M(2) by (simp only: map_add_find_right)
  with e i show ?thesis by blast
qed

text \<open>C6. Without an L2 cache, deleting a session deletes it: if \<open>deleteSession\<close> returns, no row of the
  session is stored, every row of every other session is as it was, and the next read of any of its
  keys through the cache returns null.\<close>

theorem delete_session_correct:
  assumes "cache_stack A view ivr up lsid lkey None l2v rup"
    and "coherent view ivr lsid lkey l2v None {} {} w" and "lsid (sid_or M sid)" and "sm_adapter M = A"
    and "sm_deleteSession M sid w = (Inr u, w1)" and "lkey k" and "cm_get A None (sid_or M sid) k w1 = (Inr x, w2)"
  shows "view (w_db w1) = (view (w_db w))(sid_or M sid := Map.empty) \<and> x = None"
proof -
  have run: "sm_deleteSession M (Some (sid_or M sid)) w = (Inr u, w1)"
    using assms(5) by (simp add: sm_deleteSession_def sid_or_def)
  note d = cache_stack.deleteSession_ok' [OF assms(1-4) run]
  from d(1) have v: "view (w_db w1) = (view (w_db w))(sid_or M sid := Map.empty)" by (simp add: wiped_def)
  from d(2) have "coherent view ivr lsid lkey l2v None {} {} w1" by (simp add: coherent_def)
  from cache_stack.get_reads [OF assms(1) this assms(3,6)] assms(7)
  have "x = value_at (view (w_db w1)) (sid_or M sid) k" by (simp add: cache_stack.reads_ok_def [OF assms(1)])
  with v show ?thesis by (simp add: value_at_def)
qed

abbreviation no_l2 :: "mem_kv redis_cache option" where
  "no_l2 \<equiv> None"

interpretation mem_l1_stack: cache_stack mem_adapter mem_view mem_ok mem_up colon_free any_name no_l2 mem_kv.l2h mem_kv.uph
  by (intro cache_stack.intro cache_stack_axioms.intro versioned_store.axioms(1) [OF mem_versioned])
    (auto simp: colon_free_def)

theorem delete_session_correct_witness:
  "\<exists>w1 w2. sm_deleteSession mem_manager None mem_world = (Inr (), w1) \<and>
     cm_get mem_adapter no_l2 ''bot'' ''creds'' w1 = (Inr None, w2)"
proof -
  have up: "mem_up (w_db mem_world)" by (simp add: mem_world_def mem_up_def)
  have M: "sm_adapter mem_manager = mem_adapter" "sid_or mem_manager None = ''bot''"
    by (simp_all add: mem_manager_def sm_new_def sid_or_def)
  have s: "colon_free (sid_or mem_manager None)" by (simp add: M colon_free_def)
  have c: "coherent mem_view mem_ok colon_free any_name mem_kv.l2h no_l2 {} {} mem_world"
    using mem_world_coherent [of "{}" "{}"] by (simp add: coherent_def)
  obtain r d where q: "on_db (ad_deleteSession mem_adapter ''bot'') mem_world = (r, d)" by fastforce
  from mem_l1_stack.on_db_deleteSession(5) [OF c s [unfolded M(2)] q up] obtain u where r: "r = Inr u" and "mem_up (w_db d)" by blast
  let ?w1 = "log ''deleted session'' (cm_clearSession ''bot'' d)"
  have run: "sm_deleteSession mem_manager None mem_world = (Inr (), ?w1)"
    using q r by (simp add: sm_deleteSession_def Let_def M thenA_def bindA_def)
  have run': "sm_deleteSession mem_manager (Some ''bot'') mem_world = (Inr (), ?w1)"
    using run by (simp add: sm_deleteSession_def sid_or_def M(2) [unfolded sid_or_def, simplified])
  have "coherent mem_view mem_ok colon_free any_name mem_kv.l2h no_l2 {} {} ?w1"
    using mem_l1_stack.deleteSession_ok'(2) [OF c s [unfolded M(2)] M(1) run'] by (simp add: coherent_def)
  moreover have "mem_up (w_db ?w1)" using \<open>mem_up (w_db d)\<close> by (simp add: cm_clearSession_def)
  ultimately obtain x w2 where g: "cm_get mem_adapter no_l2 (sid_or mem_manager None) ''creds'' ?w1 = (Inr x, w2)"
    using mem_l1_stack.get_returns [OF _ s TrueI] by blast
  from delete_session_correct [OF mem_l1_stack.cache_stack_axioms c s M(1) run TrueI g] g run
  show ?thesis by (auto simp: M(2))
qed

text \<open>C27. With a Redis cache, a deleted session is still served: \<open>deleteSession\<close> clears L1 only, so if
  Redis holds a payload of a key, a read of that key right after a successful deletion returns the
  deleted value, whatever the store and the L1 cache held.\<close>

theorem deleted_session_served_by_redis:
  assumes "sm_adapter M = A" and "w_l2 w = \<lparr>tc_client = \<lparr>mk_store = [(cacheKey s k, stringify_payload old n)], mk_fails = []\<rparr>,
      tc_subscriber = sub, tc_listening = li\<rparr>"
    and "sm_deleteSession M (Some s) w = (Inr (), w1)"
  shows "fst (cm_get A mem_tcp s k w1) = Inr (Some old)"
proof -
  from assms(1,3) obtain d where w1: "w1 = log ''deleted session'' (cm_clearSession s (w\<lparr>w_db := d\<rparr>))"
    by (auto simp: sm_deleteSession_def sid_or_def Let_def thenA_def bindA_def on_db_def split: prod.splits sum.splits)
  have none: "map_of (mc_store (mc_deleteByPrefix (s @ '':'') c)) (cacheKey s k) = None" for c
    by (simp add: mem_tcp_stack.mc_prefix_map cacheKey_def startsWith_iff)
  show ?thesis
    by (simp add: w1 cm_get_def l1_get_def mc_get_def cm_clearSession_def none log_def cm_get_l2_def assms(2) Let_def
        safeL2Get_def tcp_redis_def tcp_get_def tc_lift_def mem_redis_client_def mk_call_def bindA_def
        decode_raw_def payload_roundtrip payload_nonempty)
qed

definition mem_tcp_world :: "(mem_server, mem_kv tcp_cache) world" where
  "mem_tcp_world = \<lparr>w_l1 = mc_new None None None,
     w_l2 = \<lparr>tc_client = \<lparr>mk_store = [(cacheKey ''bot'' ''creds'', stringify_payload (lit ''v1'') 3)], mk_fails = []\<rparr>,
       tc_subscriber = True, tc_listening = True\<rparr>,
     w_db = w_db mem_world, w_now = 10, w_log = []\<rparr>"

theorem deleted_session_served_by_redis_witness:
  "\<exists>w1. sm_deleteSession (sm_new ''bot'' mem_adapter mem_tcp None None) (Some ''bot'') mem_tcp_world = (Inr (), w1) \<and>
     fst (cm_get mem_adapter mem_tcp ''bot'' ''creds'' w1) = Inr (Some (lit ''v1''))"
proof -
  let ?M = "sm_new ''bot'' mem_adapter mem_tcp None None"
  have up: "mem_up (w_db mem_tcp_world)" by (simp add: mem_tcp_world_def mem_world_def mem_up_def)
  have c: "coherent mem_view mem_ok colon_free any_name (\<lambda>s. mem_kv.l2h (tc_client s)) mem_tcp UNIV UNIV mem_tcp_world"
    using mem_world_coherent [of "{}" "{}"] by (simp add: coherent_def agree_def mem_tcp_world_def mc_wf_new)
  have s: "colon_free ''bot''" by (simp add: colon_free_def)
  obtain r d where q: "on_db (ad_deleteSession mem_adapter ''bot'') mem_tcp_world = (r, d)" by fastforce
  from mem_tcp_stack.on_db_deleteSession(5) [OF c s q up] obtain u where "r = Inr u" by blast
  with q have run: "sm_deleteSession ?M (Some ''bot'') mem_tcp_world = (Inr (), log ''deleted session'' (cm_clearSession ''bot'' d))"
    by (simp add: sm_deleteSession_def sid_or_def sm_new_def Let_def thenA_def bindA_def)
  have "fst (cm_get mem_adapter mem_tcp ''bot'' ''creds'' (log ''deleted session'' (cm_clearSession ''bot'' d))) = Inr (Some (lit ''v1''))"
    by (rule deleted_session_served_by_redis [OF _ _ run]) (simp_all add: sm_new_def mem_tcp_world_def)
  with run show ?thesis by blast
qed

end
