(* ===== verification/Locks.thy ===== *)
theory Locks
  imports Types
begin

text \<open>
  The locks that serialise the writes of a session. \<^verbatim>\<open>src/lock/mutex-lock.ts\<close>: one mutex per key inside a
  process; the \<open>Mutex\<close> class comes from a library and is a parameter. \<^verbatim>\<open>src/lock/redis-lock.ts\<close>: a lock
  held in Redis, for several processes; the server's commands are a parameter, the release script
  is the source's. Both are modelled twice where it matters: as one caller sees \<open>withLock\<close>, and as a
  system of several callers whose steps (the code between two \<open>await\<close>s) interleave.
\<close>

section \<open>The local mutex\<close>

record 'm mutex_class =
  mx_new :: 'm
  mx_acquire :: "nat \<Rightarrow> 'm \<Rightarrow> 'm"
  mx_release :: "'m \<Rightarrow> 'm"

text \<open>What the library documents: callers get the mutex one at a time, in the order they asked. The
  queue's head is the holder.\<close>

locale fifo_mutex =
  fixes M :: "'m mutex_class" and queue :: "'m \<Rightarrow> nat list"
  assumes queue_new: "queue (mx_new M) = []"
    and queue_acquire: "queue (mx_acquire M t m) = queue m @ [t]"
    and queue_release: "queue (mx_release M m) = tl (queue m)"

type_synonym 'm local_lock = "(string \<times> 'm) list"

definition getMutex :: "'m mutex_class \<Rightarrow> string \<Rightarrow> 'm local_lock \<Rightarrow> 'm \<times> 'm local_lock" where
  "getMutex M key locks = (case map_of locks key of
     None \<Rightarrow> (mx_new M, AList.update key (mx_new M) locks)
   | Some mutex \<Rightarrow> (mutex, locks))"

text \<open>\<open>withLock(key, fn)\<close> called by task \<open>t\<close>: the task asks for the mutex of the key; \<open>runExclusive\<close> releases
  it when \<open>fn\<close> has settled.\<close>

definition ll_enter :: "'m mutex_class \<Rightarrow> nat \<Rightarrow> string \<Rightarrow> 'm local_lock \<Rightarrow> 'm local_lock" where
  "ll_enter M t key locks = (case getMutex M key locks of (mutex, locks') \<Rightarrow> AList.update key (mx_acquire M t mutex) locks')"

definition ll_leave :: "'m mutex_class \<Rightarrow> string \<Rightarrow> 'm local_lock \<Rightarrow> 'm local_lock" where
  "ll_leave M key locks = (case getMutex M key locks of (mutex, locks') \<Rightarrow> AList.update key (mx_release M mutex) locks')"

datatype lock_event = Enter nat string | Leave string

fun ll_step :: "'m mutex_class \<Rightarrow> lock_event \<Rightarrow> 'm local_lock \<Rightarrow> 'm local_lock" where
  "ll_step M (Enter t key) locks = ll_enter M t key locks"
| "ll_step M (Leave key) locks = ll_leave M key locks"

text \<open>The contract: one queue of tasks per key.\<close>

fun queue_step :: "lock_event \<Rightarrow> (string \<Rightarrow> nat list) \<Rightarrow> string \<Rightarrow> nat list" where
  "queue_step (Enter t key) q = q(key := q key @ [t])"
| "queue_step (Leave key) q = q(key := tl (q key))"

definition queues :: "('m \<Rightarrow> nat list) \<Rightarrow> 'm local_lock \<Rightarrow> string \<Rightarrow> nat list" where
  "queues queue locks key = (case map_of locks key of None \<Rightarrow> [] | Some m \<Rightarrow> queue m)"

context fifo_mutex begin

lemma step_refines: "queues queue (ll_step M e locks) = queue_step e (queues queue locks)"
  by (cases e)
    (auto simp: queues_def ll_enter_def ll_leave_def getMutex_def jmap_simps queue_new queue_acquire queue_release fun_eq_iff
      split: option.splits)

lemma run_refines: "queues queue (fold (ll_step M) es locks) = fold queue_step es (queues queue locks)"
  by (induction es arbitrary: locks) (simp_all add: step_refines)

end

definition list_mutex :: "nat list mutex_class" where
  "list_mutex = \<lparr>mx_new = [], mx_acquire = (\<lambda>t m. m @ [t]), mx_release = tl\<rparr>"

interpretation list_mutex: fifo_mutex list_mutex "\<lambda>m. m"
  by unfold_locales (simp_all add: list_mutex_def)

section \<open>The lock in Redis\<close>

definition DEFAULT_LOCK_TTL_MS :: int where "DEFAULT_LOCK_TTL_MS = 10000"
definition DEFAULT_RETRY_DELAY_MS :: int where "DEFAULT_RETRY_DELAY_MS = 50"
definition DEFAULT_MAX_WAIT_MS :: int where "DEFAULT_MAX_WAIT_MS = 10000"

definition lockKey_of :: "string \<Rightarrow> string" where
  "lockKey_of key = ''baileys-auth:lock:'' @ key"

text \<open>The server: its clock, \<open>SET key value PX ttl NX\<close>, \<open>GET\<close> and \<open>DEL\<close>, and time passing.\<close>

record 's redis_server =
  rs_now :: "'s \<Rightarrow> int"
  rs_set_nx :: "string \<Rightarrow> string \<Rightarrow> int \<Rightarrow> 's \<Rightarrow> bool \<times> 's"
  rs_get :: "string \<Rightarrow> 's \<Rightarrow> string option"
  rs_del :: "string \<Rightarrow> 's \<Rightarrow> 's"
  rs_wait :: "int \<Rightarrow> 's \<Rightarrow> 's"

text \<open>\<open>RELEASE_SCRIPT\<close>, which the server runs atomically.\<close>

definition release_script :: "'s redis_server \<Rightarrow> string \<Rightarrow> string \<Rightarrow> 's \<Rightarrow> int \<times> 's" where
  "release_script S key token s =
     (if rs_get S key s = Some token then (1, rs_del S key s) else (0, s))"

text \<open>One round of the acquisition loop.\<close>

datatype attempt = Acquired | TimedOut | Retry

definition rl_attempt :: "'s redis_server \<Rightarrow> string \<Rightarrow> string \<Rightarrow> int \<Rightarrow> int \<Rightarrow> 's \<Rightarrow> attempt \<times> 's" where
  "rl_attempt S lockKey token ttlMs deadline s =
     (case rs_set_nx S lockKey token ttlMs s of
        (True, s') \<Rightarrow> (Acquired, s')
      | (False, s') \<Rightarrow> (if deadline \<le> rs_now S s' then TimedOut else Retry, s'))"

text \<open>Several processes, each at some point of \<open>withLock\<close> on the same key. A token is fresh when it is
  drawn; \<open>fn\<close> may take any time; the release may fail on the way to the server. A SET may throw, on the
  way to the server or, the server having executed it, on the way back: \<open>withLock\<close> then throws as well,
  and a key that was created belongs to nobody. The processes and the server read one clock.\<close>

datatype phase = Idle | Waiting string int | Running string int

record 's lock_system =
  sy_server :: 's
  sy_phase :: "nat \<Rightarrow> phase"
  sy_tokens :: "string set"

definition after_attempt :: "string \<Rightarrow> int \<Rightarrow> int \<Rightarrow> attempt \<Rightarrow> phase" where
  "after_attempt token deadline now a = (case a of Acquired \<Rightarrow> Running token now | TimedOut \<Rightarrow> Idle | Retry \<Rightarrow> Waiting token deadline)"

inductive lock_step :: "'s redis_server \<Rightarrow> string \<Rightarrow> int \<Rightarrow> 's lock_system \<Rightarrow> 's lock_system \<Rightarrow> bool"
  for S :: "'s redis_server" and key :: string and ttlMs :: int where
  call: "sy_phase y p = Idle \<Longrightarrow> token \<notin> sy_tokens y \<Longrightarrow>
    lock_step S key ttlMs y (y\<lparr>sy_phase := (sy_phase y)(p := Waiting token (rs_now S (sy_server y) + maxWaitMs)),
      sy_tokens := insert token (sy_tokens y)\<rparr>)"
| attempt: "sy_phase y p = Waiting token deadline \<Longrightarrow>
    rl_attempt S (lockKey_of key) token ttlMs deadline (sy_server y) = (a, s) \<Longrightarrow>
    lock_step S key ttlMs y (y\<lparr>sy_server := s,
      sy_phase := (sy_phase y)(p := after_attempt token deadline (rs_now S (sy_server y)) a)\<rparr>)"
| set_failed: "sy_phase y p = Waiting token deadline \<Longrightarrow>
    lock_step S key ttlMs y (y\<lparr>sy_phase := (sy_phase y)(p := Idle)\<rparr>)"
| set_lost: "sy_phase y p = Waiting token deadline \<Longrightarrow>
    rl_attempt S (lockKey_of key) token ttlMs deadline (sy_server y) = (a, s) \<Longrightarrow>
    lock_step S key ttlMs y (y\<lparr>sy_server := s, sy_phase := (sy_phase y)(p := Idle)\<rparr>)"
| release: "sy_phase y p = Running token since \<Longrightarrow>
    lock_step S key ttlMs y (y\<lparr>sy_server := snd (release_script S (lockKey_of key) token (sy_server y)),
      sy_phase := (sy_phase y)(p := Idle)\<rparr>)"
| release_lost: "sy_phase y p = Running token since \<Longrightarrow>
    lock_step S key ttlMs y (y\<lparr>sy_phase := (sy_phase y)(p := Idle)\<rparr>)"
| elapse: "0 \<le> d \<Longrightarrow> lock_step S key ttlMs y (y\<lparr>sy_server := rs_wait S d (sy_server y)\<rparr>)"

definition lock_reach :: "'s redis_server \<Rightarrow> string \<Rightarrow> int \<Rightarrow> 's \<Rightarrow> 's lock_system \<Rightarrow> bool" where
  "lock_reach S key ttlMs s = (lock_step S key ttlMs)\<^sup>*\<^sup>* \<lparr>sy_server = s, sy_phase = (\<lambda>_. Idle), sy_tokens = {}\<rparr>"

text \<open>What Redis documents, over the cells (value and expiry) of the server.\<close>

locale redis_keys =
  fixes S :: "'s redis_server" and cell :: "'s \<Rightarrow> string \<Rightarrow> (string \<times> int) option"
  assumes get_live: "rs_get S k s =
      (case cell s k of None \<Rightarrow> None | Some (v, expiry) \<Rightarrow> if rs_now S s < expiry then Some v else None)"
    and set_free: "rs_get S k s = None \<Longrightarrow> \<exists>s'. rs_set_nx S k v ttl s = (True, s') \<and>
      cell s' = (cell s)(k \<mapsto> (v, rs_now S s + ttl)) \<and> rs_now S s' = rs_now S s"
    and set_taken: "rs_get S k s = Some x \<Longrightarrow> \<exists>s'. rs_set_nx S k v ttl s = (False, s') \<and>
      cell s' = cell s \<and> rs_now S s' = rs_now S s"
    and del_cell: "cell (rs_del S k s) = (cell s)(k := None)" "rs_now S (rs_del S k s) = rs_now S s"
    and wait_clock: "0 \<le> d \<Longrightarrow> cell (rs_wait S d s) = cell s \<and> rs_now S (rs_wait S d s) = rs_now S s + d"
begin

lemma attempt_facts:
  assumes "rl_attempt S k token ttl deadline s = (a, s')"
  shows "rs_now S s' = rs_now S s" and "a = Acquired \<Longrightarrow> rs_get S k s = None \<and> cell s' = (cell s)(k \<mapsto> (token, rs_now S s + ttl))"
    and "a \<noteq> Acquired \<Longrightarrow> cell s' = cell s" and "a = TimedOut \<Longrightarrow> deadline \<le> rs_now S s"
    and "rs_get S k s = None \<Longrightarrow> a = Acquired"
  using assms set_free [of k s token ttl] set_taken [of k s _ token ttl]
  by (cases "rs_get S k s"; fastforce simp: rl_attempt_def split: if_splits)+

end

section \<open>Mutual exclusion\<close>

fun token_of :: "phase \<Rightarrow> string option" where
  "token_of Idle = None"
| "token_of (Waiting token _) = Some token"
| "token_of (Running token _) = Some token"

text \<open>A caller holds the lock as long as its time to live has not passed.\<close>

definition holds :: "'s redis_server \<Rightarrow> int \<Rightarrow> 's lock_system \<Rightarrow> nat \<Rightarrow> string \<Rightarrow> int \<Rightarrow> bool" where
  "holds S ttlMs y p token since \<longleftrightarrow> sy_phase y p = Running token since \<and> rs_now S (sy_server y) < since + ttlMs"

definition lock_inv ::
  "('s \<Rightarrow> string \<Rightarrow> (string \<times> int) option) \<Rightarrow> 's redis_server \<Rightarrow> string \<Rightarrow> int \<Rightarrow> 's lock_system \<Rightarrow> bool" where
  "lock_inv cell S key ttlMs y \<longleftrightarrow>
     (\<forall>p t. token_of (sy_phase y p) = Some t \<longrightarrow> t \<in> sy_tokens y) \<and>
     (\<forall>p q t. token_of (sy_phase y p) = Some t \<longrightarrow> token_of (sy_phase y q) = Some t \<longrightarrow> p = q) \<and>
     (\<forall>p t since. holds S ttlMs y p t since \<longrightarrow> cell (sy_server y) (lockKey_of key) = Some (t, since + ttlMs))"

lemma lock_invD:
  assumes "lock_inv cell S key ttlMs y"
  shows "token_of (sy_phase y p) = Some t \<Longrightarrow> t \<in> sy_tokens y"
    and "token_of (sy_phase y p) = Some t \<Longrightarrow> token_of (sy_phase y q) = Some t \<Longrightarrow> p = q"
    and "holds S ttlMs y p t since \<Longrightarrow> cell (sy_server y) (lockKey_of key) = Some (t, since + ttlMs)"
  using assms unfolding lock_inv_def by blast+

inductive_cases lock_stepE: "lock_step S key ttlMs y y'"

context redis_keys begin

lemma holds_live:
  assumes "lock_inv cell S key ttlMs y" and "holds S ttlMs y p t since"
  shows "rs_get S (lockKey_of key) (sy_server y) = Some t"
  using lock_invD(3) [OF assms] assms(2) by (simp add: get_live holds_def)

lemma inv_call:
  assumes "lock_inv cell S key ttlMs y" and "sy_phase y p = Idle" and "token \<notin> sy_tokens y"
  shows "lock_inv cell S key ttlMs (y\<lparr>sy_phase := (sy_phase y)(p := Waiting token dl), sy_tokens := insert token (sy_tokens y)\<rparr>)"
  using lock_invD [OF assms(1)] assms(2,3) unfolding lock_inv_def holds_def by (auto split: if_splits)

lemma inv_leave:
  assumes "lock_inv cell S key ttlMs y" and "cell s (lockKey_of key) = cell (sy_server y) (lockKey_of key) \<or>
      (\<forall>q t since. q \<noteq> p \<longrightarrow> \<not> holds S ttlMs y q t since)" and "rs_now S s = rs_now S (sy_server y)"
  shows "lock_inv cell S key ttlMs (y\<lparr>sy_server := s, sy_phase := (sy_phase y)(p := Idle)\<rparr>)"
  using lock_invD [OF assms(1)] assms(2,3) unfolding lock_inv_def holds_def by (auto split: if_splits)

lemma inv_release:
  assumes "lock_inv cell S key ttlMs y" and "sy_phase y p = Running t since"
  shows "lock_inv cell S key ttlMs (y\<lparr>sy_server := snd (release_script S (lockKey_of key) t (sy_server y)),
    sy_phase := (sy_phase y)(p := Idle)\<rparr>)"
proof (rule inv_leave [OF assms(1)])
  show "cell (snd (release_script S (lockKey_of key) t (sy_server y))) (lockKey_of key) = cell (sy_server y) (lockKey_of key) \<or>
      (\<forall>q t since. q \<noteq> p \<longrightarrow> \<not> holds S ttlMs y q t since)"
  proof (cases "rs_get S (lockKey_of key) (sy_server y) = Some t")
    case True
    have "\<not> holds S ttlMs y q t' since'" if "q \<noteq> p" for q t' since'
    proof
      assume h: "holds S ttlMs y q t' since'"
      from holds_live [OF assms(1) h] True have "t' = t" by simp
      with h lock_invD(2) [OF assms(1), of q t p] assms(2) that show False by (simp add: holds_def)
    qed
    then show ?thesis by blast
  qed (simp add: release_script_def)
qed (simp add: release_script_def del_cell)

lemma inv_attempt:
  assumes "lock_inv cell S key ttlMs y" and "sy_phase y p = Waiting t dl"
    and a: "rl_attempt S (lockKey_of key) t ttlMs dl (sy_server y) = (a, s)"
  shows "lock_inv cell S key ttlMs (y\<lparr>sy_server := s,
    sy_phase := (sy_phase y)(p := after_attempt t dl (rs_now S (sy_server y)) a)\<rparr>)"
proof (cases a)
  case Acquired
  note f = attempt_facts(1,2) [OF a]
  have none: "\<not> holds S ttlMs y q t' since'" for q t' since'
    using holds_live [OF assms(1)] f(2) [OF Acquired] by fastforce
  show ?thesis
    using lock_invD(1,2) [OF assms(1)] assms(2) none f(1) f(2) [OF Acquired]
    unfolding lock_inv_def holds_def after_attempt_def Acquired by (auto split: if_splits) (metis token_of.simps(2))+
next
  case TimedOut
  with attempt_facts(1,3) [OF a] show ?thesis
    using inv_leave [OF assms(1), of s p] by (simp add: after_attempt_def)
next
  case Retry
  with attempt_facts(1,3) [OF a] have "rs_now S s = rs_now S (sy_server y)" "cell s = cell (sy_server y)" by simp_all
  moreover have "(sy_phase y)(p := Waiting t dl) = sy_phase y" using assms(2) by auto
  ultimately show ?thesis using lock_invD [OF assms(1)]
    unfolding lock_inv_def holds_def after_attempt_def Retry by auto
qed

lemma inv_lost:
  assumes "lock_inv cell S key ttlMs y" and a: "rl_attempt S (lockKey_of key) t ttlMs dl (sy_server y) = (a, s)"
  shows "lock_inv cell S key ttlMs (y\<lparr>sy_server := s, sy_phase := (sy_phase y)(p := Idle)\<rparr>)"
proof (rule inv_leave [OF assms(1) _ attempt_facts(1) [OF a]])
  show "cell s (lockKey_of key) = cell (sy_server y) (lockKey_of key) \<or> (\<forall>q t since. q \<noteq> p \<longrightarrow> \<not> holds S ttlMs y q t since)"
    using attempt_facts(2,3) [OF a] holds_live [OF assms(1)] by (cases "a = Acquired") fastforce+
qed

lemma inv_gone: "lock_inv cell S key ttlMs y \<Longrightarrow> lock_inv cell S key ttlMs (y\<lparr>sy_phase := (sy_phase y)(p := Idle)\<rparr>)"
  using inv_leave [of key ttlMs y "sy_server y" p] by simp

lemma inv_step: "lock_step S key ttlMs y y' \<Longrightarrow> lock_inv cell S key ttlMs y \<Longrightarrow> lock_inv cell S key ttlMs y'"
proof (erule lock_stepE)
  fix d
  assume inv: "lock_inv cell S key ttlMs y" and y': "y' = y\<lparr>sy_server := rs_wait S d (sy_server y)\<rparr>" and "0 \<le> d"
  with wait_clock [OF \<open>0 \<le> d\<close>] lock_invD [OF inv] show ?thesis unfolding lock_inv_def holds_def by auto
qed (auto intro: inv_call inv_release inv_attempt inv_lost inv_gone)

lemma reach_inv: "lock_reach S key ttlMs s y \<Longrightarrow> lock_inv cell S key ttlMs y"
  unfolding lock_reach_def
proof (induction rule: rtranclp_induct)
  case base
  show ?case by (simp add: lock_inv_def holds_def)
qed (blast intro: inv_step)

end

section \<open>One call of withLock\<close>

text \<open>The client as the caller sees it: commands that may throw, \<open>Date.now()\<close> and \<open>setTimeout\<close>.\<close>

record 's lock_client =
  lc_now :: "'s \<Rightarrow> int"
  lc_set :: "string \<Rightarrow> string \<Rightarrow> int \<Rightarrow> ('s, bool) io"
  lc_eval_release :: "string \<Rightarrow> string \<Rightarrow> ('s, unit) io"
  lc_sleep :: "int \<Rightarrow> 's \<Rightarrow> 's"

partial_function (option) rl_acquire ::
  "'s lock_client \<Rightarrow> int \<Rightarrow> string \<Rightarrow> string \<Rightarrow> int \<Rightarrow> int \<Rightarrow> 's \<Rightarrow> ((error + unit) \<times> 's) option" where
  "rl_acquire C ttlMs key token maxWaitMs deadline s =
     (case lc_set C (lockKey_of key) token ttlMs s of
        (Inl e, s') \<Rightarrow> Some (Inl e, s')
      | (Inr acquired, s') \<Rightarrow>
          if acquired then Some (Inr (), s')
          else if deadline \<le> lc_now C s' then Some (Inl (LockTimeout key maxWaitMs), s')
          else rl_acquire C ttlMs key token maxWaitMs deadline (lc_sleep C DEFAULT_RETRY_DELAY_MS s'))"

text \<open>\<open>token\<close> is what \<open>randomUUID()\<close> returned. The release runs whether \<open>fn\<close> returned or threw, and its own
  failure is swallowed.\<close>

definition rl_withLock ::
  "'s lock_client \<Rightarrow> int \<Rightarrow> string \<Rightarrow> string \<Rightarrow> int \<Rightarrow> ('s, 'a) io \<Rightarrow> 's \<Rightarrow> ((error + 'a) \<times> 's) option" where
  "rl_withLock C ttlMs token key maxWaitMs fn s =
     (case rl_acquire C ttlMs key token maxWaitMs (lc_now C s + maxWaitMs) s of
        None \<Rightarrow> None
      | Some (Inl e, s1) \<Rightarrow> Some (Inl e, s1)
      | Some (Inr _, s1) \<Rightarrow>
          (case fn s1 of (r, s2) \<Rightarrow> Some (r, snd (lc_eval_release C (lockKey_of key) token s2))))"

text \<open>Clocks do not go back, and a timer does not fire early.\<close>

definition clock_ok :: "'s lock_client \<Rightarrow> bool" where
  "clock_ok C \<longleftrightarrow> (\<forall>k t ttl s. lc_now C s \<le> lc_now C (snd (lc_set C k t ttl s))) \<and>
     (\<forall>d s. 0 \<le> d \<longrightarrow> lc_now C s + d \<le> lc_now C (lc_sleep C d s))"

lemma acquire_ends:
  assumes "clock_ok C"
  shows "\<exists>r s'. rl_acquire C ttl key token mw dl s = Some (r, s') \<and>
    (\<forall>u. r = Inr u \<longrightarrow> (\<exists>s0. lc_set C (lockKey_of key) token ttl s0 = (Inr True, s'))) \<and>
    (\<forall>e. r = Inl e \<longrightarrow> (e = LockTimeout key mw \<and> dl \<le> lc_now C s' \<and> (\<exists>s0. lc_set C (lockKey_of key) token ttl s0 = (Inr False, s'))) \<or>
      (\<exists>s0. lc_set C (lockKey_of key) token ttl s0 = (Inl e, s')))"
proof (induction "nat (dl - lc_now C s)" arbitrary: s rule: less_induct)
  case less
  obtain r1 s1 where set: "lc_set C (lockKey_of key) token ttl s = (r1, s1)" by fastforce
  note unfold = rl_acquire.simps [of C ttl key token mw dl s]
  show ?case
  proof (cases "r1 = Inr False \<and> lc_now C s1 < dl")
    case True
    let ?s = "lc_sleep C DEFAULT_RETRY_DELAY_MS s1"
    from assms have "lc_now C s \<le> lc_now C (snd (lc_set C (lockKey_of key) token ttl s))"
      and "lc_now C s1 + DEFAULT_RETRY_DELAY_MS \<le> lc_now C ?s"
      unfolding clock_ok_def by (auto simp: DEFAULT_RETRY_DELAY_MS_def)
    with True set have "nat (dl - lc_now C ?s) < nat (dl - lc_now C s)" by (simp add: DEFAULT_RETRY_DELAY_MS_def)
    from less [OF this] True set unfold show ?thesis by simp
  next
    case False
    with set unfold show ?thesis by (cases r1) auto
  qed
qed

section \<open>A server to compute with\<close>

record key_cells =
  kc_now :: int
  kc_cells :: "string \<rightharpoonup> string \<times> int"

definition kc_get :: "string \<Rightarrow> key_cells \<Rightarrow> string option" where
  "kc_get k s = (case kc_cells s k of None \<Rightarrow> None | Some (v, expiry) \<Rightarrow> if kc_now s < expiry then Some v else None)"

definition mem_redis :: "key_cells redis_server" where
  "mem_redis = \<lparr>rs_now = kc_now,
     rs_set_nx = (\<lambda>k v ttl s. if kc_get k s = None then (True, s\<lparr>kc_cells := (kc_cells s)(k \<mapsto> (v, kc_now s + ttl))\<rparr>) else (False, s)),
     rs_get = kc_get, rs_del = (\<lambda>k s. s\<lparr>kc_cells := (kc_cells s)(k := None)\<rparr>),
     rs_wait = (\<lambda>d s. s\<lparr>kc_now := kc_now s + d\<rparr>)\<rparr>"

definition no_locks :: key_cells where
  "no_locks = \<lparr>kc_now = 0, kc_cells = Map.empty\<rparr>"

interpretation mem_redis: redis_keys mem_redis kc_cells
  by unfold_locales (auto simp: mem_redis_def kc_get_def split: option.splits)

section \<open>Who can be inside\<close>

context redis_keys begin

text \<open>No lock outlives its time to live, whoever died holding it.\<close>

definition expires :: "string \<Rightarrow> int \<Rightarrow> 's lock_system \<Rightarrow> bool" where
  "expires key ttlMs y \<longleftrightarrow>
     (\<forall>v e. cell (sy_server y) (lockKey_of key) = Some (v, e) \<longrightarrow> e \<le> rs_now S (sy_server y) + ttlMs)"

lemma expires_step: "lock_step S key ttlMs y y' \<Longrightarrow> expires key ttlMs y \<Longrightarrow> expires key ttlMs y'"
proof (erule lock_stepE)
  fix p t dl a s
  assume "expires key ttlMs y" and "rl_attempt S (lockKey_of key) t ttlMs dl (sy_server y) = (a, s)"
    and "y' = y\<lparr>sy_server := s, sy_phase := (sy_phase y)(p := after_attempt t dl (rs_now S (sy_server y)) a)\<rparr>"
  with attempt_facts(1-3) show ?thesis by (cases "a = Acquired") (fastforce simp: expires_def)+
next
  fix p t dl a s
  assume "expires key ttlMs y" and "rl_attempt S (lockKey_of key) t ttlMs dl (sy_server y) = (a, s)"
    and "y' = y\<lparr>sy_server := s, sy_phase := (sy_phase y)(p := Idle)\<rparr>"
  with attempt_facts(1-3) show ?thesis by (cases "a = Acquired") (fastforce simp: expires_def)+
next
  fix d
  assume ex: "expires key ttlMs y" and y': "y' = y\<lparr>sy_server := rs_wait S d (sy_server y)\<rparr>" and d: "0 \<le> d"
  have "e \<le> rs_now S (sy_server y) + d + ttlMs" if "cell (sy_server y) (lockKey_of key) = Some (v, e)" for v e
    using ex that d unfolding expires_def by fastforce
  with wait_clock [OF d, of "sy_server y"] y' show ?thesis by (simp add: expires_def)
qed (auto simp: expires_def release_script_def del_cell)

lemma reach_expires:
  assumes "lock_reach S key ttlMs s y" and "cell s (lockKey_of key) = None"
  shows "expires key ttlMs y"
  using assms(1) unfolding lock_reach_def
proof (induction rule: rtranclp_induct)
  case base
  with assms(2) show ?case by (simp add: expires_def)
qed (blast intro: expires_step)

text \<open>As long as nobody finds the key free, what holds it stays, and time runs out on it.\<close>

definition locked_until :: "string \<Rightarrow> int \<Rightarrow> 's lock_system \<Rightarrow> bool" where
  "locked_until key e y \<longleftrightarrow> rs_now S (sy_server y) < e \<and> (\<exists>v. cell (sy_server y) (lockKey_of key) = Some (v, e))"

lemma attempt_taken: "rs_get S k s \<noteq> None \<Longrightarrow> rl_attempt S k token ttl deadline s = (a, s') \<Longrightarrow> cell s' = cell s \<and> rs_now S s' = rs_now S s"
  using attempt_facts(1-3) [of k token ttl deadline s a s'] by (cases "a = Acquired") auto

lemma free_or_locked:
  "rs_get S (lockKey_of key) (sy_server y) = None \<or> (\<exists>e. locked_until key e y)"
  by (auto simp: get_live locked_until_def split: option.splits)

lemma locked_until_step:
  assumes "lock_step S key ttlMs y y'" and "locked_until key e y"
  shows "rs_get S (lockKey_of key) (sy_server y') = None \<or> locked_until key e y'"
proof -
  have taken: "rs_get S (lockKey_of key) (sy_server y) \<noteq> None" using assms(2) by (auto simp: locked_until_def get_live)
  show ?thesis
    using assms(1)
  proof cases
    case (release p t since)
    with assms(2) show ?thesis by (auto simp: locked_until_def release_script_def get_live del_cell)
  next
    case (elapse d)
    with assms(2) wait_clock [of d "sy_server y"] show ?thesis by (auto simp: locked_until_def get_live)
  qed (use assms(2) attempt_taken [OF taken] in \<open>auto simp: locked_until_def\<close>)
qed

lemma freed_within_ttl:
  assumes "expires key ttlMs y" and "(lock_step S key ttlMs)\<^sup>*\<^sup>* y y'" and "rs_now S (sy_server y) + ttlMs \<le> rs_now S (sy_server y')"
  shows "\<exists>z. (lock_step S key ttlMs)\<^sup>*\<^sup>* y z \<and> (lock_step S key ttlMs)\<^sup>*\<^sup>* z y' \<and> rs_get S (lockKey_of key) (sy_server z) = None"
proof -
  consider "rs_get S (lockKey_of key) (sy_server y) = None" | e where "locked_until key e y" using free_or_locked [of key y] by auto
  then show ?thesis
  proof cases
    case 1
    with assms(2) show ?thesis by blast
  next
    case (2 e)
    with assms(1) have e: "e \<le> rs_now S (sy_server y) + ttlMs" by (auto simp: locked_until_def expires_def)
    from assms(2) have "(\<exists>z. (lock_step S key ttlMs)\<^sup>*\<^sup>* y z \<and> (lock_step S key ttlMs)\<^sup>*\<^sup>* z y' \<and> rs_get S (lockKey_of key) (sy_server z) = None) \<or>
        locked_until key e y'"
    proof (induction rule: rtranclp_induct)
      case base
      from 2 show ?case by simp
    next
      case (step y1 y2)
      from locked_until_step [OF step.hyps(2)] step show ?case by (meson rtranclp.rtrancl_into_rtrancl rtranclp.rtrancl_refl)
    qed
    with e assms(3) show ?thesis by (auto simp: locked_until_def)
  qed
qed

end

text \<open>The client of a caller nobody else interferes with: its commands go straight to the server.\<close>

definition lock_client_of :: "'s redis_server \<Rightarrow> 's lock_client" where
  "lock_client_of S = \<lparr>lc_now = rs_now S, lc_set = (\<lambda>k t ttl s. map_prod Inr id (rs_set_nx S k t ttl s)),
     lc_eval_release = (\<lambda>k t s. (Inr (), snd (release_script S k t s))), lc_sleep = rs_wait S\<rparr>"

context redis_keys begin

text \<open>The loop outlasts whatever holds the key, when that ends before the deadline.\<close>

lemma acquires_alone:
  assumes "\<And>v e. cell s (lockKey_of key) = Some (v, e) \<Longrightarrow> e \<le> b" and "b \<le> dl" and "rs_now S s < b + DEFAULT_RETRY_DELAY_MS"
  shows "\<exists>s1. rl_acquire (lock_client_of S) ttl key token mw dl s = Some (Inr (), s1) \<and>
    rs_now S s1 < b + DEFAULT_RETRY_DELAY_MS \<and> cell s1 (lockKey_of key) = Some (token, rs_now S s1 + ttl)"
  using assms(1,3)
proof (induction "nat (b + DEFAULT_RETRY_DELAY_MS - rs_now S s)" arbitrary: s rule: less_induct)
  case less
  let ?C = "lock_client_of S"
  note unfold = rl_acquire.simps [of ?C ttl key token mw dl s]
  show ?case
  proof (cases "rs_get S (lockKey_of key) s")
    case None
    from set_free [OF None, of token ttl] obtain s1 where "rs_set_nx S (lockKey_of key) token ttl s = (True, s1)"
      "cell s1 = (cell s)(lockKey_of key \<mapsto> (token, rs_now S s + ttl))" "rs_now S s1 = rs_now S s" by blast
    with less.prems(2) show ?thesis by (simp add: unfold) (simp add: lock_client_of_def)
  next
    case (Some v)
    from set_taken [OF Some, of token ttl] obtain s1 where s1: "rs_set_nx S (lockKey_of key) token ttl s = (False, s1)"
      "cell s1 = cell s" "rs_now S s1 = rs_now S s" by blast
    have d: "0 \<le> DEFAULT_RETRY_DELAY_MS" "0 < DEFAULT_RETRY_DELAY_MS" by (simp_all add: DEFAULT_RETRY_DELAY_MS_def)
    let ?s = "rs_wait S DEFAULT_RETRY_DELAY_MS s1"
    have w: "cell ?s = cell s" "rs_now S ?s = rs_now S s + DEFAULT_RETRY_DELAY_MS" using wait_clock [OF d(1), of s1] s1 by simp_all
    from Some less.prems(1) have now: "rs_now S s < b" by (fastforce simp: get_live split: option.splits if_splits)
    have "rl_acquire ?C ttl key token mw dl s = rl_acquire ?C ttl key token mw dl ?s"
      using s1 now assms(2) by (simp add: unfold) (simp add: lock_client_of_def)
    moreover have "nat (b + DEFAULT_RETRY_DELAY_MS - rs_now S ?s) < nat (b + DEFAULT_RETRY_DELAY_MS - rs_now S s)"
      using w(2) d(2) now by simp
    ultimately show ?thesis using less.hyps [of ?s] less.prems(1) w now by simp
  qed
qed

lemma call_and_get:
  assumes "sy_phase y p = Idle" and "t \<notin> sy_tokens y" and "rs_get S (lockKey_of key) (sy_server y) = None"
  shows "\<exists>y'. (lock_step S key ttlMs)\<^sup>*\<^sup>* y y' \<and> sy_phase y' = (sy_phase y)(p := Running t (rs_now S (sy_server y))) \<and>
    sy_tokens y' = insert t (sy_tokens y) \<and> rs_now S (sy_server y') = rs_now S (sy_server y) \<and>
    cell (sy_server y') = (cell (sy_server y))(lockKey_of key \<mapsto> (t, rs_now S (sy_server y) + ttlMs))"
proof -
  let ?y = "y\<lparr>sy_phase := (sy_phase y)(p := Waiting t (rs_now S (sy_server y) + mw)), sy_tokens := insert t (sy_tokens y)\<rparr>"
  obtain a s where a: "rl_attempt S (lockKey_of key) t ttlMs (rs_now S (sy_server y) + mw) (sy_server ?y) = (a, s)" by fastforce
  from attempt_facts(5) [OF a] assms(3) have acq: "a = Acquired" by simp
  let ?z = "?y\<lparr>sy_server := s, sy_phase := (sy_phase ?y)(p := after_attempt t (rs_now S (sy_server y) + mw) (rs_now S (sy_server ?y)) a)\<rparr>"
  have "lock_step S key ttlMs y ?y" by (rule call [OF assms(1,2)])
  moreover have "lock_step S key ttlMs ?y ?z" by (rule attempt [OF _ a]) simp
  ultimately have "(lock_step S key ttlMs)\<^sup>*\<^sup>* y ?z" by (blast intro: rtranclp.rtrancl_into_rtrancl)
  with attempt_facts(1,2) [OF a] acq show ?thesis by (intro exI [of _ ?z]) (simp add: after_attempt_def)
qed

end

section \<open>Properties\<close>

text \<open>C4. The Redis lock excludes: however the calls, rounds of the loop, releases (successful or lost) and
  pauses of any number of processes interleave, a caller that is inside \<open>fn\<close> with its time to live not
  yet passed still owns the key in Redis (so no other caller's release has freed it), and no two
  such callers exist at a time.\<close>

theorem redis_lock_exclusion:
  assumes "redis_keys S cell" and "lock_reach S key ttlMs s y" and "holds S ttlMs y p t since"
  shows "rs_get S (lockKey_of key) (sy_server y) = Some t \<and> (\<forall>q t' since'. q \<noteq> p \<longrightarrow> \<not> holds S ttlMs y q t' since')"
proof -
  note inv = redis_keys.reach_inv [OF assms(1,2)]
  note own = redis_keys.holds_live [OF assms(1) inv]
  have "q = p" if h: "holds S ttlMs y q t' since'" for q t' since'
  proof -
    have "t' = t" using own [OF assms(3)] own [OF h] by simp
    with lock_invD(2) [OF inv, of q t p] h assms(3) show ?thesis by (simp add: holds_def)
  qed
  with own [OF assms(3)] show ?thesis by blast
qed

lemma sample_holder:
  "\<exists>y. lock_reach mem_redis ''bot'' 10000 no_locks y \<and> holds mem_redis 10000 y 0 ''t0'' 0"
proof -
  obtain y' where "(lock_step mem_redis ''bot'' 10000)\<^sup>*\<^sup>* \<lparr>sy_server = no_locks, sy_phase = (\<lambda>_. Idle), sy_tokens = {}\<rparr> y'"
    and "sy_phase y' = (\<lambda>_. Idle)(0 := Running ''t0'' 0)" and "rs_now mem_redis (sy_server y') = 0"
    using mem_redis.call_and_get [of "\<lparr>sy_server = no_locks, sy_phase = (\<lambda>_. Idle), sy_tokens = {}\<rparr>" 0 "''t0''" "''bot''" 10000]
    by (auto simp: mem_redis_def no_locks_def kc_get_def)
  then show ?thesis by (intro exI [of _ y']) (simp add: lock_reach_def holds_def)
qed

theorem redis_lock_exclusion_witness:
  "\<exists>y. lock_reach mem_redis ''bot'' 10000 no_locks y \<and> rs_get mem_redis (lockKey_of ''bot'') (sy_server y) = Some ''t0''"
  using sample_holder redis_lock_exclusion [OF mem_redis.redis_keys_axioms] by blast

text \<open>C21. The Redis lock recovers from a holder that died, or whose release was lost, within one time to
  live. In every reachable state: (1) however the system goes on, in any stretch of \<open>ttlMs\<close> there is a
  moment at which the key is free; (2) a call of \<open>withLock\<close> that waits at least \<open>ttlMs\<close> and meets no
  competition does not time out: it runs \<open>fn\<close>, started before \<open>ttlMs\<close> and one retry delay have passed,
  owning the key for \<open>ttlMs\<close> from then on.\<close>

theorem redis_lock_recovers:
  assumes "redis_keys S cell" and "lock_reach S key ttlMs s y" and "cell s (lockKey_of key) = None" and "0 \<le> ttlMs"
  shows "(\<forall>y'. (lock_step S key ttlMs)\<^sup>*\<^sup>* y y' \<and> rs_now S (sy_server y) + ttlMs \<le> rs_now S (sy_server y') \<longrightarrow>
      (\<exists>z. (lock_step S key ttlMs)\<^sup>*\<^sup>* y z \<and> (lock_step S key ttlMs)\<^sup>*\<^sup>* z y' \<and> rs_get S (lockKey_of key) (sy_server z) = None)) \<and>
    (ttlMs \<le> maxWaitMs \<longrightarrow>
      (\<exists>s1. rl_withLock (lock_client_of S) ttlMs token key maxWaitMs fn (sy_server y) =
          Some (fst (fn s1), snd (release_script S (lockKey_of key) token (snd (fn s1)))) \<and>
        rs_now S s1 < rs_now S (sy_server y) + ttlMs + DEFAULT_RETRY_DELAY_MS \<and>
        cell s1 (lockKey_of key) = Some (token, rs_now S s1 + ttlMs)))"
proof -
  note ex = redis_keys.reach_expires [OF assms(1-3)]
  have "\<exists>s1. rl_withLock (lock_client_of S) ttlMs token key maxWaitMs fn (sy_server y) =
          Some (fst (fn s1), snd (release_script S (lockKey_of key) token (snd (fn s1)))) \<and>
        rs_now S s1 < rs_now S (sy_server y) + ttlMs + DEFAULT_RETRY_DELAY_MS \<and>
        cell s1 (lockKey_of key) = Some (token, rs_now S s1 + ttlMs)" if long: "ttlMs \<le> maxWaitMs"
  proof -
    have "e \<le> rs_now S (sy_server y) + ttlMs" if "cell (sy_server y) (lockKey_of key) = Some (v, e)" for v e
      using ex that by (simp add: redis_keys.expires_def [OF assms(1)])
    then obtain s1 where s1: "rl_acquire (lock_client_of S) ttlMs key token maxWaitMs (rs_now S (sy_server y) + maxWaitMs) (sy_server y) = Some (Inr (), s1)"
      "rs_now S s1 < rs_now S (sy_server y) + ttlMs + DEFAULT_RETRY_DELAY_MS" "cell s1 (lockKey_of key) = Some (token, rs_now S s1 + ttlMs)"
      using redis_keys.acquires_alone [OF assms(1), of "sy_server y" key "rs_now S (sy_server y) + ttlMs" "rs_now S (sy_server y) + maxWaitMs" ttlMs token maxWaitMs]
        long assms(4) by (auto simp: DEFAULT_RETRY_DELAY_MS_def)
    have "lc_now (lock_client_of S) = rs_now S" by (simp add: lock_client_of_def)
    with s1 show ?thesis by (intro exI [of _ s1]) (simp add: rl_withLock_def case_prod_beta lock_client_of_def)
  qed
  with redis_keys.freed_within_ttl [OF assms(1) ex] show ?thesis by blast
qed

text \<open>A holder that died at once, with nobody else there: a second caller runs its \<open>fn\<close> within the time to live.\<close>

theorem redis_lock_recovers_witness:
  "\<exists>y s1. lock_reach mem_redis ''bot'' 10000 no_locks y \<and> rs_get mem_redis (lockKey_of ''bot'') (sy_server y) = Some ''t0'' \<and>
     rl_withLock (lock_client_of mem_redis) 10000 ''t1'' ''bot'' 10000 (\<lambda>s. (Inr (), s)) (sy_server y) =
       Some (Inr (), snd (release_script mem_redis (lockKey_of ''bot'') ''t1'' s1)) \<and> rs_now mem_redis s1 < 10050"
proof -
  let ?i = "\<lparr>sy_server = no_locks, sy_phase = (\<lambda>_. Idle), sy_tokens = {}\<rparr>"
  have "rs_get mem_redis (lockKey_of ''bot'') (sy_server ?i) = None" by (simp add: mem_redis_def no_locks_def kc_get_def)
  from mem_redis.call_and_get [OF _ _ this, of 0 "''t0''" 10000] obtain y where
    "(lock_step mem_redis ''bot'' 10000)\<^sup>*\<^sup>* ?i y" "rs_now mem_redis (sy_server y) = rs_now mem_redis no_locks"
    "kc_cells (sy_server y) = (kc_cells no_locks)(lockKey_of ''bot'' \<mapsto> (''t0'', rs_now mem_redis no_locks + 10000))" by auto
  then have y: "lock_reach mem_redis ''bot'' 10000 no_locks y" "rs_now mem_redis (sy_server y) = 0"
      "kc_cells (sy_server y) (lockKey_of ''bot'') = Some (''t0'', 10000)"
    by (simp_all add: lock_reach_def mem_redis_def no_locks_def)
  have held: "rs_get mem_redis (lockKey_of ''bot'') (sy_server y) = Some ''t0''" using y(2,3) by (simp add: mem_redis.get_live)
  have "kc_cells no_locks (lockKey_of ''bot'') = None" by (simp add: no_locks_def)
  from conjunct2 [OF redis_lock_recovers [OF mem_redis.redis_keys_axioms y(1) this, where fn = "\<lambda>s. (Inr (), s)" and token = "''t1''" and maxWaitMs = 10000]]
  obtain s1 where "rl_withLock (lock_client_of mem_redis) 10000 ''t1'' ''bot'' 10000 (\<lambda>s. (Inr (), s)) (sy_server y) =
      Some (Inr (), snd (release_script mem_redis (lockKey_of ''bot'') ''t1'' s1))" "rs_now mem_redis s1 < 10050"
    unfolding y(2) DEFAULT_RETRY_DELAY_MS_def by auto
  with y(1) held show ?thesis by blast
qed

text \<open>The Redis lock does not outlive its time to live: from any server on which it is free, two processes
  can both be inside \<open>fn\<close> for the same key, once the first has been inside for ten seconds (which a
  write that is retried may well be).\<close>

lemma redis_lock_overrun:
  assumes "redis_keys S cell" and "rs_get S (lockKey_of key) s = None"
  shows "\<exists>y since since'. lock_reach S key DEFAULT_LOCK_TTL_MS s y \<and>
    sy_phase y 0 = Running ''t0'' since \<and> sy_phase y 1 = Running ''t1'' since' \<and> since' = since + DEFAULT_LOCK_TTL_MS"
proof -
  let ?i = "\<lparr>sy_server = s, sy_phase = (\<lambda>_. Idle), sy_tokens = {}\<rparr>"
  have free: "rs_get S (lockKey_of key) (sy_server ?i) = None" using assms(2) by simp
  from redis_keys.call_and_get [OF assms(1) _ _ free, of 0 "''t0''" DEFAULT_LOCK_TTL_MS]
  obtain y1 where y1: "(lock_step S key DEFAULT_LOCK_TTL_MS)\<^sup>*\<^sup>* ?i y1"
    "sy_phase y1 = (sy_phase ?i)(0 := Running ''t0'' (rs_now S (sy_server ?i)))" "sy_tokens y1 = insert ''t0'' (sy_tokens ?i)"
    "rs_now S (sy_server y1) = rs_now S (sy_server ?i)"
    "cell (sy_server y1) = (cell (sy_server ?i))(lockKey_of key \<mapsto> (''t0'', rs_now S (sy_server ?i) + DEFAULT_LOCK_TTL_MS))"
    by (metis lock_system.select_convs(2,3) empty_iff)
  let ?y = "y1\<lparr>sy_server := rs_wait S DEFAULT_LOCK_TTL_MS (sy_server y1)\<rparr>"
  have d: "0 \<le> DEFAULT_LOCK_TTL_MS" by (simp add: DEFAULT_LOCK_TTL_MS_def)
  note w = redis_keys.wait_clock [OF assms(1) d, of "sy_server y1"]
  have "lock_step S key DEFAULT_LOCK_TTL_MS y1 ?y" using d by (rule elapse)
  with y1(1) have r: "(lock_step S key DEFAULT_LOCK_TTL_MS)\<^sup>*\<^sup>* ?i ?y" by (rule rtranclp.rtrancl_into_rtrancl)
  have "rs_get S (lockKey_of key) (sy_server ?y) = None" using w y1(4,5) by (simp add: redis_keys.get_live [OF assms(1)])
  from redis_keys.call_and_get [OF assms(1) _ _ this, of 1 "''t1''" DEFAULT_LOCK_TTL_MS] y1(2,3)
  obtain y2 where "(lock_step S key DEFAULT_LOCK_TTL_MS)\<^sup>*\<^sup>* ?y y2"
    and "sy_phase y2 = (sy_phase ?y)(1 := Running ''t1'' (rs_now S (sy_server ?y)))"
    by auto
  with r have "lock_reach S key DEFAULT_LOCK_TTL_MS s y2 \<and> sy_phase y2 0 = Running ''t0'' (rs_now S s) \<and>
      sy_phase y2 1 = Running ''t1'' (rs_now S s + DEFAULT_LOCK_TTL_MS)"
    using y1(2,4) w unfolding lock_reach_def by simp
  then show ?thesis by blast
qed

lemma redis_lock_overrun_witness:
  "\<exists>y since since'. lock_reach mem_redis ''bot'' DEFAULT_LOCK_TTL_MS no_locks y \<and>
    sy_phase y 0 = Running ''t0'' since \<and> sy_phase y 1 = Running ''t1'' since' \<and> since' = since + DEFAULT_LOCK_TTL_MS"
  by (rule redis_lock_overrun [OF mem_redis.redis_keys_axioms]) (simp add: mem_redis_def no_locks_def kc_get_def)

text \<open>C20. \<open>withLock\<close> on Redis always settles, and runs \<open>fn\<close> at most once and only with the lock: over any
  client whose clock does not go back, the call either ran \<open>fn\<close> right after an answer OK to its SET,
  released, and settles with the outcome of \<open>fn\<close>; or it did not run \<open>fn\<close> and throws, the timeout error
  only after the deadline with the key still taken, or the client's own error.\<close>

theorem redis_lock_settles:
  assumes "clock_ok C"
  shows "\<exists>r s'. rl_withLock C ttlMs token key maxWaitMs fn s = Some (r, s') \<and>
    ((\<exists>s0 s1. lc_set C (lockKey_of key) token ttlMs s0 = (Inr True, s1) \<and> r = fst (fn s1) \<and>
        s' = snd (lc_eval_release C (lockKey_of key) token (snd (fn s1)))) \<or>
     (\<exists>s0. lc_set C (lockKey_of key) token ttlMs s0 = (Inr False, s') \<and> r = Inl (LockTimeout key maxWaitMs) \<and>
        lc_now C s + maxWaitMs \<le> lc_now C s') \<or>
     (\<exists>s0 e. lc_set C (lockKey_of key) token ttlMs s0 = (Inl e, s') \<and> r = Inl e))"
proof -
  obtain r s1 where a: "rl_acquire C ttlMs key token maxWaitMs (lc_now C s + maxWaitMs) s = Some (r, s1)"
    and ok: "\<forall>u. r = Inr u \<longrightarrow> (\<exists>s0. lc_set C (lockKey_of key) token ttlMs s0 = (Inr True, s1))"
    and err: "\<forall>e. r = Inl e \<longrightarrow> (e = LockTimeout key maxWaitMs \<and> lc_now C s + maxWaitMs \<le> lc_now C s1 \<and>
        (\<exists>s0. lc_set C (lockKey_of key) token ttlMs s0 = (Inr False, s1))) \<or>
      (\<exists>s0. lc_set C (lockKey_of key) token ttlMs s0 = (Inl e, s1))"
    using acquire_ends [OF assms, of ttlMs key token maxWaitMs "lc_now C s + maxWaitMs" s] by blast
  show ?thesis
  proof (cases r)
    case (Inl e)
    with a err show ?thesis by (auto simp: rl_withLock_def)
  next
    case (Inr u)
    with ok obtain s0 where s0: "lc_set C (lockKey_of key) token ttlMs s0 = (Inr True, s1)" by blast
    have "rl_withLock C ttlMs token key maxWaitMs fn s =
        Some (fst (fn s1), snd (lc_eval_release C (lockKey_of key) token (snd (fn s1))))"
      using a Inr by (simp add: rl_withLock_def case_prod_beta)
    with s0 show ?thesis by blast
  qed
qed

lemma mem_clock: "clock_ok (lock_client_of mem_redis)"
  by (simp add: clock_ok_def lock_client_of_def mem_redis_def)

theorem redis_lock_settles_witness:
  "\<exists>r s'. rl_withLock (lock_client_of mem_redis) 10000 ''t0'' ''bot'' 100 (\<lambda>s. (Inr (), s))
     \<lparr>kc_now = 0, kc_cells = [lockKey_of ''bot'' \<mapsto> (''other'', 5000)]\<rparr> = Some (r, s')"
  using redis_lock_settles [OF mem_clock] by blast

text \<open>The local lock is one first-come-first-served queue per key: after any sequence of calls and ends of
  \<open>withLock\<close>, for every key the tasks that hold or wait for its mutex are exactly those that have asked
  for it and not finished, in the order they asked (the first one runs), and calls for one key never
  affect another.\<close>

lemma local_lock_refines_queues:
  assumes "fifo_mutex M queue"
  shows "queues queue (fold (ll_step M) es []) = fold queue_step es (\<lambda>_. [])"
  using fifo_mutex.run_refines [OF assms, of es "[]"] by (simp add: queues_def [abs_def])

lemma local_lock_refines_queues_witness:
  "queues (\<lambda>m. m) (fold (ll_step list_mutex) [Enter 1 ''a'', Enter 2 ''b'', Enter 3 ''a'', Leave ''a''] []) ''a'' = [3]"
  by (subst local_lock_refines_queues [OF list_mutex.fifo_mutex_axioms]) simp

end
