(* ===== verification/Batcher.thy ===== *)
theory Batcher
  imports Prelude
begin

text \<open>
  \<^verbatim>\<open>src/utils/write-batcher.ts\<close> as a state machine. The state is the batcher's fields, the tasks its queue
  holds, and the promises settled so far; a call is named by a number, fresh for each call. The steps
  are the calls, the timer, and the two halves of a queued task. Of \<open>p-queue\<close> the model uses only
  that with \<open>concurrency: 1\<close> tasks never overlap: the next task may be any of those waiting. The
  function \<open>flush\<close> may return or throw, at any time.

  Five lists of the state record history only: all writes, and those whose value is in \<open>pending\<close>, in the
  flush that is running, in a flush that returned, and in a flush that threw.
\<close>

type_synonym named_write = "nat \<times> string \<times> jstr"

record job =
  job_waiters :: "nat list"
  job_caller :: "nat option"

record batcher =
  b_pending :: "(string \<times> jstr) list"
  b_timer :: bool
  b_flushWaiters :: "nat list"
  b_queue :: "job list"
  b_running :: "((string \<times> jstr) list \<times> job) option"
  b_destroying :: "nat list"
  b_resolved :: "nat list"
  b_rejected :: "nat list"
  b_batches :: "(string \<times> jstr) list list"
  b_issued :: "nat set"
  h_pending :: "named_write list"
  h_running :: "named_write list"
  h_flushed :: "named_write list"
  h_lost :: "named_write list"
  h_writes :: "named_write list"

definition wb_new :: batcher where
  "wb_new = \<lparr>b_pending = [], b_timer = False, b_flushWaiters = [], b_queue = [], b_running = None, b_destroying = [],
     b_resolved = [], b_rejected = [], b_batches = [], b_issued = {}, h_pending = [], h_running = [], h_flushed = [], h_lost = [], h_writes = []\<rparr>"

section \<open>The operations\<close>

text \<open>\<open>flushNow()\<close> up to its \<open>await\<close>: the waiters move into the task, which remembers who called. A call from
  the timer has no caller: its rejection is caught.\<close>

definition wb_flushNow :: "nat option \<Rightarrow> batcher \<Rightarrow> batcher" where
  "wb_flushNow caller b = b\<lparr>b_timer := False, b_flushWaiters := [],
     b_queue := b_queue b @ [\<lparr>job_waiters = b_flushWaiters b, job_caller = caller\<rparr>]\<rparr>"

definition wb_issue :: "nat \<Rightarrow> batcher \<Rightarrow> batcher" where
  "wb_issue c b = b\<lparr>b_issued := insert c (b_issued b)\<rparr>"

definition wb_write :: "int \<Rightarrow> nat \<Rightarrow> string \<Rightarrow> jstr \<Rightarrow> batcher \<Rightarrow> batcher" where
  "wb_write debounceMs c key value b =
     (let b1 = (wb_issue c b)\<lparr>b_pending := AList.update key value (b_pending b), h_pending := h_pending b @ [(c, key, value)],
            h_writes := h_writes b @ [(c, key, value)]\<rparr> in
      if debounceMs \<le> 0 then wb_flushNow (Some c) b1
      else b1\<lparr>b_flushWaiters := b_flushWaiters b1 @ [c], b_timer := True\<rparr>)"

text \<open>The rest of \<open>flushNow()\<close> after its task: the waiters' promises resolve, then the caller's. When the task
  threw, only the caller learns of it.\<close>

definition wb_settle :: "job \<Rightarrow> batcher \<Rightarrow> batcher" where
  "wb_settle j b = b\<lparr>b_resolved := b_resolved b @ job_waiters j @ (case job_caller j of None \<Rightarrow> [] | Some c \<Rightarrow> [c])\<rparr>"

definition wb_throw :: "job \<Rightarrow> batcher \<Rightarrow> batcher" where
  "wb_throw j b = b\<lparr>b_rejected := b_rejected b @ (case job_caller j of None \<Rightarrow> [] | Some c \<Rightarrow> [c])\<rparr>"

text \<open>A task starts: nothing to do, or \<open>pending\<close> is drained and \<open>flush\<close> called.\<close>

definition wb_start :: "job \<Rightarrow> batcher \<Rightarrow> batcher" where
  "wb_start j b =
     (let b1 = b\<lparr>b_queue := remove1 j (b_queue b)\<rparr> in
      if b_pending b = [] then wb_settle j b1
      else b1\<lparr>b_pending := [], b_running := Some (b_pending b, j), h_running := h_pending b, h_pending := []\<rparr>)"

definition wb_flushed :: "(string \<times> jstr) list \<Rightarrow> job \<Rightarrow> batcher \<Rightarrow> batcher" where
  "wb_flushed entries j b = wb_settle j (b\<lparr>b_running := None, b_batches := b_batches b @ [entries],
     h_flushed := h_flushed b @ h_running b, h_running := []\<rparr>)"

definition wb_failed :: "job \<Rightarrow> batcher \<Rightarrow> batcher" where
  "wb_failed j b = wb_throw j (b\<lparr>b_running := None, h_lost := h_lost b @ h_running b, h_running := []\<rparr>)"

text \<open>\<open>destroy()\<close>: \<open>flushNow()\<close>, and \<open>queue.clear()\<close> when it resolved.\<close>

definition wb_destroy :: "nat \<Rightarrow> batcher \<Rightarrow> batcher" where
  "wb_destroy c b = wb_flushNow (Some c) ((wb_issue c b)\<lparr>b_destroying := b_destroying b @ [c]\<rparr>)"

definition wb_clear :: "batcher \<Rightarrow> batcher" where
  "wb_clear b = b\<lparr>b_queue := []\<rparr>"

inductive wb_step :: "int \<Rightarrow> batcher \<Rightarrow> batcher \<Rightarrow> bool" for debounceMs :: int where
  call_write: "c \<notin> b_issued b \<Longrightarrow> wb_step debounceMs b (wb_write debounceMs c key value b)"
| timer: "b_timer b \<Longrightarrow> wb_step debounceMs b (wb_flushNow None b)"
| flushNow: "c \<notin> b_issued b \<Longrightarrow> wb_step debounceMs b (wb_flushNow (Some c) (wb_issue c b))"
| start: "b_running b = None \<Longrightarrow> j \<in> set (b_queue b) \<Longrightarrow> wb_step debounceMs b (wb_start j b)"
| flushed: "b_running b = Some (entries, j) \<Longrightarrow> wb_step debounceMs b (wb_flushed entries j b)"
| failed: "b_running b = Some (entries, j) \<Longrightarrow> wb_step debounceMs b (wb_failed j b)"
| destroy: "c \<notin> b_issued b \<Longrightarrow> wb_step debounceMs b (wb_destroy c b)"
| cleared: "c \<in> set (b_destroying b) \<Longrightarrow> c \<in> set (b_resolved b) \<Longrightarrow> wb_step debounceMs b (wb_clear b)"

inductive_cases wb_stepE: "wb_step debounceMs b b'"

definition wb_reach :: "int \<Rightarrow> batcher \<Rightarrow> bool" where
  "wb_reach debounceMs b \<longleftrightarrow> (wb_step debounceMs)\<^sup>*\<^sup>* wb_new b"

lemmas wb_defs = wb_flushNow_def wb_issue_def wb_write_def wb_settle_def wb_throw_def wb_start_def wb_flushed_def wb_failed_def
  wb_destroy_def wb_clear_def

lemma wb_reach_induct [consumes 1, case_names new step]:
  assumes "wb_reach d b" and "P wb_new" and "\<And>b b'. wb_reach d b \<Longrightarrow> P b \<Longrightarrow> wb_step d b b' \<Longrightarrow> P b'"
  shows "P b"
  using assms(1) unfolding wb_reach_def
  by (induction rule: rtranclp_induct) (use assms(2,3) in \<open>auto simp: wb_reach_def\<close>)

section \<open>What has reached the database\<close>

text \<open>The keys written by a list of writes, the last one winning.\<close>

definition latest :: "named_write list \<Rightarrow> string \<rightharpoonup> jstr" where
  "latest ws = store_all (map snd ws) Map.empty"

definition batches_map :: "(string \<times> jstr) list list \<Rightarrow> string \<rightharpoonup> jstr" where
  "batches_map bs = fold (\<lambda>es m. m ++ map_of es) bs Map.empty"

definition wb_data :: "batcher \<Rightarrow> bool" where
  "wb_data b \<longleftrightarrow> map_of (b_pending b) = latest (h_pending b) \<and> batches_map (b_batches b) = latest (h_flushed b) \<and>
     (\<forall>es j. b_running b = Some (es, j) \<longrightarrow> map_of es = latest (h_running b)) \<and> (b_running b = None \<longrightarrow> h_running b = []) \<and>
     (b_pending b = [] \<longleftrightarrow> h_pending b = [])"

lemma latest_append: "latest (ws @ ws') = latest ws ++ latest ws'"
  by (auto simp: latest_def store_all_apply map_add_def fun_eq_iff split: option.splits)

lemma latest_simps [simp]: "latest [] = Map.empty" "latest [(c, k, v)] = [k \<mapsto> v]"
  by (simp_all add: latest_def)

lemma batches_append [simp]: "batches_map (bs @ [es]) = batches_map bs ++ map_of es" "batches_map [] = Map.empty"
  by (simp_all add: batches_map_def)

lemma data_moves [simp]:
  "wb_data (wb_flushNow c b) = wb_data b" "wb_data (wb_issue n b) = wb_data b" "wb_data (wb_settle j b) = wb_data b"
  "wb_data (wb_throw j b) = wb_data b" "wb_data (wb_clear b) = wb_data b" "wb_data (b\<lparr>b_queue := q\<rparr>) = wb_data b"
  "wb_data (b\<lparr>b_destroying := ds\<rparr>) = wb_data b" "wb_data (b\<lparr>b_flushWaiters := ws, b_timer := t\<rparr>) = wb_data b"
  by (simp_all add: wb_data_def wb_flushNow_def wb_issue_def wb_settle_def wb_throw_def wb_clear_def)

lemma update_not_Nil [simp]: "AList.update k v m \<noteq> []"
  by (cases m) auto

lemma data_add:
  "wb_data b \<Longrightarrow> wb_data (b\<lparr>b_pending := AList.update k v (b_pending b), h_pending := h_pending b @ [(c, k, v)],
    h_writes := h_writes b @ [(c, k, v)]\<rparr>)"
  by (simp add: wb_data_def latest_append jmap_simps)

lemma data_write: "wb_data b \<Longrightarrow> wb_data (wb_write d c k v b)"
  using data_add [where b = "wb_issue c b" and k = k and v = v and c = c] by (simp add: wb_write_def Let_def) (simp add: wb_issue_def)

lemma data_start:
  assumes "wb_data b" and "b_running b = None"
  shows "wb_data (wb_start j b)"
proof (cases "b_pending b = []")
  case True
  with assms(1) show ?thesis by (simp add: wb_start_def Let_def)
next
  case False
  have "wb_data (b\<lparr>b_pending := [], b_running := Some (b_pending b, j), h_running := h_pending b, h_pending := []\<rparr>)"
    using assms by (simp add: wb_data_def)
  with False show ?thesis by (simp add: wb_start_def Let_def wb_data_def)
qed

lemma data_flushed: "wb_data b \<Longrightarrow> b_running b = Some (es, j) \<Longrightarrow> wb_data (wb_flushed es j b)"
  by (simp add: wb_flushed_def) (simp add: wb_data_def latest_append)

lemma data_failed: "wb_data b \<Longrightarrow> b_running b = Some (es, j) \<Longrightarrow> wb_data (wb_failed j b)"
  by (simp add: wb_failed_def) (simp add: wb_data_def)

lemma data_step: "wb_step d b b' \<Longrightarrow> wb_data b \<Longrightarrow> wb_data b'"
  by (induction rule: wb_step.induct) (simp_all add: data_write data_start data_flushed data_failed wb_destroy_def)

lemma data_reach: "wb_reach d b \<Longrightarrow> wb_data b"
proof (induction rule: wb_reach_induct)
  case new
  show ?case by (simp add: wb_data_def wb_new_def)
qed (blast intro: data_step)

section \<open>What has become of each call\<close>

definition job_ids :: "job \<Rightarrow> nat list" where
  "job_ids j = job_waiters j @ (case job_caller j of None \<Rightarrow> [] | Some c \<Rightarrow> [c])"

definition running_ids :: "batcher \<Rightarrow> nat list" where
  "running_ids b = (case b_running b of None \<Rightarrow> [] | Some (_, j) \<Rightarrow> job_ids j)"

text \<open>All the places where a call can be.\<close>

definition places :: "batcher \<Rightarrow> nat multiset" where
  "places b = mset (b_flushWaiters b) + mset (concat (map job_ids (b_queue b))) + mset (running_ids b) +
     mset (b_resolved b) + mset (b_rejected b)"

definition wb_once :: "batcher \<Rightarrow> bool" where
  "wb_once b \<longleftrightarrow> (\<forall>c. count (places b) c \<le> (if c \<in> b_issued b then 1 else 0))"

lemma once_shrink: "wb_once b \<Longrightarrow> places b' \<subseteq># places b \<Longrightarrow> b_issued b' = b_issued b \<Longrightarrow> wb_once b'"
  unfolding wb_once_def by (metis dual_order.trans mset_subset_eq_count)

lemma once_add:
  assumes "wb_once b" and "c \<notin> b_issued b" and "places b' = add_mset c (places b)" and "b_issued b' = insert c (b_issued b)"
  shows "wb_once b'"
  unfolding wb_once_def
proof
  fix x
  from assms(1) have "count (places b) x \<le> (if x \<in> b_issued b then 1 else 0)" by (simp add: wb_once_def)
  with assms(2-4) show "count (places b') x \<le> (if x \<in> b_issued b' then 1 else 0)" by auto
qed

lemma job_ids_simps: "job_ids \<lparr>job_waiters = ws, job_caller = Some c\<rparr> = ws @ [c]" "job_ids \<lparr>job_waiters = ws, job_caller = None\<rparr> = ws"
  by (simp_all add: job_ids_def)

lemma places_flushNow:
  "places (wb_flushNow None b) = places b" "places (wb_flushNow (Some c) b) = add_mset c (places b)"
  by (simp_all add: places_def wb_flushNow_def running_ids_def job_ids_simps)

lemma places_issue [simp]: "places (wb_issue c b) = places b"
  by (simp add: places_def wb_issue_def running_ids_def)

lemma places_write: "places (wb_write d c k v b) = add_mset c (places b)"
  by (simp add: wb_write_def Let_def places_flushNow) (simp add: places_def wb_issue_def running_ids_def)

lemma mset_concat_remove1:
  "j \<in> set js \<Longrightarrow> mset (concat (map job_ids (remove1 j js))) + mset (job_ids j) = mset (concat (map job_ids js))"
  by (induction js) (auto simp: add.assoc add.commute add.left_commute)

lemma places_start:
  assumes "b_running b = None" and "j \<in> set (b_queue b)"
  shows "places (wb_start j b) = places b"
proof -
  note m = mset_concat_remove1 [OF assms(2), symmetric]
  have r: "running_ids b = []" using assms(1) by (simp add: running_ids_def)
  show ?thesis
  proof (cases "b_pending b = []")
    case True
    then have "places (wb_start j b) = mset (b_flushWaiters b) + mset (concat (map job_ids (remove1 j (b_queue b)))) +
        (mset (b_resolved b) + mset (job_ids j)) + mset (b_rejected b)"
      using assms(1) by (simp add: places_def wb_start_def Let_def wb_settle_def running_ids_def job_ids_def)
    then show ?thesis by (simp add: places_def m r)
  next
    case False
    then have "places (wb_start j b) = mset (b_flushWaiters b) + mset (concat (map job_ids (remove1 j (b_queue b)))) +
        mset (job_ids j) + mset (b_resolved b) + mset (b_rejected b)"
      by (simp add: places_def wb_start_def Let_def running_ids_def)
    then show ?thesis by (simp add: places_def m r)
  qed
qed

lemma places_flushed: "b_running b = Some (es, j) \<Longrightarrow> places (wb_flushed es j b) = places b"
  by (simp add: places_def wb_flushed_def wb_settle_def running_ids_def job_ids_def)

text \<open>When a flush throws, the waiters of its task are in no place any more.\<close>

lemma places_failed: "b_running b = Some (es, j) \<Longrightarrow> places (wb_failed j b) + mset (job_waiters j) = places b"
  by (simp add: places_def wb_failed_def wb_throw_def running_ids_def job_ids_def)

lemma places_clear: "places (wb_clear b) \<subseteq># places b"
  by (simp add: places_def wb_clear_def running_ids_def subseteq_mset_def)

lemma issued_simps [simp]:
  "b_issued (wb_flushNow o1 b) = b_issued b" "b_issued (wb_issue c b) = insert c (b_issued b)"
  "b_issued (wb_write d c k v b) = insert c (b_issued b)" "b_issued (wb_start j b) = b_issued b"
  "b_issued (wb_flushed es j b) = b_issued b" "b_issued (wb_failed j b) = b_issued b"
  "b_issued (wb_destroy c b) = insert c (b_issued b)" "b_issued (wb_clear b) = b_issued b"
  by (simp_all add: wb_defs Let_def)

lemma places_destroy: "places (wb_destroy c b) = add_mset c (places b)"
  by (simp add: wb_destroy_def places_flushNow) (simp add: places_def wb_issue_def running_ids_def)

text \<open>A step adds a fresh call, or settles and loses some.\<close>

lemma places_step:
  assumes "wb_step d b b'"
  shows "(\<exists>c. c \<notin> b_issued b \<and> places b' = add_mset c (places b) \<and> b_issued b' = insert c (b_issued b)) \<or>
    places b' \<subseteq># places b \<and> b_issued b' = b_issued b"
  using assms
proof (cases rule: wb_step.cases)
  case (failed entries j)
  with places_failed [OF failed(2)] show ?thesis by (metis issued_simps(6) mset_subset_eq_add_left)
qed (auto simp: places_write places_flushNow places_start places_flushed places_destroy places_clear)

lemma once_step: "wb_step d b b' \<Longrightarrow> wb_once b \<Longrightarrow> wb_once b'"
  using places_step [of d b b'] once_add [of b _ b'] once_shrink [of b b'] by blast

lemma once_reach: "wb_reach d b \<Longrightarrow> wb_once b"
proof (induction rule: wb_reach_induct)
  case new
  show ?case by (simp add: wb_once_def places_def wb_new_def running_ids_def)
qed (blast intro: once_step)

section \<open>What a resolved promise means\<close>

text \<open>The writes \<open>W\<close> are in a flush that returned (\<open>F\<close>), threw (\<open>L\<close>), is running (\<open>R\<close>) or is to come (\<open>P\<close>); the
  resolved calls are \<open>s\<close>, those of the running task \<open>r\<close>.\<close>

definition hist ::
  "('w \<Rightarrow> nat) \<Rightarrow> 'w list \<Rightarrow> 'w list \<Rightarrow> 'w list \<Rightarrow> 'w list \<Rightarrow> 'w list \<Rightarrow> nat set \<Rightarrow> nat set \<Rightarrow> nat set \<Rightarrow> bool" where
  "hist f W F L R P I s r \<longleftrightarrow> (L = [] \<longrightarrow> W = F @ R @ P) \<and>
     (\<forall>w. w \<in> set W \<longleftrightarrow> w \<in> set F \<or> w \<in> set L \<or> w \<in> set R \<or> w \<in> set P) \<and>
     (\<forall>w \<in> set W. f w \<in> I) \<and>
     (\<forall>w. w \<in> set R \<or> w \<in> set P \<longrightarrow> f w \<in> s \<longrightarrow> w \<in> set F \<or> w \<in> set L) \<and>
     (\<forall>w \<in> set P. f w \<in> r \<longrightarrow> w \<in> set F \<or> w \<in> set L \<or> w \<in> set R)"

lemma hist_issue: "hist f W F L R P I s r \<Longrightarrow> hist f W F L R P (insert c I) s r"
  unfolding hist_def by blast

lemma hist_add:
  assumes "hist f W F L R P I s r" and "f w \<notin> s" and "f w \<notin> r"
  shows "hist f (W @ [w]) F L R (P @ [w]) (insert (f w) I) s r"
proof -
  have order: "L = [] \<Longrightarrow> W @ [w] = F @ R @ P @ [w]" using assms(1) by (simp add: hist_def)
  show ?thesis
    using assms order unfolding hist_def set_append Un_iff list.set by blast
qed

lemma hist_idle: "hist f W F L [] [] I s r \<Longrightarrow> hist f W F L [] [] I t r"
  unfolding hist_def by simp

lemma hist_take: "hist f W F L [] P I s r \<Longrightarrow> hist f W F L P [] I s r'"
  unfolding hist_def by simp

lemma hist_flushed: "hist f W F L R P I s r \<Longrightarrow> hist f W (F @ R) L [] P I (s \<union> r) {}"
  unfolding hist_def set_append Un_iff append_assoc append_Nil list.set by (intro conjI) blast+

lemma hist_failed: "hist f W F L R P I s r \<Longrightarrow> R \<noteq> [] \<Longrightarrow> hist f W F (L @ R) [] P I s {}"
  unfolding hist_def set_append Un_iff append_is_Nil_conv list.set by (intro conjI) blast+

definition wb_history :: "batcher \<Rightarrow> bool" where
  "wb_history b \<longleftrightarrow> hist fst (h_writes b) (h_flushed b) (h_lost b) (h_running b) (h_pending b) (b_issued b)
     (set (b_resolved b)) (set (running_ids b))"

lemma fresh_nowhere: "wb_once b \<Longrightarrow> c \<notin> b_issued b \<Longrightarrow> c \<notin> set (b_resolved b) \<and> c \<notin> set (running_ids b) \<and> c \<notin> set (b_rejected b)"
proof -
  assume "wb_once b" and "c \<notin> b_issued b"
  then have "count (places b) c \<le> 0" unfolding wb_once_def by metis
  then have "c \<notin># places b" by (simp add: not_in_iff)
  then show ?thesis by (auto simp: places_def)
qed

lemma history_moves [simp]:
  "wb_history (wb_flushNow o1 b) = wb_history b"  "wb_history (wb_clear b) = wb_history b"
  "wb_history (b\<lparr>b_destroying := ds\<rparr>) = wb_history b" "wb_history (b\<lparr>b_flushWaiters := ws, b_timer := t\<rparr>) = wb_history b"
  by (simp_all add: wb_history_def running_ids_def wb_flushNow_def wb_clear_def)

lemma history_issue: "wb_history b \<Longrightarrow> wb_history (wb_issue c b)"
  by (simp add: wb_history_def running_ids_def wb_issue_def hist_issue)

lemma history_write:
  assumes "wb_history b" and "wb_once b" and "c \<notin> b_issued b"
  shows "wb_history (wb_write d c k v b)"
  using hist_add [OF assms(1) [unfolded wb_history_def], of "(c, k, v)"] fresh_nowhere [OF assms(2,3)]
  by (simp add: wb_write_def Let_def) (simp add: wb_history_def running_ids_def wb_issue_def)

lemma history_start:
  assumes "wb_history b" and "wb_data b" and "b_running b = None"
  shows "wb_history (wb_start j b)"
proof (cases "b_pending b = []")
  case True
  with assms(2,3) have e: "h_pending b = []" "h_running b = []" by (simp_all add: wb_data_def)
  from hist_idle [OF assms(1) [unfolded wb_history_def e]] True e assms(3) show ?thesis
    by (simp add: wb_history_def running_ids_def wb_start_def Let_def wb_settle_def)
next
  case False
  from assms(2,3) have e: "h_running b = []" by (simp add: wb_data_def)
  from hist_take [OF assms(1) [unfolded wb_history_def e]] False assms(3) show ?thesis
    by (simp add: wb_history_def running_ids_def wb_start_def Let_def)
qed

lemma history_flushed:
  assumes "wb_history b" and "b_running b = Some (es, j)"
  shows "wb_history (wb_flushed es j b)"
  using hist_flushed [OF assms(1) [unfolded wb_history_def]] assms(2)
  by (simp add: wb_history_def running_ids_def job_ids_def wb_flushed_def wb_settle_def)

lemma history_failed:
  assumes "wb_history b" and "h_running b \<noteq> []"
  shows "wb_history (wb_failed j b)"
  using hist_failed [OF assms(1) [unfolded wb_history_def] assms(2)]
  by (simp add: wb_history_def running_ids_def wb_failed_def wb_throw_def)

text \<open>A flush that runs has something to write.\<close>

definition wb_busy :: "batcher \<Rightarrow> bool" where
  "wb_busy b \<longleftrightarrow> (b_running b \<noteq> None \<longrightarrow> h_running b \<noteq> [])"

lemma busy_step: "wb_step d b b' \<Longrightarrow> wb_data b \<Longrightarrow> wb_busy b \<Longrightarrow> wb_busy b'"
  by (induction rule: wb_step.induct) (simp_all add: wb_busy_def wb_data_def wb_defs Let_def)

lemma history_step:
  "wb_step d b b' \<Longrightarrow> wb_once b \<Longrightarrow> wb_data b \<Longrightarrow> wb_busy b \<Longrightarrow> wb_history b \<Longrightarrow> wb_history b'"
  by (induction rule: wb_step.induct)
    (simp_all add: history_issue history_write history_start history_flushed history_failed wb_destroy_def wb_busy_def)

lemma history_reach: "wb_reach d b \<Longrightarrow> wb_history b \<and> wb_busy b"
proof (induction rule: wb_reach_induct)
  case new
  show ?case by (simp add: wb_history_def hist_def wb_busy_def wb_new_def running_ids_def)
qed (use once_reach data_reach history_step busy_step in blast)

section \<open>A call that cannot settle\<close>

definition stuck :: "nat \<Rightarrow> batcher \<Rightarrow> bool" where
  "stuck c b \<longleftrightarrow> c \<in> b_issued b \<and> c \<notin># places b"

lemma stuck_step: "wb_step d b b' \<Longrightarrow> stuck c b \<Longrightarrow> stuck c b'"
  using places_step [of d b b'] by (auto simp: stuck_def dest: mset_subset_eqD)

lemma stuck_steps: "(wb_step d)\<^sup>*\<^sup>* b b' \<Longrightarrow> stuck c b \<Longrightarrow> stuck c b'"
  by (induction rule: rtranclp_induct) (blast intro: stuck_step)+

lemma stuck_unsettled: "stuck c b \<Longrightarrow> c \<notin> set (b_resolved b) \<and> c \<notin> set (b_rejected b)"
  by (auto simp: stuck_def places_def)

lemma only_one: "1 \<le> m \<Longrightarrow> n = a + m \<Longrightarrow> n \<le> (if P then 1 else 0) \<Longrightarrow> a = (0 :: nat) \<and> P"
  by (auto split: if_splits)

lemma failed_stuck:
  assumes "wb_once b" and "b_running b = Some (es, j)" and "c \<in> set (job_waiters j)"
  shows "stuck c (wb_failed j b)"
proof -
  have c: "count (places b) c \<le> (if c \<in> b_issued b then 1 else 0)" using assms(1) by (simp add: wb_once_def)
  have "c \<in># mset (job_waiters j)" using assms(3) by simp
  then have "1 \<le> count (mset (job_waiters j)) c" unfolding One_nat_def Suc_le_eq by (simp only: count_greater_zero_iff)
  moreover have "count (places b) c = count (places (wb_failed j b)) c + count (mset (job_waiters j)) c"
    using places_failed [OF assms(2)] by (metis count_union)
  ultimately have "count (places (wb_failed j b)) c = 0 \<and> c \<in> b_issued b"
    using c only_one by blast
  then show ?thesis by (simp add: stuck_def not_in_iff)
qed

section \<open>Every call can complete\<close>

definition in_flight :: "nat \<Rightarrow> batcher \<Rightarrow> bool" where
  "in_flight c b \<longleftrightarrow> c \<in> set (b_flushWaiters b) \<or> (\<exists>j \<in> set (b_queue b). c \<in> set (job_ids j)) \<or> c \<in> set (running_ids b)"

definition completes :: "int \<Rightarrow> nat \<Rightarrow> batcher \<Rightarrow> bool" where
  "completes d c b \<longleftrightarrow> (\<exists>b'. (wb_step d)\<^sup>*\<^sup>* b b' \<and> c \<in> set (b_resolved b'))"

lemma completes_step: "wb_step d b b' \<Longrightarrow> completes d c b' \<Longrightarrow> completes d c b"
  unfolding completes_def by (blast intro: converse_rtranclp_into_rtranclp)

lemma completes_now: "c \<in> set (b_resolved b) \<Longrightarrow> completes d c b"
  unfolding completes_def by blast

definition armed :: "batcher \<Rightarrow> bool" where
  "armed b \<longleftrightarrow> (b_flushWaiters b \<noteq> [] \<longrightarrow> b_timer b)"

lemma armed_step: "wb_step d b b' \<Longrightarrow> armed b \<Longrightarrow> armed b'"
  by (induction rule: wb_step.induct) (simp_all add: armed_def wb_defs Let_def)

lemma armed_reach: "wb_reach d b \<Longrightarrow> armed b"
proof (induction rule: wb_reach_induct)
  case new
  show ?case by (simp add: armed_def wb_new_def)
qed (blast intro: armed_step)

lemma settle_resolves: "c \<in> set (job_ids j) \<Longrightarrow> c \<in> set (b_resolved (wb_settle j b))"
  by (auto simp: wb_settle_def job_ids_def)

lemma flushed_resolves: "c \<in> set (job_ids j) \<Longrightarrow> c \<in> set (b_resolved (wb_flushed es j b))"
  by (simp add: wb_flushed_def settle_resolves)

lemma running_completes:
  assumes "b_running b = Some (es, j)" and "c \<in> set (job_ids j)"
  shows "completes d c b"
  by (rule completes_step [OF wb_step.flushed [OF assms(1)]]) (rule completes_now [OF flushed_resolves [OF assms(2)]])

lemma queued_completes:
  assumes "j \<in> set (b_queue b)" and "c \<in> set (job_ids j)" and "b_running b = None"
  shows "completes d c b"
proof (rule completes_step [OF wb_step.start [OF assms(3,1)]])
  show "completes d c (wb_start j b)"
  proof (cases "b_pending b = []")
    case True
    then show ?thesis using settle_resolves [OF assms(2)] by (intro completes_now) (simp add: wb_start_def Let_def)
  next
    case False
    then have "b_running (wb_start j b) = Some (b_pending b, j)" by (simp add: wb_start_def Let_def)
    then show ?thesis using assms(2) by (rule running_completes)
  qed
qed

lemma queued_completes':
  assumes "j \<in> set (b_queue b)" and "c \<in> set (job_ids j)"
  shows "completes d c b"
proof (cases "b_running b")
  case None
  with assms show ?thesis by (rule queued_completes)
next
  case (Some ej)
  then obtain es i where r: "b_running b = Some (es, i)" by (cases ej) auto
  show ?thesis
  proof (rule completes_step [OF wb_step.flushed [OF r]], rule queued_completes [OF _ assms(2)])
    show "j \<in> set (b_queue (wb_flushed es i b))" and "b_running (wb_flushed es i b) = None"
      using assms(1) by (simp_all add: wb_flushed_def wb_settle_def)
  qed
qed

lemma in_flight_completes:
  assumes "armed b" and "in_flight c b"
  shows "completes d c b"
proof -
  consider "c \<in> set (b_flushWaiters b)" | j where "j \<in> set (b_queue b)" "c \<in> set (job_ids j)" | "c \<in> set (running_ids b)"
    using assms(2) by (auto simp: in_flight_def)
  then show ?thesis
  proof cases
    case 1
    with assms(1) have "b_timer b" by (auto simp: armed_def)
    let ?j = "\<lparr>job_waiters = b_flushWaiters b, job_caller = None\<rparr>"
    show ?thesis
      by (rule completes_step [OF wb_step.timer [OF \<open>b_timer b\<close>]], rule queued_completes' [where j = ?j])
        (use 1 in \<open>simp_all add: wb_flushNow_def job_ids_simps\<close>)
  next
    case 2
    then show ?thesis by (rule queued_completes')
  next
    case 3
    then obtain es j where "b_running b = Some (es, j)" "c \<in> set (job_ids j)"
      by (cases "b_running b") (auto simp: running_ids_def)
    then show ?thesis by (rule running_completes)
  qed
qed

lemma reach_step: "wb_reach d b \<Longrightarrow> wb_step d b b' \<Longrightarrow> wb_reach d b'"
  unfolding wb_reach_def by (rule rtranclp.rtrancl_into_rtrancl)

lemma reach_new: "wb_reach d wb_new"
  by (simp add: wb_reach_def)

section \<open>Properties\<close>

text \<open>C7. As long as no flush has thrown, the batcher loses and reorders nothing: in every reachable state what
  the database received, overlaid with the flush in progress and with what is pending, is exactly the
  latest value written for each key; and a write whose promise has resolved is among the writes that
  have been flushed.\<close>

theorem batcher_last_write_wins:
  assumes "wb_reach debounceMs b" and "h_lost b = []"
  shows "batches_map (b_batches b) ++ (case b_running b of None \<Rightarrow> Map.empty | Some (es, _) \<Rightarrow> map_of es) ++ map_of (b_pending b) =
      latest (h_writes b) \<and>
    (\<forall>(c, k, v) \<in> set (h_writes b). c \<in> set (b_resolved b) \<longrightarrow> (c, k, v) \<in> set (h_flushed b))"
proof -
  note data = data_reach [OF assms(1)] and hist = conjunct1 [OF history_reach [OF assms(1)]]
  have run: "(case b_running b of None \<Rightarrow> Map.empty | Some (es, _) \<Rightarrow> map_of es) = latest (h_running b)"
    using data by (auto simp: wb_data_def split: option.splits)
  have "h_writes b = h_flushed b @ h_running b @ h_pending b" using hist assms(2) by (simp add: wb_history_def hist_def)
  then have "latest (h_writes b) = latest (h_flushed b) ++ latest (h_running b) ++ latest (h_pending b)"
    by (simp only: latest_append map_add_assoc)
  moreover have "w \<in> set (h_flushed b)" if "w \<in> set (h_writes b)" "fst w \<in> set (b_resolved b)" for w
    using hist assms(2) that unfolding wb_history_def hist_def by (metis empty_iff list.set(1))
  ultimately show ?thesis using data unfolding run by (auto simp: wb_data_def)
qed

theorem batcher_last_write_wins_witness:
  "batches_map (b_batches (wb_write 50 2 ''creds'' [] wb_new)) ++ Map.empty ++ map_of (b_pending (wb_write 50 2 ''creds'' [] wb_new)) =
    latest (h_writes (wb_write 50 2 ''creds'' [] wb_new))"
proof -
  have r: "wb_reach 50 (wb_write 50 2 ''creds'' [] wb_new)"
    by (rule reach_step [OF reach_new wb_step.call_write]) (simp add: wb_new_def)
  have e: "h_lost (wb_write 50 2 ''creds'' [] wb_new) = []" "b_running (wb_write 50 2 ''creds'' [] wb_new) = None"
    by (simp_all add: wb_write_def wb_issue_def wb_new_def Let_def)
  from conjunct1 [OF batcher_last_write_wins [OF r e(1)]] show ?thesis by (simp add: e(2))
qed

text \<open>C22. No call is ever blocked: in every reachable state, whatever has failed before, a call that waits,
  is queued or is being flushed can still complete.\<close>

theorem batcher_completes:
  assumes "wb_reach debounceMs b" and "in_flight c b"
  shows "\<exists>b'. (wb_step debounceMs)\<^sup>*\<^sup>* b b' \<and> c \<in> set (b_resolved b')"
  using in_flight_completes [OF armed_reach [OF assms(1)] assms(2)] by (simp add: completes_def)

theorem batcher_completes_witness:
  "\<exists>b'. (wb_step 50)\<^sup>*\<^sup>* (wb_write 50 2 ''creds'' [] wb_new) b' \<and> 2 \<in> set (b_resolved b')"
  by (rule batcher_completes [OF reach_step [OF reach_new wb_step.call_write]])
    (simp_all add: wb_new_def in_flight_def wb_write_def wb_issue_def Let_def)

text \<open>A debounced write whose flush throws never settles: from any reachable state in which a task is
  running, if its flush throws, then no promise of a write that the task would have resolved is ever
  resolved or rejected, whatever happens next.\<close>

lemma failed_write_hangs:
  assumes "wb_reach debounceMs b" and "b_running b = Some (entries, j)" and "c \<in> set (job_waiters j)"
    and "(wb_step debounceMs)\<^sup>*\<^sup>* (wb_failed j b) b'"
  shows "c \<notin> set (b_resolved b') \<and> c \<notin> set (b_rejected b')"
  by (rule stuck_unsettled [OF stuck_steps [OF assms(4) failed_stuck [OF once_reach [OF assms(1)] assms(2,3)]]])

text \<open>C26. A promise of \<open>write\<close> can resolve although the value was lost: when two writes wait behind a flush,
  the first task takes both values; if its flush throws, the second task finds nothing to do and
  resolves the second write, whose value is then neither in the database nor pending.\<close>

theorem batcher_resolved_but_lost:
  "\<exists>b. wb_reach 50 b \<and> 2 \<in> set (b_resolved b) \<and> (2, ''b'', v) \<in> set (h_writes b) \<and>
     batches_map (b_batches b) ''b'' = None \<and> b_pending b = [] \<and> b_running b = None \<and> b_queue b = []"
proof -
  let ?j0 = "\<lparr>job_waiters = [0], job_caller = None\<rparr>" and ?j1 = "\<lparr>job_waiters = [3], job_caller = None\<rparr>"
    and ?j2 = "\<lparr>job_waiters = [2], job_caller = None\<rparr>"
  define a1 a2 a3 where "a1 = wb_write 50 0 ''x'' v wb_new" and "a2 = wb_flushNow None a1" and "a3 = wb_start ?j0 a2"
  define a4 a5 a6 a7 where "a4 = wb_write 50 3 ''a'' v a3" and "a5 = wb_flushNow None a4" and "a6 = wb_write 50 2 ''b'' v a5"
    and "a7 = wb_flushNow None a6"
  define a8 a9 where "a8 = wb_flushed [(''x'', v)] ?j0 a7" and "a9 = wb_start ?j1 a8"
  define b1 b2 where "b1 = wb_failed ?j1 a9" and "b2 = wb_start ?j2 b1"
  note defs = wb_flushNow_def wb_write_def wb_issue_def wb_new_def wb_start_def wb_flushed_def wb_settle_def wb_failed_def wb_throw_def Let_def
  have a1: "a1 = wb_new\<lparr>b_pending := [(''x'', v)], b_timer := True, b_flushWaiters := [0], b_issued := {0},
      h_pending := [(0, ''x'', v)], h_writes := [(0, ''x'', v)]\<rparr>"
    by (simp add: a1_def defs)
  have a3: "a3 = wb_new\<lparr>b_running := Some ([(''x'', v)], ?j0), b_issued := {0},
      h_running := [(0, ''x'', v)], h_writes := [(0, ''x'', v)]\<rparr>"
    by (simp add: a3_def a2_def a1 defs)
  have a6: "a6 = a3\<lparr>b_pending := [(''a'', v), (''b'', v)], b_timer := True, b_flushWaiters := [2], b_queue := [?j1], b_issued := {2, 3, 0},
      h_pending := [(3, ''a'', v), (2, ''b'', v)], h_writes := [(0, ''x'', v), (3, ''a'', v), (2, ''b'', v)]\<rparr>"
    by (simp add: a6_def a5_def a4_def a3 defs)
  have a9: "a9 = wb_new\<lparr>b_queue := [?j2], b_running := Some ([(''a'', v), (''b'', v)], ?j1), b_issued := {2, 3, 0},
      b_resolved := [0], b_batches := [[(''x'', v)]], h_running := [(3, ''a'', v), (2, ''b'', v)], h_flushed := [(0, ''x'', v)],
      h_writes := [(0, ''x'', v), (3, ''a'', v), (2, ''b'', v)]\<rparr>"
    by (simp add: a9_def a8_def a7_def a6 a3 defs)
  have "wb_reach 50 a1" unfolding a1_def by (rule reach_step [OF reach_new wb_step.call_write]) (simp add: wb_new_def)
  then have "wb_reach 50 a2" unfolding a2_def by (rule reach_step [OF _ wb_step.timer]) (simp add: a1)
  then have "wb_reach 50 a3" unfolding a3_def by (rule reach_step [OF _ wb_step.start]) (simp_all add: a2_def a1 defs)
  then have "wb_reach 50 a4" unfolding a4_def by (rule reach_step [OF _ wb_step.call_write]) (simp add: a3 wb_new_def)
  then have "wb_reach 50 a5" unfolding a5_def by (rule reach_step [OF _ wb_step.timer]) (simp add: a4_def defs)
  then have "wb_reach 50 a6" unfolding a6_def by (rule reach_step [OF _ wb_step.call_write]) (simp add: a5_def a4_def a3 defs)
  then have "wb_reach 50 a7" unfolding a7_def by (rule reach_step [OF _ wb_step.timer]) (simp add: a6)
  then have "wb_reach 50 a8" unfolding a8_def by (rule reach_step [OF _ wb_step.flushed]) (simp add: a7_def a6 a3 defs)
  then have "wb_reach 50 a9" unfolding a9_def by (rule reach_step [OF _ wb_step.start]) (simp_all add: a8_def a7_def a6 a3 defs)
  then have "wb_reach 50 b1" unfolding b1_def by (rule reach_step [OF _ wb_step.failed]) (simp add: a9)
  then have "wb_reach 50 b2" unfolding b2_def by (rule reach_step [OF _ wb_step.start]) (simp_all add: b1_def a9 defs)
  moreover have "2 \<in> set (b_resolved b2) \<and> (2, ''b'', v) \<in> set (h_writes b2) \<and> batches_map (b_batches b2) ''b'' = None \<and>
      b_pending b2 = [] \<and> b_running b2 = None \<and> b_queue b2 = []"
    by (simp add: b2_def b1_def a9 defs batches_map_def)
  ultimately show ?thesis by blast
qed

end
