(* ===== verification/Aes.thy ===== *)
theory Aes
  imports Json Types
begin

text \<open>
  \<^verbatim>\<open>src/encryption/aes.ts\<close>: encryption of stored values with AES-256-GCM. Of Node's \<open>Buffer\<close> and
  \<open>crypto\<close> the theory models what the file uses: UTF-8, hex and base64 in both directions (decoding as
  leniently as Node does), and GCM over the block cipher. The block cipher itself, AES-256, is the
  parameter \<open>E\<close> (key, block); nothing is assumed of it. Random bytes are arguments.
\<close>

type_synonym bytes = "8 word list"

unbundle bit_operations_syntax

section \<open>UTF-8\<close>

definition byte :: "nat \<Rightarrow> 8 word" where
  "byte n = of_nat n"

text \<open>A unit outside a surrogate pair; a lone surrogate is written as U+FFFD.\<close>

definition utf8_unit :: "16 word \<Rightarrow> bytes" where
  "utf8_unit u = (let n = unat u in
     if is_high_surrogate u \<or> is_low_surrogate u then [239, 191, 189]
     else if n < 128 then [byte n]
     else if n < 2048 then [byte (192 + n div 64), byte (128 + n mod 64)]
     else [byte (224 + n div 4096), byte (128 + n div 64 mod 64), byte (128 + n mod 64)])"

definition utf8_pair :: "16 word \<Rightarrow> 16 word \<Rightarrow> bytes" where
  "utf8_pair u v = (let n = 65536 + (unat u - 55296) * 1024 + (unat v - 56320) in
     [byte (240 + n div 262144), byte (128 + n div 4096 mod 64), byte (128 + n div 64 mod 64), byte (128 + n mod 64)])"

fun utf8_encode :: "jstr \<Rightarrow> bytes" where
  "utf8_encode [] = []"
| "utf8_encode [u] = utf8_unit u"
| "utf8_encode (u # v # us) =
     (if is_high_surrogate u \<and> is_low_surrogate v then utf8_pair u v @ utf8_encode us
      else utf8_unit u @ utf8_encode (v # us))"

text \<open>Decoding replaces every maximal ill-formed part by U+FFFD.\<close>

definition in_range :: "nat \<Rightarrow> nat \<Rightarrow> 8 word \<Rightarrow> bool" where
  "in_range a b c \<longleftrightarrow> a \<le> unat c \<and> unat c \<le> b"

definition second_ok :: "8 word \<Rightarrow> 8 word \<Rightarrow> bool" where
  "second_ok b c \<longleftrightarrow> in_range (if b = 224 then 160 else if b = 240 then 144 else 128)
     (if b = 237 then 159 else if b = 244 then 143 else 191) c"

definition low6 :: "8 word \<Rightarrow> nat" where
  "low6 b = unat b - 128"

definition replacement :: "16 word" where
  "replacement = 65533"

definition of_code_point :: "nat \<Rightarrow> jstr" where
  "of_code_point n =
     (if n < 65536 then [of_nat n] else [of_nat (55296 + (n - 65536) div 1024), of_nat (56320 + (n - 65536) mod 1024)])"

fun utf8_decode :: "bytes \<Rightarrow> jstr" where
  "utf8_decode [] = []"
| "utf8_decode (b # bs) =
     (if unat b < 128 then of_nat (unat b) # utf8_decode bs
      else if in_range 194 223 b then
        (case bs of
           c # cs \<Rightarrow>
             if in_range 128 191 c then of_nat ((unat b - 192) * 64 + low6 c) # utf8_decode cs
             else replacement # utf8_decode bs
         | [] \<Rightarrow> [replacement])
      else if in_range 224 239 b then
        (case bs of
           c # cs \<Rightarrow>
             if second_ok b c then
               (case cs of
                  d # ds \<Rightarrow>
                    if in_range 128 191 d
                    then of_nat (((unat b - 224) * 64 + low6 c) * 64 + low6 d) # utf8_decode ds
                    else replacement # utf8_decode cs
                | [] \<Rightarrow> [replacement])
             else replacement # utf8_decode bs
         | [] \<Rightarrow> [replacement])
      else if in_range 240 244 b then
        (case bs of
           c # cs \<Rightarrow>
             if second_ok b c then
               (case cs of
                  d # ds \<Rightarrow>
                    if in_range 128 191 d then
                      (case ds of
                         e # es \<Rightarrow>
                           if in_range 128 191 e
                           then of_code_point ((((unat b - 240) * 64 + low6 c) * 64 + low6 d) * 64 + low6 e) @ utf8_decode es
                           else replacement # utf8_decode ds
                       | [] \<Rightarrow> [replacement])
                    else replacement # utf8_decode cs
                | [] \<Rightarrow> [replacement])
             else replacement # utf8_decode bs
         | [] \<Rightarrow> [replacement])
      else replacement # utf8_decode bs)"

text \<open>Well-formed UTF-16: no lone surrogate. \<open>JSON.stringify\<close> produces only such text.\<close>

fun well_formed :: "jstr \<Rightarrow> bool" where
  "well_formed [] \<longleftrightarrow> True"
| "well_formed [u] \<longleftrightarrow> \<not> is_high_surrogate u \<and> \<not> is_low_surrogate u"
| "well_formed (u # v # us) \<longleftrightarrow>
     (if is_high_surrogate u \<and> is_low_surrogate v then well_formed us
      else \<not> is_high_surrogate u \<and> \<not> is_low_surrogate u \<and> well_formed (v # us))"

lemma surrogate_unat:
  "is_high_surrogate u \<longleftrightarrow> 55296 \<le> unat u \<and> unat u < 56320" "is_low_surrogate u \<longleftrightarrow> 56320 \<le> unat u \<and> unat u < 57344"
  by (simp_all add: is_high_surrogate_def is_low_surrogate_def word_le_nat_alt word_less_nat_alt)

lemma unat_byte [simp]: "n < 256 \<Longrightarrow> unat (byte n) = n"
  by (simp add: byte_def unat_of_nat)

lemma byte_eq_iff: "n < 256 \<Longrightarrow> byte n = w \<longleftrightarrow> n = unat w"
  by (auto simp: word_unat_eq_iff)

declare utf8_decode.simps(2) [simp del]

lemma decode_1: "unat b < 128 \<Longrightarrow> utf8_decode (b # bs) = of_nat (unat b) # utf8_decode bs"
  by (simp add: utf8_decode.simps(2))

lemma decode_2:
  "in_range 194 223 b \<Longrightarrow> in_range 128 191 c \<Longrightarrow>
    utf8_decode (b # c # cs) = of_nat ((unat b - 192) * 64 + low6 c) # utf8_decode cs"
  by (simp add: utf8_decode.simps(2) [of b] in_range_def)

lemma decode_3:
  "in_range 224 239 b \<Longrightarrow> second_ok b c \<Longrightarrow> in_range 128 191 d \<Longrightarrow>
    utf8_decode (b # c # d # ds) = of_nat (((unat b - 224) * 64 + low6 c) * 64 + low6 d) # utf8_decode ds"
  by (simp add: utf8_decode.simps(2) [of b] in_range_def)

lemma decode_4:
  "in_range 240 244 b \<Longrightarrow> second_ok b c \<Longrightarrow> in_range 128 191 d \<Longrightarrow> in_range 128 191 e \<Longrightarrow>
    utf8_decode (b # c # d # e # es) =
      of_code_point ((((unat b - 240) * 64 + low6 c) * 64 + low6 d) * 64 + low6 e) @ utf8_decode es"
  by (simp add: utf8_decode.simps(2) [of b] in_range_def)

lemma in_range_byte: "n < 256 \<Longrightarrow> in_range a b (byte n) \<longleftrightarrow> a \<le> n \<and> n \<le> b"
  by (simp add: in_range_def)

lemma second_ok_byte:
  "b < 256 \<Longrightarrow> c < 256 \<Longrightarrow> second_ok (byte b) (byte c) \<longleftrightarrow>
    (if b = 224 then 160 else if b = 240 then 144 else 128) \<le> c \<and> c \<le> (if b = 237 then 159 else if b = 244 then 143 else 191)"
  by (simp add: second_ok_def in_range_byte byte_eq_iff)

lemma low6_byte: "n < 64 \<Longrightarrow> low6 (byte (128 + n)) = n"
  by (simp add: low6_def)

lemma second_ok_3:
  "m < 16 \<Longrightarrow> x < 64 \<Longrightarrow> (m = 0 \<Longrightarrow> 32 \<le> x) \<Longrightarrow> (m = 13 \<Longrightarrow> x < 32) \<Longrightarrow> second_ok (byte (224 + m)) (byte (128 + x))"
  by (subst second_ok_byte) auto

lemma second_ok_4:
  "m < 5 \<Longrightarrow> x < 64 \<Longrightarrow> (m = 0 \<Longrightarrow> 16 \<le> x) \<Longrightarrow> (m = 4 \<Longrightarrow> x < 16) \<Longrightarrow> second_ok (byte (240 + m)) (byte (128 + x))"
  by (subst second_ok_byte) auto

lemma decode_unit:
  assumes "\<not> is_high_surrogate u" and "\<not> is_low_surrogate u"
  shows "utf8_decode (utf8_unit u @ bs) = u # utf8_decode bs"
proof -
  let ?n = "unat u"
  have n: "?n < 65536" using unsigned_less [of u] by simp
  have u: "of_nat ?n = u" by simp
  consider "?n < 128" | "128 \<le> ?n" "?n < 2048" | "2048 \<le> ?n" by linarith
  then show ?thesis
  proof cases
    case 1
    have "utf8_decode (byte ?n # bs) = of_nat (unat (byte ?n)) # utf8_decode bs" by (rule decode_1) (use 1 in simp)
    with 1 assms u show ?thesis by (simp add: utf8_unit_def)
  next
    case 2
    then have d: "?n div 64 < 32" "2 \<le> ?n div 64" by auto
    have "utf8_decode (byte (192 + ?n div 64) # byte (128 + ?n mod 64) # bs) =
        of_nat ((unat (byte (192 + ?n div 64)) - 192) * 64 + low6 (byte (128 + ?n mod 64))) # utf8_decode bs"
      by (rule decode_2) (use d in \<open>simp_all add: in_range_byte\<close>)
    also have "(unat (byte (192 + ?n div 64)) - 192) * 64 + low6 (byte (128 + ?n mod 64)) = ?n"
      using d by (simp add: low6_byte)
    finally show ?thesis using 2 assms u by (simp add: utf8_unit_def Let_def)
  next
    case 3
    have d: "?n div 4096 < 16" using n by simp
    have "?n div 4096 = ?n div 64 div 64" by (simp add: div_mult2_eq [symmetric])
    then have eq: "(?n div 4096 * 64 + ?n div 64 mod 64) * 64 + ?n mod 64 = ?n" by simp
    have ok: "second_ok (byte (224 + ?n div 4096)) (byte (128 + ?n div 64 mod 64))"
    proof (rule second_ok_3 [OF d])
      have q: "?n div 4096 * 64 + ?n div 64 mod 64 = ?n div 64"
        by (simp only: \<open>?n div 4096 = ?n div 64 div 64\<close>) simp
      show "32 \<le> ?n div 64 mod 64" if "?n div 4096 = 0"
        using q that div_le_mono [OF 3, of 64] by simp
      show "?n div 64 mod 64 < 32" if "?n div 4096 = 13"
      proof -
        have "53248 \<le> ?n" using that by linarith
        then have "?n < 55296 \<or> 57344 \<le> ?n" using assms unfolding surrogate_unat by linarith
        moreover have "?n < 57344" using that by linarith
        ultimately have "?n div 64 < 864" by linarith
        with q that show ?thesis by linarith
      qed
    qed simp
    have "utf8_decode (byte (224 + ?n div 4096) # byte (128 + ?n div 64 mod 64) # byte (128 + ?n mod 64) # bs) =
        of_nat (((unat (byte (224 + ?n div 4096)) - 224) * 64 + low6 (byte (128 + ?n div 64 mod 64))) * 64
          + low6 (byte (128 + ?n mod 64))) # utf8_decode bs"
      by (rule decode_3 [OF _ ok]) (use d in \<open>simp_all add: in_range_byte\<close>)
    also have "((unat (byte (224 + ?n div 4096)) - 224) * 64 + low6 (byte (128 + ?n div 64 mod 64))) * 64
          + low6 (byte (128 + ?n mod 64)) = ?n"
      using d eq by (simp add: low6_byte)
    finally show ?thesis using 3 assms u by (simp add: utf8_unit_def Let_def)
  qed
qed

lemma decode_pair:
  assumes "is_high_surrogate u" and "is_low_surrogate v"
  shows "utf8_decode (utf8_pair u v @ bs) = u # v # utf8_decode bs"
proof -
  define h l n where "h = unat u - 55296" and "l = unat v - 56320" and "n = 65536 + h * 1024 + l"
  have h: "h < 1024" "unat u = 55296 + h" and l: "l < 1024" "unat v = 56320 + l"
    using assms by (auto simp: surrogate_unat h_def l_def)
  have lo: "65536 \<le> n" and hi: "n < 1114112" using h(1) l(1) by (simp_all add: n_def)
  have q: "n div 262144 * 64 + n div 4096 mod 64 = n div 4096" "n div 4096 * 64 + n div 64 mod 64 = n div 64" "n div 64 * 64 + n mod 64 = n"
  proof -
    have "n div 4096 = n div 64 div 64" "n div 262144 = n div 4096 div 64" by (simp_all add: div_mult2_eq [symmetric])
    then show "n div 262144 * 64 + n div 4096 mod 64 = n div 4096" "n div 4096 * 64 + n div 64 mod 64 = n div 64"
      "n div 64 * 64 + n mod 64 = n" by simp_all
  qed
  have d: "n div 262144 < 5" using hi by linarith
  have ok: "second_ok (byte (240 + n div 262144)) (byte (128 + n div 4096 mod 64))"
  proof (rule second_ok_4 [OF d])
    show "16 \<le> n div 4096 mod 64" if "n div 262144 = 0" using q(1) that lo by linarith
    show "n div 4096 mod 64 < 16" if "n div 262144 = 4" using q(1) that hi by linarith
  qed simp
  have pair: "utf8_pair u v @ bs = byte (240 + n div 262144) # byte (128 + n div 4096 mod 64) # byte (128 + n div 64 mod 64) #
      byte (128 + n mod 64) # bs"
    by (simp add: utf8_pair_def Let_def n_def h_def l_def)
  have step: "utf8_decode (byte (240 + n div 262144) # byte (128 + n div 4096 mod 64) # byte (128 + n div 64 mod 64) #
      byte (128 + n mod 64) # bs) =
    of_code_point ((((unat (byte (240 + n div 262144)) - 240) * 64 + low6 (byte (128 + n div 4096 mod 64))) * 64
      + low6 (byte (128 + n div 64 mod 64))) * 64 + low6 (byte (128 + n mod 64))) @ utf8_decode bs"
    by (rule decode_4 [OF _ ok]) (use d in \<open>simp_all add: in_range_byte\<close>)
  have cp: "(((unat (byte (240 + n div 262144)) - 240) * 64 + low6 (byte (128 + n div 4096 mod 64))) * 64
      + low6 (byte (128 + n div 64 mod 64))) * 64 + low6 (byte (128 + n mod 64)) = n"
    using d q by (simp add: low6_byte)
  have parts: "(n - 65536) div 1024 = h" "(n - 65536) mod 1024 = l" using l(1) by (simp_all add: n_def)
  have uv: "of_nat (55296 + h) = u" "of_nat (56320 + l) = v"
    by (simp_all only: h(2) [symmetric] l(2) [symmetric]) simp_all
  show ?thesis
    unfolding pair step cp of_code_point_def parts uv using lo by simp
qed

lemma utf8_roundtrip: "well_formed s \<Longrightarrow> utf8_decode (utf8_encode s) = s"
proof (induction s rule: well_formed.induct)
  case (2 u)
  then show ?case using decode_unit [of u "[]"] by simp
next
  case (3 u v us)
  then show ?case by (auto simp: decode_pair decode_unit)
qed simp

text \<open>The L1 cache sizes its entries by the length of this encoding.\<close>

lemma length_utf8_unit: "length (utf8_unit u) = unit_len u"
proof -
  have "u < 128 \<longleftrightarrow> unat u < 128" "u < 2048 \<longleftrightarrow> unat u < 2048" by (simp_all add: word_less_nat_alt)
  moreover have "is_high_surrogate u \<or> is_low_surrogate u \<Longrightarrow> \<not> unat u < 2048" by (auto simp: surrogate_unat)
  ultimately show ?thesis by (auto simp: utf8_unit_def unit_len_def Let_def)
qed

lemma utf8_length: "length (utf8_encode s) = byteLength s"
  by (induction s rule: utf8_encode.induct) (auto simp: length_utf8_unit utf8_pair_def Let_def)

section \<open>Hex and base64\<close>

definition to_hex :: "bytes \<Rightarrow> jstr" where
  "to_hex bs = concat (map (\<lambda>b. [hexdig (unat b div 16), hexdig (unat b mod 16)]) bs)"

fun from_hex :: "jstr \<Rightarrow> bytes" where
  "from_hex (x # y # us) =
     (case (hexval x, hexval y) of (Some a, Some b) \<Rightarrow> byte (a * 16 + b) # from_hex us | _ \<Rightarrow> [])"
| "from_hex _ = []"

definition b64_char :: "nat \<Rightarrow> 16 word" where
  "b64_char n = of_nat (if n < 26 then 65 + n else if n < 52 then 71 + n else if n < 62 then n - 4 else if n = 62 then 43 else 47)"

definition b64_val :: "16 word \<Rightarrow> nat option" where
  "b64_val w = (let u = unat w in
     if 65 \<le> u \<and> u \<le> 90 then Some (u - 65)
     else if 97 \<le> u \<and> u \<le> 122 then Some (u - 71)
     else if 48 \<le> u \<and> u \<le> 57 then Some (u + 4)
     else if u = 43 \<or> u = 45 then Some 62
     else if u = 47 \<or> u = 95 then Some 63 else None)"

fun to_base64 :: "bytes \<Rightarrow> jstr" where
  "to_base64 (a # b # c # bs) =
     b64_char (unat a div 4) # b64_char (unat a mod 4 * 16 + unat b div 16) #
     b64_char (unat b mod 16 * 4 + unat c div 64) # b64_char (unat c mod 64) # to_base64 bs"
| "to_base64 [a, b] =
     [b64_char (unat a div 4), b64_char (unat a mod 4 * 16 + unat b div 16), b64_char (unat b mod 16 * 4), 61]"
| "to_base64 [a] = [b64_char (unat a div 4), b64_char (unat a mod 4 * 16), 61, 61]"
| "to_base64 [] = []"

text \<open>Decoding reads both alphabets up to the first \<open>=\<close> and skips every other character; a last group of
  two or three digits gives one or two bytes.\<close>

fun sextets :: "nat list \<Rightarrow> bytes" where
  "sextets (w # x # y # z # ns) =
     byte (w * 4 + x div 16) # byte (x mod 16 * 16 + y div 4) # byte (y mod 4 * 64 + z) # sextets ns"
| "sextets [w, x, y] = [byte (w * 4 + x div 16), byte (x mod 16 * 16 + y div 4)]"
| "sextets [w, x] = [byte (w * 4 + x div 16)]"
| "sextets _ = []"

definition b64_digits :: "jstr \<Rightarrow> nat list" where
  "b64_digits s = List.map_filter b64_val (takeWhile (\<lambda>u. u \<noteq> 61) s)"

definition from_base64 :: "jstr \<Rightarrow> bytes" where
  "from_base64 s = sextets (b64_digits s)"

lemma b64_char: "n < 64 \<Longrightarrow> b64_val (b64_char n) = Some n \<and> b64_char n \<noteq> 61"
proof -
  assume "n < 64"
  then have "unat (b64_char n) = (if n < 26 then 65 + n else if n < 52 then 71 + n else if n < 62 then n - 4 else if n = 62 then 43 else 47)"
    unfolding b64_char_def by (subst unat_small) auto
  moreover from this \<open>n < 64\<close> have "unat (b64_char n) \<noteq> 61" by auto
  ultimately show ?thesis using \<open>n < 64\<close> by (auto simp: b64_val_def Let_def)
qed

lemma b64_digits [simp]:
  "n < 64 \<Longrightarrow> b64_digits (b64_char n # s) = n # b64_digits s" "b64_digits (61 # s) = []" "b64_digits [] = []"
  by (simp_all add: b64_digits_def b64_char List.map_filter_simps)

lemma byte_unat: "n = unat b \<Longrightarrow> byte n = b"
  by (simp add: byte_def)

lemma unat_8: "unat (b :: 8 word) < 256"
  using unsigned_less [of b] by simp

lemma regroup:
  fixes a b :: nat
  shows "a div 4 * 4 + (a mod 4 * 16) div 16 = a"
    and "b < 256 \<Longrightarrow> a div 4 * 4 + (a mod 4 * 16 + b div 16) div 16 = a"
    and "b < 256 \<Longrightarrow> c < 256 \<Longrightarrow> (a mod 4 * 16 + b div 16) mod 16 * 16 + (b mod 16 * 4 + c div 64) div 4 = b"
    and "b < 256 \<Longrightarrow> (a mod 4 * 16 + b div 16) mod 16 * 16 + (b mod 16 * 4) div 4 = b"
    and "c < 256 \<Longrightarrow> (b mod 16 * 4 + c div 64) mod 4 * 64 + c mod 64 = c"
  by simp_all

lemma digit_bounds:
  fixes a b :: nat
  shows "a < 256 \<Longrightarrow> a div 4 < 64" and "b < 256 \<Longrightarrow> a mod 4 * 16 + b div 16 < 64" and "a mod 4 * 16 < 64"
    and "b < 256 \<Longrightarrow> a mod 16 * 4 + b div 64 < 64" and "a mod 16 * 4 < 64"
  by linarith+

lemma base64_roundtrip: "from_base64 (to_base64 bs) = bs"
proof (induction bs rule: to_base64.induct)
  case (1 a b c bs)
  then show ?case
    by (simp only: to_base64.simps from_base64_def b64_digits digit_bounds unat_8 sextets.simps regroup byte_unat)
next
  case (2 a b)
  show ?case by (simp only: to_base64.simps from_base64_def b64_digits digit_bounds unat_8 sextets.simps regroup byte_unat)
next
  case (3 a)
  show ?case by (simp only: to_base64.simps from_base64_def b64_digits digit_bounds unat_8 sextets.simps regroup byte_unat)
qed (simp add: from_base64_def)

lemma hex_roundtrip: "from_hex (to_hex bs) = bs"
  by (induction bs) (simp_all add: to_hex_def hexval_hexdig unat_8 byte_unat less_mult_imp_div_less)

lemma hex_digits: "length (to_hex bs) = 2 * length bs" "\<forall>u \<in> set (to_hex bs). hexval u \<noteq> None"
  by (induction bs) (simp_all add: to_hex_def hexval_hexdig unat_8 less_mult_imp_div_less)

section \<open>Galois counter mode\<close>

definition be_word :: "bytes \<Rightarrow> 128 word" where
  "be_word bs = fold (\<lambda>b w. push_bit 8 w OR ucast b) bs 0"

definition be_bytes :: "128 word \<Rightarrow> bytes" where
  "be_bytes w = map (\<lambda>i. ucast (drop_bit (8 * (15 - i)) w)) [0..<16]"

text \<open>Blocks of 16 bytes, the last one padded with zeros.\<close>

function blocks :: "bytes \<Rightarrow> 128 word list" where
  "blocks bs = (if bs = [] then [] else be_word (take 16 (bs @ replicate 15 0)) # blocks (drop 16 bs))"
  by pat_completeness auto
termination by (relation "measure length") auto

declare blocks.simps [simp del]

text \<open>Multiplication in the field of GCM, whose reduction polynomial is \<open>R\<close>.\<close>

definition gf_step :: "128 word \<Rightarrow> nat \<Rightarrow> 128 word \<times> 128 word \<Rightarrow> 128 word \<times> 128 word" where
  "gf_step x i zv = (case zv of (z, v) \<Rightarrow>
     (if bit x (127 - i) then z XOR v else z,
      if bit v 0 then drop_bit 1 v XOR push_bit 120 225 else drop_bit 1 v))"

definition gf_mul :: "128 word \<Rightarrow> 128 word \<Rightarrow> 128 word" where
  "gf_mul x y = fst (fold (gf_step x) [0..<128] (0, y))"

definition ghash :: "128 word \<Rightarrow> 128 word list \<Rightarrow> 128 word" where
  "ghash h xs = fold (\<lambda>x y. gf_mul (y XOR x) h) xs 0"

text \<open>With a 12-byte IV (the only ones that get this far) the counter blocks are the IV and a 32-bit counter
  that wraps around; block 1 masks the tag, the text starts at block 2.\<close>

type_synonym block_cipher = "bytes \<Rightarrow> 128 word \<Rightarrow> 128 word"

definition counter_block :: "bytes \<Rightarrow> nat \<Rightarrow> 128 word" where
  "counter_block iv n = push_bit 32 (be_word iv) OR ucast (of_nat n :: 32 word)"

definition key_stream :: "block_cipher \<Rightarrow> bytes \<Rightarrow> bytes \<Rightarrow> nat \<Rightarrow> 8 word" where
  "key_stream E key iv i = be_bytes (E key (counter_block iv (2 + i div 16))) ! (i mod 16)"

definition gcm_ctr :: "block_cipher \<Rightarrow> bytes \<Rightarrow> bytes \<Rightarrow> bytes \<Rightarrow> bytes" where
  "gcm_ctr E key iv bs = map (\<lambda>(i, b). b XOR key_stream E key iv i) (enumerate 0 bs)"

definition gcm_tag :: "block_cipher \<Rightarrow> bytes \<Rightarrow> bytes \<Rightarrow> bytes \<Rightarrow> bytes" where
  "gcm_tag E key iv ciphertext =
     be_bytes (ghash (E key 0) (blocks ciphertext @ [ucast (of_nat (8 * length ciphertext) :: 64 word)])
       XOR E key (counter_block iv 1))"

lemma gcm_ctr_involution: "gcm_ctr E key iv (gcm_ctr E key iv bs) = bs"
  by (rule nth_equalityI) (simp_all add: gcm_ctr_def nth_enumerate_eq xor.assoc)

lemma length_be_bytes [simp]: "length (be_bytes w) = 16"
  by (simp add: be_bytes_def)

lemma length_gcm [simp]: "length (gcm_ctr E key iv bs) = length bs" "length (gcm_tag E key iv bs) = 16"
  by (simp_all add: gcm_ctr_def gcm_tag_def)

section \<open>The module\<close>

definition IV_LENGTH :: nat where "IV_LENGTH = 12"
definition KEY_LENGTH :: nat where "KEY_LENGTH = 32"

definition ENCRYPTED_PREFIX :: jstr where
  "ENCRYPTED_PREFIX = lit ''enc:v1:''"

text \<open>The argument is what \<open>randomBytes(KEY_LENGTH)\<close> returned.\<close>

definition generateEncryptionKey :: "bytes \<Rightarrow> jstr" where
  "generateEncryptionKey randomBytes = to_hex randomBytes"

definition is_hex_key :: "jstr \<Rightarrow> bool" where
  "is_hex_key key \<longleftrightarrow> length key = 64 \<and> list_all (\<lambda>u. hexval u \<noteq> None) key"

definition resolveKey :: "jstr \<Rightarrow> error + bytes" where
  "resolveKey key =
     (let buffer = (if is_hex_key key then from_hex key else from_base64 key) in
      if length buffer \<noteq> KEY_LENGTH then Inl (BadKeyLength (length buffer)) else Inr buffer)"

text \<open>\<open>createCipheriv\<close>, \<open>update\<close>, \<open>final\<close> and \<open>getAuthTag\<close>; and the same for decryption, where Node rejects an
  empty IV and a tag whose length GCM does not allow, and compares a tag shorter than 16 bytes with
  the first bytes of the right one.\<close>

definition gcm_seal :: "block_cipher \<Rightarrow> bytes \<Rightarrow> bytes \<Rightarrow> bytes \<Rightarrow> bytes \<times> bytes" where
  "gcm_seal E key iv plaintext = (let ciphertext = gcm_ctr E key iv plaintext in (ciphertext, gcm_tag E key iv ciphertext))"

definition gcm_open :: "block_cipher \<Rightarrow> bytes \<Rightarrow> bytes \<Rightarrow> bytes \<Rightarrow> bytes \<Rightarrow> error + bytes" where
  "gcm_open E key iv ciphertext tag =
     (if iv = [] then Inl (DriverError ''Invalid initialization vector'')
      else if length tag \<notin> {4, 8, 12, 13, 14, 15, 16} then Inl (DriverError ''Invalid authentication tag length'')
      else if take (length tag) (gcm_tag E key iv ciphertext) = tag then Inr (gcm_ctr E key iv ciphertext)
      else Inl AuthFailed)"

definition encrypt :: "block_cipher \<Rightarrow> bytes \<Rightarrow> jstr \<Rightarrow> jstr \<Rightarrow> error + jstr" where
  "encrypt E iv plaintext keyInput =
     (case resolveKey keyInput of
        Inl e \<Rightarrow> Inl e
      | Inr key \<Rightarrow>
          (case gcm_seal E key iv (utf8_encode plaintext) of
             (ciphertext, authTag) \<Rightarrow> Inr (ENCRYPTED_PREFIX @ to_base64 (iv @ authTag @ ciphertext))))"

definition isEncrypted :: "jstr \<Rightarrow> bool" where
  "isEncrypted payload \<longleftrightarrow> take (length ENCRYPTED_PREFIX) payload = ENCRYPTED_PREFIX"

definition decrypt :: "block_cipher \<Rightarrow> jstr \<Rightarrow> jstr \<Rightarrow> error + jstr" where
  "decrypt E payload keyInput =
     (if take (length ENCRYPTED_PREFIX) payload \<noteq> ENCRYPTED_PREFIX then Inl MissingPrefix
      else
        (case resolveKey keyInput of
           Inl e \<Rightarrow> Inl e
         | Inr key \<Rightarrow>
             (let raw = from_base64 (drop (length ENCRYPTED_PREFIX) payload);
                  iv = take IV_LENGTH raw;
                  authTag = take 16 (drop IV_LENGTH raw);
                  ciphertext = drop (IV_LENGTH + 16) raw
              in map_sum id utf8_decode (gcm_open E key iv ciphertext authTag))))"

lemma gcm_openD:
  "gcm_open E key iv ciphertext tag = Inr p \<Longrightarrow> length tag \<in> {4, 8, 12, 13, 14, 15, 16} \<and>
    take (length tag) (gcm_tag E key iv ciphertext) = tag \<and> p = gcm_ctr E key iv ciphertext"
  unfolding gcm_open_def by (metis sum.distinct(1) sum.inject(2))

lemma resolveKey_length: "resolveKey key = Inr k \<Longrightarrow> length k = 32"
  by (auto simp: resolveKey_def Let_def KEY_LENGTH_def split: if_splits)

lemma resolve_generated: "length k = 32 \<Longrightarrow> resolveKey (generateEncryptionKey k) = Inr k"
  using hex_digits [of k]
  by (simp add: resolveKey_def generateEncryptionKey_def is_hex_key_def hex_roundtrip KEY_LENGTH_def list_all_iff)

lemma resolve_base64: "length k = 32 \<Longrightarrow> resolveKey (to_base64 k) = Inr k"
proof -
  have len: "length (to_base64 bs) = 4 * ((length bs + 2) div 3)" for bs
  proof (induction bs rule: to_base64.induct)
    case (1 a b c bs)
    have "(length (a # b # c # bs) + 2) div 3 = Suc ((length bs + 2) div 3)" by simp
    with 1 show ?case by simp
  qed auto
  assume "length k = 32"
  with len [of k] have "length (to_base64 k) = 44" by simp
  with \<open>length k = 32\<close> show ?thesis by (simp add: resolveKey_def is_hex_key_def base64_roundtrip KEY_LENGTH_def)
qed

lemma encrypt_decrypt:
  assumes "well_formed p" and "length iv = 12" and "encrypt E iv p key = Inr c"
  shows "decrypt E c key = Inr p \<and> isEncrypted c"
proof -
  from assms(3) obtain k where k: "resolveKey key = Inr k" by (auto simp: encrypt_def split: sum.splits)
  let ?ct = "gcm_ctr E k iv (utf8_encode p)"
  have c: "c = ENCRYPTED_PREFIX @ to_base64 (iv @ gcm_tag E k iv ?ct @ ?ct)"
    using assms(3) by (simp add: encrypt_def k gcm_seal_def Let_def)
  have "iv \<noteq> []" using assms(2) by auto
  with assms(1,2) show ?thesis
    by (simp add: c decrypt_def k base64_roundtrip IV_LENGTH_def gcm_open_def gcm_ctr_involution utf8_roundtrip isEncrypted_def)
qed

lemma encrypt_returns: "resolveKey key = Inr k \<Longrightarrow> \<exists>c. encrypt E iv p key = Inr c"
  by (simp add: encrypt_def gcm_seal_def Let_def)

section \<open>Properties\<close>

text \<open>C14. What was encrypted decrypts to itself: for every block cipher, key, 12-byte IV and well-formed
  text, if \<open>encrypt\<close> returns a payload then the payload carries the prefix and \<open>decrypt\<close> with the same
  key returns the text.\<close>

theorem encryption_roundtrip:
  assumes "well_formed p" and "length iv = IV_LENGTH" and "encrypt E iv p key = Inr c"
  shows "isEncrypted c \<and> decrypt E c key = Inr p"
  using encrypt_decrypt [OF assms(1) _ assms(3)] assms(2) by (simp add: IV_LENGTH_def)

lemma sample_encrypts:
  "\<exists>c. encrypt (\<lambda>k x. x) (replicate 12 1) (lit ''hi'') (to_base64 (replicate 32 7)) = Inr c" "well_formed (lit ''hi'')"
proof -
  show "\<exists>c. encrypt (\<lambda>k x. x) (replicate 12 1) (lit ''hi'') (to_base64 (replicate 32 7)) = Inr c"
    by (rule encrypt_returns [OF resolve_base64]) simp
  show "well_formed (lit ''hi'')" by (simp add: lit_def is_high_surrogate_def is_low_surrogate_def)
qed

theorem encryption_roundtrip_witness:
  "\<exists>c. encrypt (\<lambda>k x. x) (replicate 12 1) (lit ''hi'') (to_base64 (replicate 32 7)) = Inr c \<and>
     decrypt (\<lambda>k x. x) c (to_base64 (replicate 32 7)) = Inr (lit ''hi'')"
proof -
  obtain c where c: "encrypt (\<lambda>k x. x) (replicate 12 1) (lit ''hi'') (to_base64 (replicate 32 7)) = Inr c"
    using sample_encrypts(1) by blast
  from encryption_roundtrip [OF sample_encrypts(2) _ c] c show ?thesis by (simp add: IV_LENGTH_def)
qed

text \<open>C11. Whatever \<open>decrypt\<close> accepts is authenticated: if it returns a text, the payload has the prefix, the
  key decodes to 32 bytes, and the payload holds an IV, a tag and a ciphertext such that the tag is
  the one GCM computes for them and the text is the decryption. The tag is compared with all 16 bytes,
  except that a payload without ciphertext may carry a shorter tag (4 bytes or more), of which only that
  prefix is compared: Node accepts it, and the source does not ask for the full length. So a payload whose tag or ciphertext was changed so that they no longer match is
  rejected, and so is one without the prefix or a key of another length.\<close>

theorem decryption_authenticates:
  assumes "decrypt E payload keyInput = Inr p"
  shows "isEncrypted payload \<and> (\<exists>key iv tag ciphertext. resolveKey keyInput = Inr key \<and> length key = 32 \<and>
    from_base64 (drop (length ENCRYPTED_PREFIX) payload) = iv @ tag @ ciphertext \<and> length iv = IV_LENGTH \<and>
    tag = take (length tag) (gcm_tag E key iv ciphertext) \<and> 4 \<le> length tag \<and>
    (ciphertext = [] \<or> length tag = 16) \<and> p = utf8_decode (gcm_ctr E key iv ciphertext))"
proof -
  let ?raw = "from_base64 (drop (length ENCRYPTED_PREFIX) payload)"
  from assms obtain k where k: "resolveKey keyInput = Inr k" and pre: "isEncrypted payload"
    and op: "map_sum id utf8_decode (gcm_open E k (take 12 ?raw) (drop 28 ?raw) (take 16 (drop 12 ?raw))) = Inr p"
    by (auto simp: decrypt_def isEncrypted_def Let_def IV_LENGTH_def split: if_splits sum.splits)
  let ?tag = "take 16 (drop 12 ?raw)"
  from op obtain p' where op': "gcm_open E k (take 12 ?raw) (drop 28 ?raw) ?tag = Inr p'" and p': "p = utf8_decode p'"
    by (cases "gcm_open E k (take 12 ?raw) (drop 28 ?raw) ?tag") auto
  from gcm_openD [OF op'] p' have len: "length ?tag \<in> {4, 8, 12, 13, 14, 15, 16}"
    and tag: "take (length ?tag) (gcm_tag E k (take 12 ?raw) (drop 28 ?raw)) = ?tag"
    and p: "p = utf8_decode (gcm_ctr E k (take 12 ?raw) (drop 28 ?raw))" by blast+
  have "4 \<le> length ?tag" using len by auto
  moreover from this have "length (take 12 ?raw) = 12" by simp
  moreover have "drop 28 ?raw = [] \<or> length ?tag = 16" by auto
  moreover have "take 12 ?raw @ ?tag @ drop 28 ?raw = ?raw"
  proof -
    have "drop 28 ?raw = drop 16 (drop 12 ?raw)" by simp
    then show ?thesis by (simp only: append_take_drop_id)
  qed
  ultimately show ?thesis using k pre tag p resolveKey_length [OF k] unfolding IV_LENGTH_def by metis
qed

theorem decryption_authenticates_witness:
  "\<exists>c. encrypt (\<lambda>k x. x) (replicate 12 1) (lit ''hi'') (to_base64 (replicate 32 7)) = Inr c \<and> isEncrypted c"
proof -
  obtain c where c: "encrypt (\<lambda>k x. x) (replicate 12 1) (lit ''hi'') (to_base64 (replicate 32 7)) = Inr c"
    using sample_encrypts(1) by blast
  from encrypt_decrypt [OF sample_encrypts(2) _ c]
  have "decrypt (\<lambda>k x. x) c (to_base64 (replicate 32 7)) = Inr (lit ''hi'')" by simp
  from decryption_authenticates [OF this] c show ?thesis by blast
qed

text \<open>C40. A key is 32 bytes or an error: \<open>resolveKey\<close> returns only 32-byte keys and otherwise throws the
  error that names the length it found; it accepts a key in hex, as \<open>generateEncryptionKey\<close> makes it, and
  in base64, and recovers exactly the bytes.\<close>

theorem encryption_key_type:
  assumes "length k = KEY_LENGTH"
  shows "resolveKey (generateEncryptionKey k) = Inr k \<and> resolveKey (to_base64 k) = Inr k \<and>
    (case resolveKey key of
       Inr bs \<Rightarrow> length bs = KEY_LENGTH
     | Inl e \<Rightarrow> \<exists>bs. bs \<in> {from_hex key, from_base64 key} \<and> length bs \<noteq> KEY_LENGTH \<and> e = BadKeyLength (length bs))"
  using assms resolve_generated [of k] resolve_base64 [of k]
  by (auto simp: resolveKey_def Let_def KEY_LENGTH_def)

theorem encryption_key_type_witness:
  "resolveKey (generateEncryptionKey (replicate 32 7)) = Inr (replicate 32 7)"
  by (rule conjunct1 [OF encryption_key_type]) (simp add: KEY_LENGTH_def)

end
