(* ===== verification/Factory.thy ===== *)
theory Factory
  imports SessionManager Locks Batcher Aes
begin

text \<open>
  \<^verbatim>\<open>src/factory.ts\<close>: the auth state itself, which composes the adapter, the caches, the lock, the
  encryption and the batcher. A value (\<open>'v\<close>) is what Baileys hands over; its JSON form
  (\<^verbatim>\<open>src/serialization.ts\<close>, which only calls Baileys' \<open>BufferJSON\<close>), the fresh credentials and the message
  constructor \<open>fromObject\<close> are parameters, and so are random bytes. The lock is an operation that
  runs a computation under a key; the reads that \<open>Promise.all\<close> overlaps run in order.
\<close>

record 'v codec =
  cd_serialize :: "'v \<Rightarrow> jstr"
  cd_deserialize :: "jstr \<Rightarrow> error + 'v"
  cd_truthy :: "'v \<Rightarrow> bool"
  cd_fromObject :: "'v \<Rightarrow> error + 'v"
  cd_initAuthCreds :: 'v
  cd_block :: block_cipher

record 'v auth =
  au_sessionId :: string
  au_codec :: "'v codec"
  au_encryption :: "encryption_options option"
  au_writeDebounceMs :: "int option"

type_synonym ('d, 'r) lock = "string \<Rightarrow> (('d, 'r) world, unit) io \<Rightarrow> (('d, 'r) world, unit) io"

text \<open>\<open>options.writeDebounceMs ?? 50\<close>\<close>

definition debounce_of :: "'v auth \<Rightarrow> int" where
  "debounce_of U = (case au_writeDebounceMs U of None \<Rightarrow> 50 | Some d \<Rightarrow> d)"

definition encrypting :: "'v auth \<Rightarrow> encryption_options option" where
  "encrypting U = (case au_encryption U of None \<Rightarrow> None | Some e \<Rightarrow> if eo_enabled e then Some e else None)"

definition fa_encode :: "'v auth \<Rightarrow> bytes \<Rightarrow> 'v \<Rightarrow> error + jstr" where
  "fa_encode U iv value =
     (let json = cd_serialize (au_codec U) value in
      case encrypting U of None \<Rightarrow> Inr json | Some e \<Rightarrow> encrypt (cd_block (au_codec U)) iv json (lit (eo_key e)))"

definition fa_decode :: "'v auth \<Rightarrow> jstr \<Rightarrow> error + 'v" where
  "fa_decode U raw =
     (case (case encrypting U of None \<Rightarrow> Inr raw | Some e \<Rightarrow> decrypt (cd_block (au_codec U)) raw (lit (eo_key e))) of
        Inl e \<Rightarrow> Inl e
      | Inr json \<Rightarrow> cd_deserialize (au_codec U) json)"

text \<open>The batcher's \<open>flush\<close>, and the same block in \<open>keys.set\<close>: one \<open>setMany\<close> and the cache updates, under the
  session's lock.\<close>

definition fa_flush ::
  "'d adapter \<Rightarrow> 'r redis_cache option \<Rightarrow> ('d, 'r) lock \<Rightarrow> string \<Rightarrow> (string \<times> jstr) list \<Rightarrow> (('d, 'r) world, unit) io" where
  "fa_flush A l2 lock sessionId entries =
     lock sessionId (\<lambda>w. thenA (on_db (ad_setMany A sessionId entries (w_now w)))
       (\<lambda>w. (Inr (), cm_allWritten l2 sessionId entries w)) w)"

definition fa_remove ::
  "'d adapter \<Rightarrow> 'r redis_cache option \<Rightarrow> ('d, 'r) lock \<Rightarrow> string \<Rightarrow> string list \<Rightarrow> (('d, 'r) world, unit) io" where
  "fa_remove A l2 lock sessionId deletions =
     lock sessionId (thenA (on_db (ad_deleteMany A sessionId deletions))
       (\<lambda>w. (Inr (), cm_allDeleted l2 sessionId deletions w)))"

text \<open>\<open>if (raw)\<close> is false for null and for the empty string.\<close>

definition truthy_str :: "jstr option \<Rightarrow> jstr option" where
  "truthy_str raw = (case raw of None \<Rightarrow> None | Some s \<Rightarrow> if s = [] then None else Some s)"

definition fa_loadCreds :: "'v auth \<Rightarrow> 'd adapter \<Rightarrow> 'r redis_cache option \<Rightarrow> (('d, 'r) world, 'v) io" where
  "fa_loadCreds U A l2 =
     bindA (cm_get A l2 (au_sessionId U) CREDS_KEY) (\<lambda>raw w.
       (case truthy_str raw of
          Some s \<Rightarrow> (fa_decode U s, w)
        | None \<Rightarrow> (Inr (cd_initAuthCreds (au_codec U)), w)))"

section \<open>Signal keys\<close>

definition cacheKeyName :: "string \<Rightarrow> string \<Rightarrow> string" where
  "cacheKeyName category i = category @ ''-'' @ i"

text \<open>\<open>type === 'app-state-sync-key' && value\<close>; \<open>fromObject\<close> may throw.\<close>

definition revive :: "'v auth \<Rightarrow> string \<Rightarrow> 'v \<Rightarrow> error + 'v" where
  "revive U type value =
     (if type = ''app-state-sync-key'' \<and> cd_truthy (au_codec U) value then cd_fromObject (au_codec U) value else Inr value)"

fun fa_keys_get ::
  "'v auth \<Rightarrow> 'd adapter \<Rightarrow> 'r redis_cache option \<Rightarrow> string \<Rightarrow> string list \<Rightarrow> (string \<times> 'v) list \<Rightarrow>
    (('d, 'r) world, (string \<times> 'v) list) io" where
  "fa_keys_get U A l2 type [] data = ret data"
| "fa_keys_get U A l2 type (i # ids) data =
     bindA (cm_get A l2 (au_sessionId U) (cacheKeyName type i)) (\<lambda>raw.
       case truthy_str raw of
         None \<Rightarrow> fa_keys_get U A l2 type ids data
       | Some s \<Rightarrow>
           (case fa_decode U s of
              Inl e \<Rightarrow> raise e
            | Inr value \<Rightarrow>
                (case revive U type value of
                   Inl e \<Rightarrow> raise e
                 | Inr v \<Rightarrow> fa_keys_get U A l2 type ids (AList.update i v data))))"

text \<open>The two loops of \<open>keys.set\<close>: what to write (encoded, with a fresh IV each) and what to delete.\<close>

type_synonym 'v signal_data = "(string \<times> (string \<times> 'v option) list option) list"

fun collect_bucket ::
  "'v auth \<Rightarrow> (nat \<Rightarrow> bytes) \<Rightarrow> string \<Rightarrow> (string \<times> 'v option) list \<Rightarrow> (string \<times> jstr) list \<times> string list \<Rightarrow>
    error + (string \<times> jstr) list \<times> string list" where
  "collect_bucket U ivs category [] acc = Inr acc"
| "collect_bucket U ivs category ((i, value) # bucket) (entries, deletions) =
     (case value of
        None \<Rightarrow> collect_bucket U ivs category bucket (entries, deletions @ [cacheKeyName category i])
      | Some v \<Rightarrow>
          (case fa_encode U (ivs (length entries)) v of
             Inl e \<Rightarrow> Inl e
           | Inr s \<Rightarrow> collect_bucket U ivs category bucket (entries @ [(cacheKeyName category i, s)], deletions)))"

fun fa_collect ::
  "'v auth \<Rightarrow> (nat \<Rightarrow> bytes) \<Rightarrow> 'v signal_data \<Rightarrow> (string \<times> jstr) list \<times> string list \<Rightarrow>
    error + (string \<times> jstr) list \<times> string list" where
  "fa_collect U ivs [] acc = Inr acc"
| "fa_collect U ivs ((category, bucket) # data) acc =
     (case bucket of
        None \<Rightarrow> fa_collect U ivs data acc
      | Some b \<Rightarrow>
          (case collect_bucket U ivs category b acc of
             Inl e \<Rightarrow> Inl e
           | Inr acc' \<Rightarrow> fa_collect U ivs data acc'))"

definition fa_keys_set ::
  "'v auth \<Rightarrow> 'd adapter \<Rightarrow> 'r redis_cache option \<Rightarrow> ('d, 'r) lock \<Rightarrow> (nat \<Rightarrow> bytes) \<Rightarrow> 'v signal_data \<Rightarrow>
    (('d, 'r) world, unit) io" where
  "fa_keys_set U A l2 lock ivs data =
     (case fa_collect U ivs data ([], []) of
        Inl e \<Rightarrow> raise e
      | Inr (entries, deletions) \<Rightarrow>
          thenA (if entries \<noteq> [] then fa_flush A l2 lock (au_sessionId U) entries else ret ())
            (if deletions \<noteq> [] then fa_remove A l2 lock (au_sessionId U) deletions else ret ()))"

section \<open>Credentials\<close>

text \<open>\<open>saveCreds\<close> over an otherwise idle batcher: the call \<open>c\<close> of \<open>write\<close>, the timer when there is one, the queued
  task with its flush; then, if the promise resolved, the call \<open>c'\<close> of \<open>flushNow\<close>. A promise that never
  settles is an outcome of its own.\<close>

datatype 'a outcome = Settled "error + 'a" | Pending

definition run_task ::
  "((string \<times> jstr) list \<Rightarrow> ('w, unit) io) \<Rightarrow> job \<Rightarrow> batcher \<Rightarrow> 'w \<Rightarrow> error option \<times> batcher \<times> 'w" where
  "run_task flush j b w =
     (let b1 = wb_start j b in
      case b_running b1 of
        None \<Rightarrow> (None, b1, w)
      | Some (entries, _) \<Rightarrow>
          (case flush entries w of
             (Inr _, w') \<Rightarrow> (None, wb_flushed entries j b1, w')
           | (Inl e, w') \<Rightarrow> (Some e, wb_failed j b1, w')))"

definition run_flushNow ::
  "((string \<times> jstr) list \<Rightarrow> ('w, unit) io) \<Rightarrow> batcher \<Rightarrow> 'w \<Rightarrow> error option \<times> batcher \<times> 'w" where
  "run_flushNow flush b w = run_task flush (last (b_queue b)) b w"

definition fa_saveCreds ::
  "'v auth \<Rightarrow> 'd adapter \<Rightarrow> 'r redis_cache option \<Rightarrow> ('d, 'r) lock \<Rightarrow> bytes \<Rightarrow> nat \<Rightarrow> nat \<Rightarrow> 'v \<Rightarrow>
    batcher \<Rightarrow> ('d, 'r) world \<Rightarrow> unit outcome \<times> batcher \<times> ('d, 'r) world" where
  "fa_saveCreds U A l2 lock iv c c' creds b w =
     (case fa_encode U iv creds of
        Inl e \<Rightarrow> (Settled (Inl e), b, w)
      | Inr s \<Rightarrow>
          (let flush = fa_flush A l2 lock (au_sessionId U);
               b1 = wb_write (debounce_of U) c CREDS_KEY s b;
               b2 = (if b_timer b1 then wb_flushNow None b1 else b1)
           in case run_flushNow flush b2 w of
                (thrown, b3, w3) \<Rightarrow>
                  if c \<in> set (b_resolved b3) then
                    (case run_flushNow flush (wb_flushNow (Some c') (wb_issue c' b3)) w3 of
                       (None, b4, w4) \<Rightarrow> (Settled (Inr ()), b4, w4)
                     | (Some e, b4, w4) \<Rightarrow> (Settled (Inl e), b4, w4))
                  else if c \<in> set (b_rejected b3) then
                    (case thrown of Some e \<Rightarrow> (Settled (Inl e), b3, w3) | None \<Rightarrow> (Pending, b3, w3))
                  else (Pending, b3, w3)))"

text \<open>The retention timer's callback: a failed pass is logged.\<close>

definition fa_retention_tick :: "('d, 'r) session_manager \<Rightarrow> ('d, 'r) world \<Rightarrow> ('d, 'r) world" where
  "fa_retention_tick M w = (case sm_pruneExpiredKeys M None w of
     (Inr _, w') \<Rightarrow> w'
   | (Inl e, w') \<Rightarrow> log ''automatic key retention pass failed'' w')"

text \<open>\<open>if (options.retention?.enabled && options.retention.autoRunIntervalMs)\<close>\<close>

definition fa_timer_interval :: "key_retention_options option \<Rightarrow> int option" where
  "fa_timer_interval retention = (case retention of
     None \<Rightarrow> None
   | Some r \<Rightarrow> if kr_enabled r then (case kr_autoRunIntervalMs r of None \<Rightarrow> None | Some n \<Rightarrow> if n = 0 then None else Some n) else None)"

text \<open>\<open>close\<close>: the timer is cleared, the batcher destroyed (call \<open>c\<close>), the cache closed.\<close>

definition fa_close ::
  "'v auth \<Rightarrow> 'd adapter \<Rightarrow> 'r redis_cache option \<Rightarrow> ('d, 'r) lock \<Rightarrow> nat \<Rightarrow> int option \<Rightarrow> batcher \<Rightarrow> ('d, 'r) world \<Rightarrow>
    (error + unit) \<times> int option \<times> batcher \<times> ('d, 'r) world" where
  "fa_close U A l2 lock c retentionTimer b w =
     (case run_flushNow (fa_flush A l2 lock (au_sessionId U)) (wb_destroy c b) w of
        (None, b1, w1) \<Rightarrow> (Inr (), None, wb_clear b1, cm_close l2 w1)
      | (Some e, b1, w1) \<Rightarrow> (Inl e, None, b1, w1))"

section \<open>The contract of a lock\<close>

text \<open>Lock traffic may pass time and talk to Redis, but touches no row and no cached value.\<close>

definition inert :: "('r \<Rightarrow> string \<rightharpoonup> jstr \<times> int) \<Rightarrow> ('r \<Rightarrow> bool) \<Rightarrow> ('d, 'r) world \<Rightarrow> ('d, 'r) world \<Rightarrow> bool" where
  "inert l2v rup w w' \<longleftrightarrow> w_db w' = w_db w \<and> w_l1 w' = w_l1 w \<and> l2v (w_l2 w') = l2v (w_l2 w) \<and>
     (rup (w_l2 w) \<longrightarrow> rup (w_l2 w'))"

lemma inert_refl [simp]: "inert l2v rup w w"
  by (simp add: inert_def)

lemma inert_trans: "inert l2v rup w w1 \<Longrightarrow> inert l2v rup w1 w2 \<Longrightarrow> inert l2v rup w w2"
  by (simp add: inert_def)

locale auth_lock =
  fixes lock :: "('d, 'r) lock" and l2v :: "'r \<Rightarrow> string \<rightharpoonup> jstr \<times> int" and rup :: "'r \<Rightarrow> bool"
  assumes lock_runs: "lock key fn w = (r, w') \<Longrightarrow>
      (\<exists>w1 w2. inert l2v rup w w1 \<and> fn w1 = (r, w2) \<and> inert l2v rup w2 w') \<or> (inert l2v rup w w' \<and> (\<exists>e. r = Inl e))"

text \<open>The local mutex, when nobody else in the process holds it, and the Redis lock over any client whose
  commands are inert and whose clock does not go back.\<close>

definition local_lock :: "('d, 'r) lock" where
  "local_lock key fn = fn"

definition redis_lock :: "('d, 'r) world lock_client \<Rightarrow> (('d, 'r) world \<Rightarrow> string) \<Rightarrow> ('d, 'r) lock" where
  "redis_lock C randomUUID key fn w =
     (case rl_withLock C DEFAULT_LOCK_TTL_MS (randomUUID w) key DEFAULT_MAX_WAIT_MS fn w of
        Some (r, w') \<Rightarrow> (r, w') | None \<Rightarrow> (Inl UndefinedThrown, w))"

definition inert_client :: "('r \<Rightarrow> string \<rightharpoonup> jstr \<times> int) \<Rightarrow> ('r \<Rightarrow> bool) \<Rightarrow> ('d, 'r) world lock_client \<Rightarrow> bool" where
  "inert_client l2v rup C \<longleftrightarrow> clock_ok C \<and> (\<forall>k t ttl w. inert l2v rup w (snd (lc_set C k t ttl w))) \<and>
     (\<forall>k t w. inert l2v rup w (snd (lc_eval_release C k t w))) \<and> (\<forall>d w. inert l2v rup w (lc_sleep C d w))"

lemma local_lock: "auth_lock local_lock l2v rup"
  by unfold_locales (auto simp: local_lock_def intro: inert_refl)

lemma acquire_inert:
  assumes "inert_client l2v rup C"
  shows "rl_acquire C ttl key token mw dl w = Some (r, w') \<Longrightarrow> inert l2v rup w w'"
proof (induction "nat (dl - lc_now C w)" arbitrary: w rule: less_induct)
  case less
  from assms have clock: "clock_ok C" by (simp add: inert_client_def)
  obtain r1 w1 where set: "lc_set C (lockKey_of key) token ttl w = (r1, w1)" by fastforce
  with assms have i1: "inert l2v rup w w1" by (metis inert_client_def snd_conv)
  show ?case
  proof (cases "r1 = Inr False \<and> lc_now C w1 < dl")
    case True
    let ?w = "lc_sleep C DEFAULT_RETRY_DELAY_MS w1"
    from clock have "lc_now C w \<le> lc_now C (snd (lc_set C (lockKey_of key) token ttl w))"
      and "lc_now C w1 + DEFAULT_RETRY_DELAY_MS \<le> lc_now C ?w"
      unfolding clock_ok_def by (auto simp: DEFAULT_RETRY_DELAY_MS_def)
    with True set have lt: "nat (dl - lc_now C ?w) < nat (dl - lc_now C w)" by (simp add: DEFAULT_RETRY_DELAY_MS_def)
    from less.prems True set have "rl_acquire C ttl key token mw dl ?w = Some (r, w')"
      by (simp add: rl_acquire.simps [of C ttl key token mw dl w])
    from less.hyps [OF lt this] have "inert l2v rup ?w w'" .
    moreover have "inert l2v rup w1 ?w" using assms by (simp add: inert_client_def)
    ultimately show ?thesis using i1 inert_trans by blast
  next
    case False
    with less.prems set i1 show ?thesis
      by (cases r1) (auto simp: rl_acquire.simps [of C ttl key token mw dl w] split: if_splits)
  qed
qed

lemma redis_lock:
  fixes C :: "('d, 'r) world lock_client"
  assumes "inert_client l2v rup C"
  shows "auth_lock (redis_lock C randomUUID) l2v rup"
proof
  fix key :: string and fn :: "(('d, 'r) world, unit) io" and w r w'
  assume run: "redis_lock C randomUUID key fn w = (r, w')"
  have clock: "clock_ok C" using assms by (simp add: inert_client_def)
  let ?dl = "lc_now C w + DEFAULT_MAX_WAIT_MS"
  obtain r1 w1 where acq: "rl_acquire C DEFAULT_LOCK_TTL_MS key (randomUUID w) DEFAULT_MAX_WAIT_MS ?dl w = Some (r1, w1)"
    using acquire_ends [OF clock] by blast
  note i1 = acquire_inert [OF assms acq]
  show "(\<exists>w1 w2. inert l2v rup w w1 \<and> fn w1 = (r, w2) \<and> inert l2v rup w2 w') \<or> (inert l2v rup w w' \<and> (\<exists>e. r = Inl e))"
  proof (cases r1)
    case (Inl e)
    with run acq i1 show ?thesis by (auto simp: redis_lock_def rl_withLock_def)
  next
    case (Inr u)
    obtain r2 w2 where fn: "fn w1 = (r2, w2)" by fastforce
    with run acq Inr have "r = r2" "w' = snd (lc_eval_release C (lockKey_of key) (randomUUID w) w2)"
      by (simp_all add: redis_lock_def rl_withLock_def)
    with i1 fn assms show ?thesis by (auto simp: inert_client_def)
  qed
qed

section \<open>The auth state over a store, caches and a lock\<close>

locale auth_stack = cache_stack A view ivr up lsid lkey l2 l2v rup + auth_lock lock l2v rup
  for A :: "'d adapter" and view :: "'d \<Rightarrow> db_view" and ivr :: "'d \<Rightarrow> bool" and up :: "'d \<Rightarrow> bool"
    and lsid :: "string \<Rightarrow> bool" and lkey :: "string \<Rightarrow> bool" and l2 :: "'r redis_cache option"
    and l2v :: "'r \<Rightarrow> string \<rightharpoonup> jstr \<times> int" and rup :: "'r \<Rightarrow> bool" and lock :: "('d, 'r) lock"
begin

lemma inert_coh: "inert l2v rup w w' \<Longrightarrow> coh X1 X2 w \<Longrightarrow> coh X1 X2 w'"
  by (simp add: inert_def coherent_def l1_map_def [abs_def] l2_map_def [abs_def])

lemma inert_db: "inert l2v rup w w' \<Longrightarrow> w_db w' = w_db w"
  by (simp add: inert_def)

lemma inert_works: "inert l2v rup w w' \<Longrightarrow> l2_works w \<Longrightarrow> l2_works w'"
  by (auto simp: inert_def)

text \<open>A batch written under the lock: done in full, or thrown, with the rows as they were or all written.\<close>

lemma flush_ok:
  assumes "coh {} {} w" and "lsid s" and "\<forall>e \<in> set es. lkey (fst e)" and "distinct (keys_of es)"
    and "fa_flush A l2 lock s es w = (r, w')"
  shows "\<exists>t. (r = Inr () \<longrightarrow> upserted s es t (view (w_db w)) (view (w_db w')) \<and> coh {} (Pair s ` fst ` set es) w' \<and>
      (l2_works w \<longrightarrow> coh {} {} w' \<and> l2_works w')) \<and>
    (\<forall>e. r = Inl e \<longrightarrow> view (w_db w') = view (w_db w) \<or> upserted s es t (view (w_db w)) (view (w_db w')))"
proof -
  let ?fn = "\<lambda>w. thenA (on_db (ad_setMany A s es (w_now w))) (\<lambda>w. (Inr (), cm_allWritten l2 s es w)) w"
  from lock_runs [OF assms(5) [unfolded fa_flush_def]]
  consider w1 w2 where "inert l2v rup w w1" "?fn w1 = (r, w2)" "inert l2v rup w2 w'"
    | e where "inert l2v rup w w'" "r = Inl e" by blast
  then show ?thesis
  proof cases
    case 2
    then show ?thesis using inert_db by fastforce
  next
    case 1
    note db1 = inert_db [OF 1(1)] and db' = inert_db [OF 1(3)]
    obtain r3 w3 where q: "on_db (ad_setMany A s es (w_now w1)) w1 = (r3, w3)" by fastforce
    note d = on_db_setMany [OF inert_coh [OF 1(1) assms(1)] assms(2,3) q]
    show ?thesis
    proof (cases r3)
      case (Inl e)
      with 1(2) q have "r = Inl e" "w2 = w3" by (simp_all add: thenA_def bindA_def)
      with d(4) db1 db' show ?thesis by auto
    next
      case (Inr u)
      with 1(2) q have r: "r = Inr ()" and w2: "w2 = cm_allWritten l2 s es w3" by (simp_all add: thenA_def bindA_def)
      from d(3) [OF Inr] have up3: "upserted s es (w_now w1) (view (w_db w)) (view (w_db w3))" using db1 by simp
      have vals: "\<forall>(k, v) \<in> set es. stored_value w3 s k = Some v"
      proof (intro ballI, clarify)
        fix k v assume kv: "(k, v) \<in> set es"
        then have "k \<in> fst ` set es" by (force simp: image_iff)
        with upserted_value [OF up3] have "stored_value w3 s k = store_all es Map.empty k" by simp
        with kv assms(4) show "stored_value w3 s k = Some v" by (simp add: store_all_distinct)
      qed
      have same: "Pair s ` fst ` set es - Pair s ` fst ` set es = {}" by simp
      have c3: "coh (Pair s ` fst ` set es) (Pair s ` fst ` set es) w3" using d(1) by simp
      from allWritten_ok [OF c3 assms(2) vals] have aw: "coh {} (Pair s ` fst ` set es) w2" "w_db w2 = w_db w3"
        "l2_works w3 \<Longrightarrow> coh {} {} w2" by (auto simp: w2 same)
      have wk3: "l2_works w \<Longrightarrow> l2_works w3" using inert_works [OF 1(1)] by (subst d(2)) simp
      have wk2: "l2_works w \<Longrightarrow> l2_works w2"
        using allWritten_ok [OF c3 assms(2) vals] wk3 by (simp add: w2)
      show ?thesis
        using up3 aw wk3 wk2 db' r inert_coh [OF 1(3)] inert_works [OF 1(3)] by (intro exI [of _ "w_now w1"]) auto
    qed
  qed
qed

end

context auth_stack begin

lemma remove_ok:
  assumes "coh {} X2 w" and "lsid s" and "\<forall>k \<in> set ks. lkey k" and "fa_remove A l2 lock s ks w = (r, w')"
  shows "(r = Inr () \<longrightarrow> removed s ks (view (w_db w)) (view (w_db w')) \<and>
      (l2_works w \<longrightarrow> X2 = {} \<longrightarrow> coh {} {} w' \<and> l2_works w')) \<and>
    (\<forall>e. r = Inl e \<longrightarrow> view (w_db w') = view (w_db w) \<or> removed s ks (view (w_db w)) (view (w_db w')))"
proof -
  let ?fn = "thenA (on_db (ad_deleteMany A s ks)) (\<lambda>w. (Inr (), cm_allDeleted l2 s ks w))"
  from lock_runs [OF assms(4) [unfolded fa_remove_def]]
  consider w1 w2 where "inert l2v rup w w1" "?fn w1 = (r, w2)" "inert l2v rup w2 w'"
    | e where "inert l2v rup w w'" "r = Inl e" by blast
  then show ?thesis
  proof cases
    case 2
    then show ?thesis using inert_db by fastforce
  next
    case 1
    note db1 = inert_db [OF 1(1)] and db' = inert_db [OF 1(3)]
    obtain r3 w3 where q: "on_db (ad_deleteMany A s ks) w1 = (r3, w3)" by fastforce
    note d = on_db_deleteMany [OF inert_coh [OF 1(1) assms(1)] assms(2,3) q]
    show ?thesis
    proof (cases r3)
      case (Inl e)
      with 1(2) q have "r = Inl e" "w2 = w3" by (simp_all add: thenA_def bindA_def)
      with d(4) db1 db' show ?thesis by auto
    next
      case (Inr u)
      with 1(2) q have r: "r = Inr ()" and w2: "w2 = cm_allDeleted l2 s ks w3" by (simp_all add: thenA_def bindA_def)
      from d(3) [OF Inr] have rem: "removed s ks (view (w_db w)) (view (w_db w3))" using db1 by simp
      have wk3: "l2_works w \<Longrightarrow> l2_works w3" using inert_works [OF 1(1)] by (subst d(2)) simp
      from allDeleted_ok [OF d(1) assms(2), of ks] have db2: "w_db w2 = w_db w3" by (simp add: w2)
      have "coh {} {} w2 \<and> l2_works w2" if "l2_works w" "X2 = {}"
      proof -
        from that(2) d(1) have "coh (Pair s ` set ks) (Pair s ` set ks) w3" by simp
        from allDeleted_ok [OF this assms(2), of ks] wk3 that(1) show ?thesis by (simp add: w2)
      qed
      with rem db2 db' r inert_coh [OF 1(3)] inert_works [OF 1(3)] show ?thesis by auto
    qed
  qed
qed

end

section \<open>What \<open>keys.set\<close> collects\<close>

text \<open>The values round-trip through JSON, as \<open>BufferJSON\<close> documents; JSON texts are well-formed and not empty.\<close>

definition codec_ok :: "'v auth \<Rightarrow> bool" where
  "codec_ok U \<longleftrightarrow> (\<forall>v. cd_deserialize (au_codec U) (cd_serialize (au_codec U) v) = Inr v \<and>
     well_formed (cd_serialize (au_codec U) v) \<and> cd_serialize (au_codec U) v \<noteq> [])"

lemma encode_decode:
  assumes "codec_ok U" and "length iv = 12" and "fa_encode U iv v = Inr s"
  shows "fa_decode U s = Inr v \<and> s \<noteq> []"
proof (cases "encrypting U")
  case None
  with assms show ?thesis by (auto simp: fa_encode_def fa_decode_def codec_ok_def Let_def)
next
  case (Some e)
  from assms(1) have wf: "well_formed (cd_serialize (au_codec U) v)"
    and de: "cd_deserialize (au_codec U) (cd_serialize (au_codec U) v) = Inr v" by (simp_all add: codec_ok_def)
  from assms(3) Some have "encrypt (cd_block (au_codec U)) iv (cd_serialize (au_codec U) v) (lit (eo_key e)) = Inr s"
    by (simp add: fa_encode_def Let_def)
  from encrypt_decrypt [OF wf assms(2) this] have d: "decrypt (cd_block (au_codec U)) s (lit (eo_key e)) = Inr (cd_serialize (au_codec U) v)"
    and "isEncrypted s" by auto
  then have "s \<noteq> []" by (auto simp: isEncrypted_def ENCRYPTED_PREFIX_def lit_def)
  with d de Some show ?thesis by (simp add: fa_decode_def)
qed

definition flat :: "'v signal_data \<Rightarrow> ((string \<times> string) \<times> 'v option) list" where
  "flat data = concat (map (\<lambda>(c, b). case b of None \<Rightarrow> [] | Some xs \<Rightarrow> map (\<lambda>(i, x). ((c, i), x)) xs) data)"

definition key_name :: "string \<times> string \<Rightarrow> string" where
  "key_name ci = cacheKeyName (fst ci) (snd ci)"

definition puts :: "((string \<times> string) \<times> 'v option) list \<Rightarrow> (string \<times> 'v) list" where
  "puts fs = List.map_filter (\<lambda>(ci, x). map_option (Pair (key_name ci)) x) fs"

definition dels :: "((string \<times> string) \<times> 'v option) list \<Rightarrow> string list" where
  "dels fs = map (\<lambda>f. key_name (fst f)) (filter (\<lambda>f. snd f = None) fs)"

definition decodes_to :: "'v auth \<Rightarrow> (string \<times> jstr) list \<Rightarrow> (string \<times> 'v) list \<Rightarrow> bool" where
  "decodes_to U = list_all2 (\<lambda>(k, s) (k', v). k = k' \<and> fa_decode U s = Inr v \<and> s \<noteq> [])"

lemma puts_simps [simp]:
  "puts [] = []" "puts ((ci, Some v) # fs) = (key_name ci, v) # puts fs" "puts ((ci, None) # fs) = puts fs"
  by (simp_all add: puts_def List.map_filter_simps)

lemma dels_simps [simp]:
  "dels [] = []" "dels ((ci, Some v) # fs) = dels fs" "dels ((ci, None) # fs) = key_name ci # dels fs"
  by (simp_all add: dels_def)

lemma puts_induct [case_names Nil put del]:
  "P [] \<Longrightarrow> (\<And>ci v fs. P fs \<Longrightarrow> P ((ci, Some v) # fs)) \<Longrightarrow> (\<And>ci fs. P fs \<Longrightarrow> P ((ci, None) # fs)) \<Longrightarrow> P fs"
proof (induction fs)
  case (Cons f fs)
  then show ?case by (cases f; cases "snd f") auto
qed

lemma puts_append [simp]: "puts (fs @ gs) = puts fs @ puts gs" and dels_append [simp]: "dels (fs @ gs) = dels fs @ dels gs"
  by (simp_all add: puts_def dels_def List.map_filter_def)

lemma collect_bucket_ok:
  assumes "codec_ok U" and "\<forall>n. length (ivs n) = 12"
  shows "collect_bucket U ivs c b (es, ds) = Inr (es', ds') \<Longrightarrow>
    ds' = ds @ dels (map (\<lambda>(i, x). ((c, i), x)) b) \<and> (\<exists>xs. es' = es @ xs \<and> decodes_to U xs (puts (map (\<lambda>(i, x). ((c, i), x)) b)))"
proof (induction b arbitrary: es ds)
  case Nil
  then show ?case by (simp add: decodes_to_def)
next
  case (Cons ix b)
  obtain i x where ix: "ix = (i, x)" by fastforce
  show ?case
  proof (cases x)
    case None
    with Cons.prems ix have "collect_bucket U ivs c b (es, ds @ [cacheKeyName c i]) = Inr (es', ds')" by simp
    from Cons.IH [OF this] ix None show ?thesis by (simp add: key_name_def)
  next
    case (Some v)
    with Cons.prems ix obtain s where s: "fa_encode U (ivs (length es)) v = Inr s"
      and rest: "collect_bucket U ivs c b (es @ [(cacheKeyName c i, s)], ds) = Inr (es', ds')"
      by (auto split: sum.splits)
    from encode_decode [OF assms(1) _ s] assms(2) have "fa_decode U s = Inr v \<and> s \<noteq> []" by blast
    with Cons.IH [OF rest] Some ix show ?thesis by (fastforce simp: decodes_to_def key_name_def)
  qed
qed

lemma collect_ok:
  assumes "codec_ok U" and "\<forall>n. length (ivs n) = 12"
  shows "fa_collect U ivs data (es, ds) = Inr (es', ds') \<Longrightarrow>
    ds' = ds @ dels (flat data) \<and> (\<exists>xs. es' = es @ xs \<and> decodes_to U xs (puts (flat data)))"
proof (induction data arbitrary: es ds)
  case Nil
  then show ?case by (simp add: flat_def decodes_to_def)
next
  case (Cons cb data)
  obtain c b where cb: "cb = (c, b)" by fastforce
  show ?case
  proof (cases b)
    case None
    with Cons cb show ?thesis by (simp add: flat_def)
  next
    case (Some xs)
    with Cons.prems cb obtain es1 ds1 where b1: "collect_bucket U ivs c xs (es, ds) = Inr (es1, ds1)"
      and rest: "fa_collect U ivs data (es1, ds1) = Inr (es', ds')"
      by (auto split: sum.splits)
    from collect_bucket_ok [OF assms b1] Cons.IH [OF rest] cb Some show ?thesis
      by (auto simp: flat_def decodes_to_def intro: list_all2_appendI)
  qed
qed

lemma decodes_keys: "decodes_to U es ps \<Longrightarrow> keys_of es = keys_of ps"
  unfolding decodes_to_def by (induction rule: list_all2_induct) auto

lemma decodes_lookup:
  "decodes_to U es ps \<Longrightarrow> map_of ps k = Some v \<Longrightarrow> \<exists>s. map_of es k = Some s \<and> fa_decode U s = Inr v \<and> s \<noteq> []"
  unfolding decodes_to_def by (induction rule: list_all2_induct) (auto split: if_splits)

section \<open>\<open>keys.set\<close> and \<open>keys.get\<close>\<close>

text \<open>What a stored value stands for, as \<open>keys.get\<close> returns it: nothing, a value, or the error it throws.\<close>

definition signal_value :: "'v auth \<Rightarrow> string \<Rightarrow> jstr option \<Rightarrow> (error + 'v) option" where
  "signal_value U type x = (case truthy_str x of
     None \<Rightarrow> None
   | Some s \<Rightarrow> Some (case fa_decode U s of Inl e \<Rightarrow> Inl e | Inr v \<Rightarrow> revive U type v))"

text \<open>The rows after a batch of puts and deletions of distinct keys.\<close>

definition applied :: "string \<Rightarrow> (string \<times> jstr) list \<Rightarrow> string list \<Rightarrow> db_view \<Rightarrow> db_view \<Rightarrow> bool" where
  "applied s es ds v v' \<longleftrightarrow> (\<forall>s' k. value_at v' s' k =
     (if s' = s \<and> k \<in> set ds then None else if s' = s \<and> map_of es k \<noteq> None then map_of es k else value_at v s' k))"

lemma applied_upserted:
  "distinct (keys_of es) \<Longrightarrow> upserted s es t v v' \<Longrightarrow> applied s es [] v v'"
  unfolding applied_def
  by (auto simp: upserted_value_at store_all_distinct map_of_eq_None_iff split: option.splits)

lemma applied_removed: "removed s ds v v' \<Longrightarrow> applied s [] ds v v'"
  by (auto simp: applied_def removed_def value_at_def)

lemma applied_trans:
  assumes "applied s es [] v v1" and "applied s [] ds v1 v2"
  shows "applied s es ds v v2"
  unfolding applied_def
proof (intro allI)
  fix s' k
  from assms(1) have "value_at v1 s' k = (if s' = s \<and> map_of es k \<noteq> None then map_of es k else value_at v s' k)"
    by (simp add: applied_def)
  moreover from assms(2) have "value_at v2 s' k = (if s' = s \<and> k \<in> set ds then None else value_at v1 s' k)"
    unfolding applied_def by (metis map_of.simps(1))
  ultimately show "value_at v2 s' k =
      (if s' = s \<and> k \<in> set ds then None else if s' = s \<and> map_of es k \<noteq> None then map_of es k else value_at v s' k)"
    by (simp only: if_distrib [of "\<lambda>x. x = _"] split: if_split) blast
qed

lemma applied_Nil: "applied s [] [] v v"
  by (simp add: applied_def)

context auth_stack begin

lemma keys_set_runs:
  assumes "coh {} {} w" and "lsid (au_sessionId U)" and "codec_ok U" and "\<forall>n. length (ivs n) = 12"
    and "distinct (map (\<lambda>f. key_name (fst f)) (flat data))" and "\<forall>f \<in> set (flat data). lkey (key_name (fst f))"
    and "fa_keys_set U A l2 lock ivs data w = (r, w')"
  shows "\<exists>es. (\<forall>u. r = Inr u \<longrightarrow> decodes_to U es (puts (flat data)) \<and>
      applied (au_sessionId U) es (dels (flat data)) (view (w_db w)) (view (w_db w')) \<and> (l2_works w \<longrightarrow> coh {} {} w' \<and> l2_works w')) \<and>
    (\<forall>e. r = Inl e \<longrightarrow> view (w_db w') = view (w_db w) \<or> decodes_to U es (puts (flat data)) \<and>
      (applied (au_sessionId U) es [] (view (w_db w)) (view (w_db w')) \<or>
       applied (au_sessionId U) es (dels (flat data)) (view (w_db w)) (view (w_db w'))))"
proof -
  let ?s = "au_sessionId U" and ?ds = "dels (flat data)"
  show ?thesis
  proof (cases "fa_collect U ivs data ([], [])")
    case (Inl e)
    with assms(7) show ?thesis by (auto simp: fa_keys_set_def)
  next
    case (Inr ed)
    obtain es ds where ed: "ed = (es, ds)" by fastforce
    from collect_ok [OF assms(3,4) Inr [unfolded ed]] have ds: "ds = ?ds" and dec: "decodes_to U es (puts (flat data))" by auto
    have keys: "keys_of es = map (\<lambda>f. key_name (fst f)) (filter (\<lambda>f. snd f \<noteq> None) (flat data))"
    proof -
      have "keys_of (puts fs) = map (\<lambda>f. key_name (fst f)) (filter (\<lambda>f. snd f \<noteq> None) fs)" for fs :: "((string \<times> string) \<times> 'a option) list"
        by (induction fs) (auto simp: puts_def List.map_filter_def)
      with decodes_keys [OF dec] show ?thesis by simp
    qed
    then have dist: "distinct (keys_of es)" using assms(5) by (simp add: distinct_map_filter)
    have les: "\<forall>e \<in> set es. lkey (fst e)"
    proof
      fix e assume "e \<in> set es"
      then have "fst e \<in> set (keys_of es)" by simp
      then show "lkey (fst e)" unfolding keys using assms(6) by auto
    qed
    have lds: "\<forall>k \<in> set ?ds. lkey k" using assms(6) by (auto simp: dels_def)
    have run: "fa_keys_set U A l2 lock ivs data w =
        thenA (if es \<noteq> [] then fa_flush A l2 lock ?s es else ret ()) (if ?ds \<noteq> [] then fa_remove A l2 lock ?s ?ds else ret ()) w"
      by (simp add: fa_keys_set_def Inr ed ds)
    obtain r1 w1 where f: "(if es \<noteq> [] then fa_flush A l2 lock ?s es else ret ()) w = (r1, w1)" by fastforce
    have one: "(r1 = Inr () \<longrightarrow> applied ?s es [] (view (w_db w)) (view (w_db w1)) \<and> coh {} (Pair ?s ` fst ` set es) w1 \<and>
          (l2_works w \<longrightarrow> coh {} {} w1 \<and> l2_works w1)) \<and>
        (\<forall>e. r1 = Inl e \<longrightarrow> view (w_db w1) = view (w_db w) \<or> applied ?s es [] (view (w_db w)) (view (w_db w1)))"
    proof (cases "es = []")
      case True
      with f assms(1) applied_Nil show ?thesis by auto
    next
      case False
      with f have "fa_flush A l2 lock ?s es w = (r1, w1)" by simp
      from flush_ok [OF assms(1,2) les dist this] applied_upserted [OF dist] show ?thesis by blast
    qed
    show ?thesis
    proof (cases r1)
      case (Inl e)
      with assms(7) run f have "r = Inl e" "w' = w1" by (simp_all add: thenA_def bindA_def)
      with one Inl dec show ?thesis by blast
    next
      case r1: (Inr u)
      with one have one': "applied ?s es [] (view (w_db w)) (view (w_db w1))" "coh {} (Pair ?s ` fst ` set es) w1"
        "l2_works w \<Longrightarrow> coh {} {} w1 \<and> l2_works w1" by auto
      from assms(7) run f r1 have g: "(if ?ds \<noteq> [] then fa_remove A l2 lock ?s ?ds else ret ()) w1 = (r, w')"
        by (simp add: thenA_def bindA_def)
      show ?thesis
      proof (cases "?ds = []")
        case True
        with g one' dec show ?thesis by (intro exI [of _ es]) auto
      next
        case False
        with g have g': "fa_remove A l2 lock ?s ?ds w1 = (r, w')" by simp
        note rem = remove_ok [OF one'(2) assms(2) lds g']
        have fin: "coh {} {} w' \<and> l2_works w'" if "r = Inr ()" "l2_works w"
          using remove_ok [OF conjunct1 [OF one'(3)] assms(2) lds g'] one'(3) that by blast
        show ?thesis
          using rem fin applied_removed applied_trans [OF one'(1)] dec one'(1) by (intro exI [of _ es]) auto
      qed
    qed
  qed
qed

end

context auth_stack begin

lemma keys_get_runs:
  assumes "coh {} {} w" and "lsid (au_sessionId U)" and "\<forall>i \<in> set ids. lkey (cacheKeyName type i)"
    and "fa_keys_get U A l2 type ids m w = (r, w')"
  shows "coh {} {} w' \<and> view (w_db w') = view (w_db w) \<and>
    (\<forall>m'. r = Inr m' \<longrightarrow> (\<forall>i. map_option Inr (map_of m' i) = (if i \<in> set ids
        then (case signal_value U type (stored_value w (au_sessionId U) (cacheKeyName type i)) of None \<Rightarrow> map_option Inr (map_of m i) | Some v \<Rightarrow> Some v)
        else map_option Inr (map_of m i))))"
  using assms(1,3,4)
proof (induction ids arbitrary: m w)
  case Nil
  then show ?case by auto
next
  case (Cons i ids)
  let ?n = "cacheKeyName type i"
  obtain r1 w1 where g: "cm_get A l2 (au_sessionId U) ?n w = (r1, w1)" by fastforce
  have "lkey ?n" and rest: "\<forall>i \<in> set ids. lkey (cacheKeyName type i)" using Cons.prems(2) by simp_all
  from get_reads [OF Cons.prems(1) assms(2) \<open>lkey ?n\<close>] g
  have g': "coh {} {} w1" "view (w_db w1) = view (w_db w)" "\<And>x. r1 = Inr x \<Longrightarrow> x = stored_value w (au_sessionId U) ?n"
    by (auto simp: reads_ok_def)
  have skip: ?case if "signal_value U type (stored_value w (au_sessionId U) ?n) = None" "fa_keys_get U A l2 type ids m w1 = (r, w')"
    using Cons.IH [OF g'(1) rest that(2)] g'(2) that(1) by auto
  show ?case
  proof (cases r1)
    case (Inl e)
    with Cons.prems(3) g g' show ?thesis by (auto simp: bindA_def)
  next
    case (Inr x)
    with g'(3) have x: "x = stored_value w (au_sessionId U) ?n" by simp
    show ?thesis
    proof (cases "truthy_str x")
      case None
      with Cons.prems(3) g Inr x skip show ?thesis by (simp add: bindA_def signal_value_def)
    next
      case (Some s)
      show ?thesis
      proof (cases "fa_decode U s")
        case (Inl e)
        with Cons.prems(3) g Inr Some \<open>r1 = Inr x\<close> g' show ?thesis by (auto simp: bindA_def)
      next
        case v: (Inr v)
        have sv: "signal_value U type (stored_value w (au_sessionId U) ?n) = Some (revive U type v)"
          using Some v x by (simp add: signal_value_def)
        show ?thesis
        proof (cases "revive U type v")
          case (Inl e)
          with Cons.prems(3) g v Some \<open>r1 = Inr x\<close> g' show ?thesis by (auto simp: bindA_def)
        next
          case y: (Inr y)
          with Cons.prems(3) g \<open>r1 = Inr x\<close> Some v
          have "fa_keys_get U A l2 type ids (AList.update i y m) w1 = (r, w')" by (simp add: bindA_def)
          from Cons.IH [OF g'(1) rest this] g'(2) have IH: "coh {} {} w'" "view (w_db w') = view (w_db w)"
            "\<And>m' i'. r = Inr m' \<Longrightarrow> map_option Inr (map_of m' i') = (if i' \<in> set ids
              then (case signal_value U type (stored_value w (au_sessionId U) (cacheKeyName type i')) of
                  None \<Rightarrow> map_option Inr (map_of (AList.update i y m) i') | Some v \<Rightarrow> Some v)
              else map_option Inr (map_of (AList.update i y m) i'))" by auto
          show ?thesis using IH(1,2) IH(3) sv y by (auto simp: jmap_simps split: option.splits)
        qed
      qed
    qed
  qed
qed

end

section \<open>Names of signal keys\<close>

text \<open>The categories and ids whose stored names cannot be confused.\<close>

definition plain_name :: "string \<times> string \<Rightarrow> bool" where
  "plain_name ci \<longleftrightarrow> fst ci \<in> set CATEGORIES \<and>
     \<not> (fst ci = ''sender-key'' \<and> (snd ci = ''memory'' \<or> startsWith (snd ci) ''memory-''))"

lemma resolve_plain: "plain_name ci \<Longrightarrow> resolveCategory (key_name ci) = Some (fst ci)"
  using resolve_category_names [of "snd ci"]
  by (auto simp: plain_name_def key_name_def cacheKeyName_def list_all_iff)

lemma key_name_inject: "plain_name ci \<Longrightarrow> plain_name ci' \<Longrightarrow> key_name ci = key_name ci' \<Longrightarrow> ci = ci'"
proof -
  assume p: "plain_name ci" "plain_name ci'" and eq: "key_name ci = key_name ci'"
  have "Some (fst ci) = Some (fst ci')" using resolve_plain [OF p(1)] resolve_plain [OF p(2)] eq by simp
  then have "fst ci = fst ci'" by simp
  moreover from this eq have "snd ci = snd ci'" by (simp add: key_name_def cacheKeyName_def)
  ultimately show ?thesis by (simp add: prod_eq_iff)
qed

lemma distinct_key_names:
  "distinct (map fst fs) \<Longrightarrow> \<forall>f \<in> set fs. plain_name (fst f) \<Longrightarrow> distinct (map (\<lambda>f. key_name (fst f)) fs)"
  by (induction fs) (auto dest: key_name_inject)

lemma puts_lookup:
  assumes "\<forall>f \<in> set fs. plain_name (fst f)" and "plain_name ci"
  shows "map_of fs ci = Some (Some v) \<Longrightarrow> distinct (map fst fs) \<Longrightarrow> map_of (puts fs) (key_name ci) = Some v"
    and "key_name ci \<in> fst ` set (puts fs) \<Longrightarrow> \<exists>v. (ci, Some v) \<in> set fs"
    and "key_name ci \<in> set (dels fs) \<longleftrightarrow> (ci, None) \<in> set fs"
proof -
  have same: "fst f = ci" if "f \<in> set fs" "key_name (fst f) = key_name ci" for f
    using key_name_inject [OF _ assms(2) that(2)] assms(1) that(1) by blast
  show "\<exists>v. (ci, Some v) \<in> set fs" if k: "key_name ci \<in> fst ` set (puts fs)"
  proof -
    have "set (puts fs) = {(key_name c, v) |c v. (c, Some v) \<in> set fs}" by (induction fs rule: puts_induct) auto
    with k obtain c v where c: "(c, Some v) \<in> set fs" "key_name c = key_name ci" by auto
    with same [OF c(1)] show ?thesis by auto
  qed
  have "set (dels fs) = (\<lambda>f. key_name (fst f)) ` {f \<in> set fs. snd f = None}" by (simp add: dels_def)
  then show "key_name ci \<in> set (dels fs) \<longleftrightarrow> (ci, None) \<in> set fs"
    using same by (auto simp: image_iff) (metis fst_conv snd_conv prod.collapse)+
  show "map_of fs ci = Some (Some v) \<Longrightarrow> distinct (map fst fs) \<Longrightarrow> map_of (puts fs) (key_name ci) = Some v"
    using assms(1)
  proof (induction fs)
    case (Cons f fs)
    obtain c x where f: "f = (c, x)" by fastforce
    show ?case
    proof (cases "c = ci")
      case True
      with Cons.prems f show ?thesis by simp
    next
      case False
      then have "key_name c \<noteq> key_name ci" using key_name_inject [of c ci] Cons.prems(3) assms(2) f by auto
      with Cons f False show ?thesis by (cases x) auto
    qed
  qed simp
qed

section \<open>Saving and loading credentials\<close>

text \<open>A batcher with nothing to do.\<close>

definition idle :: "batcher \<Rightarrow> bool" where
  "idle b \<longleftrightarrow> b_pending b = [] \<and> b_queue b = [] \<and> b_running b = None \<and> b_flushWaiters b = [] \<and> \<not> b_timer b"

text \<open>An idle batcher hands exactly the new value to \<open>flush\<close>, once, and its outcome decides.\<close>

lemma saveCreds_runs:
  assumes "idle b" and "c \<notin> set (b_resolved b)" and "c \<notin> set (b_rejected b)" and "fa_encode U iv creds = Inr s"
    and "fa_flush A l2 lock (au_sessionId U) [(CREDS_KEY, s)] w = (r, w')"
  shows "fst (fa_saveCreds U A l2 lock iv c c' creds b w) =
      (case r of Inr _ \<Rightarrow> Settled (Inr ()) | Inl e \<Rightarrow> if debounce_of U \<le> 0 then Settled (Inl e) else Pending)"
    and "snd (snd (fa_saveCreds U A l2 lock iv c c' creds b w)) = w'"
  using assms
  by (auto simp: fa_saveCreds_def idle_def wb_write_def wb_issue_def wb_flushNow_def run_flushNow_def run_task_def wb_start_def
      wb_flushed_def wb_failed_def wb_settle_def wb_throw_def Let_def split: sum.splits if_splits)

context auth_stack begin

lemma loadCreds_ok:
  assumes "coh {} {} w" and "lsid (au_sessionId U)" and "lkey CREDS_KEY" and "up (w_db w)"
    and "stored_value w (au_sessionId U) CREDS_KEY = Some s" and "s \<noteq> []" and "fa_decode U s = Inr v"
  shows "fst (fa_loadCreds U A l2 w) = Inr v"
proof -
  obtain r1 w1 where g: "cm_get A l2 (au_sessionId U) CREDS_KEY w = (r1, w1)" by fastforce
  with get_reads [OF assms(1-3)] assms(4,5) have "r1 = Inr (Some s)" by (auto simp: reads_ok_def)
  with g assms(6,7) show ?thesis by (simp add: fa_loadCreds_def bindA_def truthy_str_def)
qed

end

lemma saveCreds_batcher:
  assumes "idle b" and "c \<notin> b_issued b" and "c \<notin> set (b_resolved b)" and "c \<notin> set (b_rejected b)" and "0 < debounce_of U"
    and "fa_encode U iv creds = Inr s" and "fa_flush A l2 lock (au_sessionId U) [(CREDS_KEY, s)] w = (Inl e, w')"
  shows "\<exists>b1 es j. (wb_step (debounce_of U))\<^sup>*\<^sup>* b b1 \<and> b_running b1 = Some (es, j) \<and> c \<in> set (job_waiters j) \<and>
    fst (snd (fa_saveCreds U A l2 lock iv c c' creds b w)) = wb_failed j b1"
proof -
  let ?d = "debounce_of U" and ?j = "\<lparr>job_waiters = [c], job_caller = None\<rparr>"
  let ?b1 = "wb_write ?d c CREDS_KEY s b" and ?b2 = "wb_flushNow None (wb_write ?d c CREDS_KEY s b)"
  have b1: "b_timer ?b1" "b_flushWaiters ?b1 = [c]" "b_queue ?b1 = []" "b_running ?b1 = None" "b_pending ?b1 = [(CREDS_KEY, s)]"
    "b_resolved ?b1 = b_resolved b" "b_rejected ?b1 = b_rejected b"
    using assms(1,5) by (simp_all add: wb_write_def wb_issue_def Let_def idle_def)
  then have b2: "b_queue ?b2 = [?j]" "b_running ?b2 = None" "b_pending ?b2 = [(CREDS_KEY, s)]"
    "b_resolved ?b2 = b_resolved b" "b_rejected ?b2 = b_rejected b" by (simp_all add: wb_flushNow_def)
  let ?b3 = "wb_start ?j ?b2"
  from b2 have b3: "b_running ?b3 = Some ([(CREDS_KEY, s)], ?j)" "b_resolved ?b3 = b_resolved b" "b_rejected ?b3 = b_rejected b"
    by (simp_all add: wb_start_def Let_def)
  have "wb_step ?d b ?b1" by (rule wb_step.call_write [OF assms(2)])
  moreover have "wb_step ?d ?b1 ?b2" by (rule wb_step.timer [OF b1(1)])
  moreover have "wb_step ?d ?b2 ?b3" by (rule wb_step.start [OF b2(2)]) (simp add: b2(1))
  ultimately have steps: "(wb_step ?d)\<^sup>*\<^sup>* b ?b3" by (meson r_into_rtranclp rtranclp_trans)
  have task: "run_flushNow (fa_flush A l2 lock (au_sessionId U)) ?b2 w = (Some e, wb_failed ?j ?b3, w')"
    using assms(7) b2(1) b3(1) by (simp add: run_flushNow_def run_task_def Let_def)
  have "b_resolved (wb_failed ?j ?b3) = b_resolved b" "b_rejected (wb_failed ?j ?b3) = b_rejected b"
    using b3 by (simp_all add: wb_failed_def wb_throw_def)
  with task b1(1) assms(3,4,6) have "fst (snd (fa_saveCreds U A l2 lock iv c c' creds b w)) = wb_failed ?j ?b3"
    by (simp add: fa_saveCreds_def Let_def)
  with steps b3(1) show ?thesis by (intro exI [of _ ?b3] exI [of _ "[(CREDS_KEY, s)]"] exI [of _ ?j]) simp
qed

section \<open>An auth state to compute with\<close>

interpretation mem_auth: auth_stack mem_adapter mem_view mem_ok mem_up colon_free any_name mem_http mem_kv.l2h mem_kv.uph local_lock
  by (rule auth_stack.intro [OF mem_stack.cache_stack_axioms local_lock])

text \<open>Values are booleans, with their JSON texts; no encryption.\<close>

definition bool_codec :: "bool codec" where
  "bool_codec = \<lparr>cd_serialize = (\<lambda>b. if b then lit ''true'' else lit ''false''),
     cd_deserialize = (\<lambda>s. if s = lit ''true'' then Inr True else if s = lit ''false'' then Inr False else Inl BadJson),
     cd_truthy = (\<lambda>b. b), cd_fromObject = Inr, cd_initAuthCreds = False, cd_block = (\<lambda>k x. x)\<rparr>"

definition sample_auth :: "bool auth" where
  "sample_auth = \<lparr>au_sessionId = ''bot'', au_codec = bool_codec, au_encryption = None, au_writeDebounceMs = None\<rparr>"

lemma sample_codec: "codec_ok sample_auth"
  by (simp add: codec_ok_def sample_auth_def bool_codec_def lit_def is_high_surrogate_def is_low_surrogate_def)

lemma sample_flush:
  "\<exists>w'. fa_flush mem_adapter mem_http local_lock ''bot'' [(k, s)] mem_world = (Inr (), w') \<and> mem_up (w_db w') \<and>
     coherent mem_view mem_ok colon_free any_name mem_kv.l2h mem_http {} {} w' \<and> value_at (mem_view (w_db w')) ''bot'' k = Some s"
proof -
  have up: "mem_up (w_db mem_world)" by (simp add: mem_world_def mem_up_def)
  have works: "mem_kv.uph (w_l2 mem_world)" by (simp add: mem_world_def mem_kv.uph_def mk_up_def all_parse_def)
  have b: "colon_free ''bot''" by (simp add: colon_free_def)
  have legal: "\<forall>e \<in> set [(k, s)]. any_name (fst e)" by simp
  have dist: "distinct (keys_of [(k, s)])" by simp
  obtain r1 w1 where q: "on_db (ad_setMany mem_adapter ''bot'' [(k, s)] (w_now mem_world)) mem_world = (r1, w1)" by fastforce
  from mem_stack.on_db_setMany(5) [OF mem_world_coherent b legal q up dist] obtain u where r1: "r1 = Inr u" and up1: "mem_up (w_db w1)" by blast
  let ?w = "cm_allWritten mem_http ''bot'' [(k, s)] w1"
  have run: "fa_flush mem_adapter mem_http local_lock ''bot'' [(k, s)] mem_world = (Inr (), ?w)"
    using q r1 by (simp add: fa_flush_def local_lock_def thenA_def bindA_def)
  from mem_auth.flush_ok [OF mem_world_coherent b legal dist run] works obtain t where
    up': "upserted ''bot'' [(k, s)] t (mem_view (w_db mem_world)) (mem_view (w_db ?w))"
    and c: "coherent mem_view mem_ok colon_free any_name mem_kv.l2h mem_http {} {} ?w" by auto
  have "w_db ?w = w_db w1" by (simp add: cm_allWritten_def cm_onWritten_def Let_def split: option.splits)
  with run up1 c upserted_value [OF up', of k] show ?thesis by (intro exI [of _ ?w]) simp
qed

section \<open>Properties\<close>

text \<open>What a store holds for a key once the entries of a \<open>keys.set\<close> have reached it.\<close>

lemma applied_signal_value:
  assumes "distinct (map fst fs)" and "\<forall>f \<in> set fs. plain_name (fst f)" and "applied s es (dels fs) V V'"
    and "plain_name (type, i)" and "decodes_to U es (puts fs)"
  shows "signal_value U type (value_at V' s (cacheKeyName type i)) =
    (case map_of fs (type, i) of
       Some (Some v) \<Rightarrow> Some (revive U type v)
     | Some None \<Rightarrow> None
     | None \<Rightarrow> signal_value U type (value_at V s (cacheKeyName type i)))"
proof -
  let ?n = "cacheKeyName type i"
  have n: "?n = key_name (type, i)" by (simp add: key_name_def)
  have p: "plain_name (type, i)" by (rule assms(4))
  note look = puts_lookup [OF assms(2) p]
  have stored: "value_at V' s ?n =
      (if ?n \<in> set (dels fs) then None else if map_of es ?n \<noteq> None then map_of es ?n else value_at V s ?n)"
    using assms(3) by (simp add: applied_def)
  consider v where "map_of fs (type, i) = Some (Some v)" | "map_of fs (type, i) = Some None" | "map_of fs (type, i) = None"
    by (metis not_None_eq)
  then show ?thesis
  proof cases
    case 1
    with look(1) assms(1) have "map_of (puts fs) ?n = Some v" by (simp add: n)
    from decodes_lookup [OF assms(5) this] obtain t where t: "map_of es ?n = Some t" "fa_decode U t = Inr v" "t \<noteq> []" by blast
    have "(( type, i), None) \<notin> set fs" using 1 assms(1) by (metis map_of_is_SomeI option.distinct(1) option.inject)
    with look(3) have "?n \<notin> set (dels fs)" by (simp add: n)
    with stored t 1 show ?thesis by (simp add: signal_value_def truthy_str_def)
  next
    case 2
    then have "((type, i), None) \<in> set fs" by (rule map_of_SomeD)
    with look(3) have "?n \<in> set (dels fs)" by (simp add: n)
    with stored 2 show ?thesis by (simp add: signal_value_def truthy_str_def)
  next
    case 3
    then have no: "((type, i), x) \<notin> set fs" for x by (metis map_of_eq_None_iff fst_conv image_iff)
    with look(2,3) have "?n \<notin> set (dels fs)" "?n \<notin> fst ` set (puts fs)" by (auto simp: n)
    moreover from this(2) decodes_keys [OF assms(5)] have "map_of es ?n = None" by (metis map_of_eq_None_iff set_map)
    ultimately show ?thesis using stored 3 by simp
  qed
qed

text \<open>C1. Signal keys round-trip: when \<open>keys.set\<close> returns, \<open>keys.get\<close> of any ids gives back, decrypted and
  revived, exactly the values just set, nothing for those just deleted, and for every other id what
  the store held before (had decoding or reviving one of them failed, \<open>keys.get\<close> would have thrown);
  the caches are coherent. The categories are those Baileys defines, without the one ambiguous name;
  encryption may be on or off. The caches must be coherent to begin with, and Redis absent or up during
  the \<open>keys.set\<close>: a failed cache write leaves the old value served (\<open>cache_stale_after_l2_failure\<close>).\<close>

theorem keys_roundtrip:
  assumes "auth_stack A view ivr up lsid lkey l2 l2v rup lock"
    and "coherent view ivr lsid lkey l2v l2 {} {} w" and "lsid (au_sessionId U)" and "l2 = None \<or> rup (w_l2 w)"
    and "codec_ok U" and "\<forall>n. length (ivs n) = 12" and "distinct (map fst (flat data))"
    and "\<forall>f \<in> set (flat data). plain_name (fst f) \<and> lkey (key_name (fst f))"
    and "\<forall>i \<in> set ids. plain_name (type, i) \<and> lkey (cacheKeyName type i)"
    and "fa_keys_set U A l2 lock ivs data w = (Inr u, w1)" and "fa_keys_get U A l2 type ids [] w1 = (Inr m, w2)"
  shows "(\<forall>i. map_option Inr (map_of m i) = (if i \<notin> set ids then None else
      (case map_of (flat data) (type, i) of
         Some (Some v) \<Rightarrow> Some (revive U type v)
       | Some None \<Rightarrow> None
       | None \<Rightarrow> signal_value U type (value_at (view (w_db w)) (au_sessionId U) (cacheKeyName type i))))) \<and>
    coherent view ivr lsid lkey l2v l2 {} {} w2"
proof -
  let ?s = "au_sessionId U" and ?fs = "flat data"
  have names: "\<forall>f \<in> set ?fs. plain_name (fst f)" using assms(8) by blast
  have "distinct (map (\<lambda>f. key_name (fst f)) ?fs)" by (rule distinct_key_names [OF assms(7) names])
  then obtain es where dec: "decodes_to U es (puts ?fs)" and app: "applied ?s es (dels ?fs) (view (w_db w)) (view (w_db w1))"
    and c1: "coherent view ivr lsid lkey l2v l2 {} {} w1"
    using auth_stack.keys_set_runs [OF assms(1-3,5,6) _ _ assms(10)] assms(4,8) by blast
  have keys: "\<forall>i \<in> set ids. lkey (cacheKeyName type i)" using assms(9) by blast
  note get = auth_stack.keys_get_runs [OF assms(1) c1 assms(3) keys assms(11)]
  have "signal_value U type (value_at (view (w_db w1)) ?s (cacheKeyName type i)) =
      (case map_of ?fs (type, i) of
         Some (Some v) \<Rightarrow> Some (revive U type v)
       | Some None \<Rightarrow> None
       | None \<Rightarrow> signal_value U type (value_at (view (w_db w)) ?s (cacheKeyName type i)))" if "i \<in> set ids" for i
    using applied_signal_value [OF assms(7) names app _ dec] assms(9) that by blast
  with get show ?thesis by (auto split: option.splits)
qed

text \<open>C16. A failing \<open>keys.set\<close> is never torn within a batch: if it throws, the rows are as they were, or all the
  values to be set have been written and none deleted, or everything has been done; no row of
  another session, and no key not named in the call, has changed.\<close>

theorem keys_set_failure:
  assumes "auth_stack A view ivr up lsid lkey l2 l2v rup lock"
    and "coherent view ivr lsid lkey l2v l2 {} {} w" and "lsid (au_sessionId U)"
    and "codec_ok U" and "\<forall>n. length (ivs n) = 12" and "distinct (map fst (flat data))"
    and "\<forall>f \<in> set (flat data). plain_name (fst f) \<and> lkey (key_name (fst f))"
    and "fa_keys_set U A l2 lock ivs data w = (Inl e, w')"
  shows "view (w_db w') = view (w_db w) \<or> (\<exists>es. decodes_to U es (puts (flat data)) \<and>
    (applied (au_sessionId U) es [] (view (w_db w)) (view (w_db w')) \<or>
     applied (au_sessionId U) es (dels (flat data)) (view (w_db w)) (view (w_db w'))))"
proof -
  have names: "\<forall>f \<in> set (flat data). plain_name (fst f)" and keys: "\<forall>f \<in> set (flat data). lkey (key_name (fst f))"
    using assms(7) by blast+
  from auth_stack.keys_set_runs [OF assms(1-5) distinct_key_names [OF assms(6) names] keys assms(8)]
  show ?thesis by blast
qed

text \<open>When \<open>saveCreds\<close> settles without an error, the stored text of the credentials decodes to them.\<close>

lemma saveCreds_stored:
  assumes "auth_stack A view ivr up lsid lkey l2 l2v rup lock"
    and "coherent view ivr lsid lkey l2v l2 {} {} w" and "lsid (au_sessionId U)" and "lkey CREDS_KEY"
    and "l2 = None \<or> rup (w_l2 w)" and "codec_ok U" and "length iv = 12"
    and "idle b" and "c \<notin> set (b_resolved b)" and "c \<notin> set (b_rejected b)"
    and "fa_saveCreds U A l2 lock iv c c' creds b w = (Settled (Inr ()), b', w')"
  obtains s where "value_at (view (w_db w')) (au_sessionId U) CREDS_KEY = Some s" and "s \<noteq> []" and "fa_decode U s = Inr creds"
    and "coherent view ivr lsid lkey l2v l2 {} {} w'"
proof -
  from assms(11) obtain s where s: "fa_encode U iv creds = Inr s" by (auto simp: fa_saveCreds_def split: sum.splits)
  obtain r w1 where f: "fa_flush A l2 lock (au_sessionId U) [(CREDS_KEY, s)] w = (r, w1)" by fastforce
  note runs = saveCreds_runs [OF assms(8-10) s f, of c']
  from runs assms(11) have r: "r = Inr ()" and w1: "w1 = w'" by (auto split: sum.splits if_splits)
  have legal: "\<forall>e \<in> set [(CREDS_KEY, s)]. lkey (fst e)" using assms(4) by simp
  obtain t where up1: "upserted (au_sessionId U) [(CREDS_KEY, s)] t (view (w_db w)) (view (w_db w'))"
    and c1: "coherent view ivr lsid lkey l2v l2 {} {} w'"
    using auth_stack.flush_ok [OF assms(1-3) legal _ f] assms(5) r w1 by auto
  have "value_at (view (w_db w')) (au_sessionId U) CREDS_KEY = Some s" using upserted_value [OF up1, of CREDS_KEY] by simp
  with that encode_decode [OF assms(6,7) s] c1 show thesis by blast
qed

text \<open>C17. A failing save is never reported: with a debounce window (the default), if the flush of \<open>saveCreds\<close>
  throws, for instance because the database refuses the write, the promise of \<open>saveCreds\<close> is pending
  afterwards, and whatever the batcher does from then on it neither resolves nor rejects.\<close>

theorem failed_save_never_settles:
  assumes "wb_reach (debounce_of U) b" and "idle b" and "c \<notin> b_issued b" and "0 < debounce_of U"
    and "fa_encode U iv creds = Inr s" and "fa_flush A l2 lock (au_sessionId U) [(CREDS_KEY, s)] w = (Inl e, w')"
    and "fa_saveCreds U A l2 lock iv c c' creds b w = (outcome, b', w'')"
    and "(wb_step (debounce_of U))\<^sup>*\<^sup>* b' b''"
  shows "outcome = Pending \<and> c \<notin> set (b_resolved b'') \<and> c \<notin> set (b_rejected b'')"
proof -
  from fresh_nowhere [OF once_reach [OF assms(1)] assms(3)]
  have fresh: "c \<notin> set (b_resolved b)" "c \<notin> set (b_rejected b)" by blast+
  have out: "fst (snd (fa_saveCreds U A l2 lock iv c c' creds b w)) = b'" using assms(7) by simp
  obtain b1 es j where b1: "(wb_step (debounce_of U))\<^sup>*\<^sup>* b b1" "b_running b1 = Some (es, j)" "c \<in> set (job_waiters j)"
    and b': "b' = wb_failed j b1"
    using saveCreds_batcher [OF assms(2,3) fresh assms(4-6), of c', unfolded out] by (elim exE conjE)
  from assms(1) b1(1) have "wb_reach (debounce_of U) b1" unfolding wb_reach_def by (rule rtranclp_trans)
  from failed_write_hangs [OF this b1(2,3)] assms(8) b'
  have "c \<notin> set (b_resolved b'') \<and> c \<notin> set (b_rejected b'')" by simp
  moreover have "outcome = Pending"
    using saveCreds_runs(1) [OF assms(2) fresh assms(5,6), of c'] assms(4,7) by simp
  ultimately show ?thesis by blast
qed

section \<open>The properties at work\<close>

abbreviation sample_data :: "bool signal_data" where
  "sample_data \<equiv> [(''session'', Some [(''1'', Some True)])]"

abbreviation sample_ivs :: "nat \<Rightarrow> bytes" where
  "sample_ivs \<equiv> \<lambda>_. replicate 12 0"

lemma sample_session: "au_sessionId sample_auth = ''bot''" "colon_free ''bot''" "mem_kv.uph (w_l2 mem_world)"
  by (simp_all add: sample_auth_def colon_free_def mem_world_def mem_kv.uph_def mk_up_def all_parse_def)

lemma sample_encode: "fa_encode sample_auth iv True = Inr (lit ''true'')" "fa_decode sample_auth (lit ''true'') = Inr True"
  by (simp_all add: fa_encode_def fa_decode_def encrypting_def sample_auth_def bool_codec_def)

lemma sample_keys_set:
  "fa_keys_set sample_auth mem_adapter mem_http lock sample_ivs sample_data =
    fa_flush mem_adapter mem_http lock ''bot'' [(''session-1'', lit ''true'')]"
  by (rule ext) (simp add: fa_keys_set_def sample_encode cacheKeyName_def sample_session thenA_def bindA_def split: prod.splits sum.splits)

lemma sample_names: "plain_name (''session'', ''1'')" "flat sample_data = [((''session'', ''1''), Some True)]"
  by (simp_all add: plain_name_def CATEGORIES_eq flat_def)

theorem keys_roundtrip_witness:
  "\<exists>w1 m w2. fa_keys_set sample_auth mem_adapter mem_http local_lock sample_ivs sample_data mem_world = (Inr (), w1) \<and>
     fa_keys_get sample_auth mem_adapter mem_http ''session'' [''1''] [] w1 = (Inr m, w2) \<and> map_of m ''1'' = Some True"
proof -
  from sample_flush obtain w1 where f: "fa_flush mem_adapter mem_http local_lock ''bot'' [(''session-1'', lit ''true'')] mem_world = (Inr (), w1)"
    and up: "mem_up (w_db w1)" and c: "coherent mem_view mem_ok colon_free any_name mem_kv.l2h mem_http {} {} w1"
    and v: "value_at (mem_view (w_db w1)) ''bot'' ''session-1'' = Some (lit ''true'')" by blast
  have set: "fa_keys_set sample_auth mem_adapter mem_http local_lock sample_ivs sample_data mem_world = (Inr (), w1)"
    using f by (simp only: sample_keys_set)
  obtain x w2 where g: "cm_get mem_adapter mem_http ''bot'' ''session-1'' w1 = (Inr x, w2)"
    using mem_stack.get_returns [OF c sample_session(2) TrueI up] by blast
  from mem_stack.get_reads [OF c sample_session(2) TrueI, of "''session-1''"] g v have x: "x = Some (lit ''true'')"
    by (simp add: mem_stack.reads_ok_def)
  have "lit ''true'' \<noteq> []" by (simp add: lit_def)
  with g x have get: "fa_keys_get sample_auth mem_adapter mem_http ''session'' [''1''] [] w1 =
      (Inr [(''1'', True)], w2)"
    by (simp add: bindA_def cacheKeyName_def sample_session truthy_str_def sample_encode revive_def)
  have "map_option Inr (map_of [(''1'', True)] ''1'') = Some (revive sample_auth ''session'' True)"
    using spec [OF conjunct1 [OF keys_roundtrip [OF mem_auth.auth_stack_axioms mem_world_coherent _ _ sample_codec _ _ _ _ set get]], of "''1''"]
    by (simp add: sample_session sample_names key_name_def)
  then have "map_of [(''1'', True)] ''1'' = Some True" by (simp add: revive_def)
  with set get show ?thesis by blast
qed

text \<open>A database that refuses every write.\<close>

definition down_adapter :: "mem_server adapter" where
  "down_adapter = mem_adapter\<lparr>ad_setMany := (\<lambda>sid es now. raise (DriverError ''down''))\<rparr>"

theorem failed_save_never_settles_witness:
  "\<exists>outcome b' w'. fa_saveCreds sample_auth down_adapter mem_http local_lock (replicate 12 0) 0 1 True wb_new mem_world = (outcome, b', w') \<and>
     outcome = Pending \<and> 0 \<notin> set (b_rejected b')"
proof -
  obtain outcome b' w' where run: "fa_saveCreds sample_auth down_adapter mem_http local_lock (replicate 12 0) 0 1 True wb_new mem_world = (outcome, b', w')"
    by (metis prod_cases3)
  have f: "fa_flush down_adapter mem_http local_lock (au_sessionId sample_auth) [(CREDS_KEY, lit ''true'')] mem_world =
      (Inl (DriverError ''down''), mem_world)"
    by (simp add: fa_flush_def local_lock_def thenA_def bindA_def on_db_def down_adapter_def)
  have b: "idle wb_new" "0 \<notin> b_issued wb_new" "0 < debounce_of sample_auth"
    by (simp_all add: idle_def wb_new_def debounce_of_def sample_auth_def)
  from failed_save_never_settles [OF reach_new b sample_encode(1) f run rtranclp.rtrancl_refl] run show ?thesis by blast
qed

theorem keys_set_failure_witness:
  "mem_view (w_db (snd (fa_keys_set sample_auth mem_adapter mem_http (\<lambda>k fn. raise (LockTimeout k 10000)) sample_ivs sample_data mem_world))) =
     mem_view (w_db mem_world) \<or>
   (\<exists>es. decodes_to sample_auth es (puts (flat sample_data)))"
proof -
  have lock: "auth_lock (\<lambda>k fn. raise (LockTimeout k 10000)) mem_kv.l2h mem_kv.uph" by unfold_locales auto
  have run: "fa_keys_set sample_auth mem_adapter mem_http (\<lambda>k fn. raise (LockTimeout k 10000)) sample_ivs sample_data mem_world =
      (Inl (LockTimeout ''bot'' 10000), mem_world)"
    by (simp only: sample_keys_set) (simp add: fa_flush_def)
  from keys_set_failure [OF auth_stack.intro [OF mem_stack.cache_stack_axioms lock] mem_world_coherent _ sample_codec _ _ _ run]
  show ?thesis by (auto simp: run sample_session sample_names key_name_def)
qed

end
