(* ===== verification/AuthState.thy ===== *)
theory AuthState
  imports Factory
begin

text \<open>
  \<^verbatim>\<open>src/factory.ts\<close>, the entry point: \<open>useHybridAuthState\<close> builds the auth state from its options, over the
  operations of \<^verbatim>\<open>Factory\<close>. The options are the record \<open>auth_options\<close>; the logger is left out. Whether the Redis
  cache is the class \<open>RedisTcpCacheAdapter\<close>, whose raw client the lock uses, is the parameter \<open>rawClient\<close>.
  What the option \<open>retry\<close> says reaches nobody: the factory does not read it.
\<close>

record ('d, 'r) auth_options =
  ao_sessionId :: string
  ao_adapter :: "'d adapter"
  ao_cache :: "'r cache_options option"
  ao_encryption :: "encryption_options option"
  ao_retry :: "retry_options option"
  ao_writeDebounceMs :: "int option"
  ao_concurrency :: "int option"
  ao_retention :: "key_retention_options option"

text \<open>What \<open>useHybridAuthState\<close> returns: the objects its closures share. The closures are \<open>fa_keys_get\<close>, \<open>fa_keys_set\<close>,
  \<open>fa_saveCreds\<close> and \<open>fa_close\<close> of \<^verbatim>\<open>Factory\<close>, applied to them.\<close>

record ('d, 'r, 'v) auth_state =
  st_auth :: "'v auth"
  st_adapter :: "'d adapter"
  st_l2 :: "'r redis_cache option"
  st_lock :: "('d, 'r) lock"
  st_creds :: 'v
  st_batcher :: batcher
  st_sessionManager :: "('d, 'r) session_manager"
  st_retentionTimer :: "int option"

definition auth_of :: "('d, 'r) auth_options \<Rightarrow> 'v codec \<Rightarrow> 'v auth" where
  "auth_of opts codec = \<lparr>au_sessionId = ao_sessionId opts, au_codec = codec, au_encryption = ao_encryption opts,
     au_writeDebounceMs = ao_writeDebounceMs opts\<rparr>"

text \<open>\<open>options.cache?.redis\<close>\<close>

definition redis_of :: "('d, 'r) auth_options \<Rightarrow> 'r redis_cache option" where
  "redis_of opts = Option.bind (ao_cache opts) co_redis"

definition choose_lock ::
  "('r redis_cache \<Rightarrow> ('d, 'r) world lock_client option) \<Rightarrow> (('d, 'r) world \<Rightarrow> string) \<Rightarrow> 'r redis_cache option \<Rightarrow> ('d, 'r) lock" where
  "choose_lock rawClient randomUUID redisAdapter =
     (case Option.bind redisAdapter rawClient of
        Some C \<Rightarrow> redis_lock C randomUUID
      | None \<Rightarrow> local_lock)"

text \<open>The whole of it: \<open>init\<close>, the caches with their subscription, the credentials, the manager, the timer. It throws when \<open>init\<close>,
  the read of the credentials or their decoding does; what is left then is the state of Redis and the database.\<close>

definition useHybridAuthState ::
  "('d, 'r) auth_options \<Rightarrow> 'v codec \<Rightarrow> ('r redis_cache \<Rightarrow> ('d, 'r) world lock_client option) \<Rightarrow> (('d, 'r) world \<Rightarrow> string) \<Rightarrow>
    int \<Rightarrow> 'r \<Rightarrow> 'd \<Rightarrow> (error \<times> 'r \<times> 'd) + (('d, 'r, 'v) auth_state \<times> ('d, 'r) world)" where
  "useHybridAuthState opts codec rawClient randomUUID now r d =
     (let A = ao_adapter opts; l2 = redis_of opts; U = auth_of opts codec in
      case ad_init A d of
        (Inl e, d1) \<Rightarrow> Inl (e, r, d1)
      | (Inr _, d1) \<Rightarrow>
          (case fa_loadCreds U A l2 (cm_new (ao_cache opts) now r d1) of
             (Inl e, w) \<Rightarrow> Inl (e, w_l2 w, w_db w)
           | (Inr creds, w) \<Rightarrow>
               Inr (\<lparr>st_auth = U, st_adapter = A, st_l2 = l2, st_lock = choose_lock rawClient randomUUID l2, st_creds = creds,
                      st_batcher = wb_new, st_sessionManager = sm_new (ao_sessionId opts) A l2 (ao_concurrency opts) (ao_retention opts),
                      st_retentionTimer = fa_timer_interval (ao_retention opts)\<rparr>, w)))"

section \<open>What a start relies on\<close>

text \<open>\<open>init\<close> creates what is missing and changes no row; subscribing to the channel leaves the cached values alone.\<close>

definition init_ok :: "('d \<Rightarrow> db_view) \<Rightarrow> ('d \<Rightarrow> bool) \<Rightarrow> ('d \<Rightarrow> bool) \<Rightarrow> 'd adapter \<Rightarrow> bool" where
  "init_ok view ivr up A \<longleftrightarrow> (\<forall>d. ivr d \<longrightarrow> query_ok view ivr up (ad_init A) d (\<lambda>_. True))"

definition subscribe_ok :: "('r \<Rightarrow> string \<rightharpoonup> jstr \<times> int) \<Rightarrow> ('r \<Rightarrow> bool) \<Rightarrow> 'r redis_cache option \<Rightarrow> bool" where
  "subscribe_ok l2v rup l2 \<longleftrightarrow> (\<forall>R p c. l2 = Some R \<longrightarrow> rc_subscribeInvalidation R = Some p \<longrightarrow>
     l2v (snd (p c)) \<subseteq>\<^sub>m l2v c \<and> (rup c \<longrightarrow> rup (snd (p c))))"

text \<open>Redis, as a process finds it, agrees with the database.\<close>

definition redis_agrees ::
  "('d \<Rightarrow> db_view) \<Rightarrow> (string \<Rightarrow> bool) \<Rightarrow> (string \<Rightarrow> bool) \<Rightarrow> ('r \<Rightarrow> string \<rightharpoonup> jstr \<times> int) \<Rightarrow> 'r redis_cache option \<Rightarrow> 'r \<Rightarrow> 'd \<Rightarrow> bool" where
  "redis_agrees view lsid lkey l2v l2 r d \<longleftrightarrow>
     (l2 \<noteq> None \<longrightarrow> agree lsid lkey {} (\<lambda>ck. map_option fst (l2v r ck)) (value_at (view d)))"

lemma coherent_agrees: "coherent view ivr lsid lkey l2v l2 X {} w \<Longrightarrow> redis_agrees view lsid lkey l2v l2 (w_l2 w) (w_db w)"
  by (simp add: coherent_def redis_agrees_def l2_map_def [abs_def])

lemma choose_lock_ok:
  assumes "\<And>R C. l2 = Some R \<Longrightarrow> rawClient R = Some C \<Longrightarrow> inert_client l2v rup C"
  shows "auth_lock (choose_lock rawClient randomUUID l2) l2v rup"
proof (cases "Option.bind l2 rawClient")
  case None
  then show ?thesis by (simp add: choose_lock_def local_lock)
next
  case (Some C)
  then obtain R where "l2 = Some R" "rawClient R = Some C" by (auto simp: bind_eq_Some_conv)
  with redis_lock [OF assms] Some show ?thesis by (simp add: choose_lock_def)
qed

section \<open>A new world\<close>

lemma cm_new_fields:
  "w_db (cm_new opts now r d) = d" "w_now (cm_new opts now r d) = now" "mc_store (w_l1 (cm_new opts now r d)) = []" "mc_wf (w_l1 (cm_new opts now r d))"
  by (simp_all add: cm_new_def Let_def mc_wf_new split: option.split)

lemma cm_new_redis:
  assumes "subscribe_ok l2v rup (Option.bind opts co_redis)"
  shows "l2v (w_l2 (cm_new opts now r d)) \<subseteq>\<^sub>m l2v r" and "rup r \<Longrightarrow> rup (w_l2 (cm_new opts now r d))"
  using assms by (auto simp: cm_new_def Let_def subscribe_ok_def split: option.split)

lemma cm_new_coherent:
  assumes "subscribe_ok l2v rup l2" and "l2 = Option.bind opts co_redis" and "ivr d" and "redis_agrees view lsid lkey l2v l2 r d"
  shows "coherent view ivr lsid lkey l2v l2 {} {} (cm_new opts now r d)"
proof -
  have l1: "l1_map (cm_new opts now r d) = Map.empty" by (simp add: l1_map_def fun_eq_iff cm_new_fields)
  have "agree lsid lkey {} (l2_map l2v (cm_new opts now r d)) (value_at (view d))" if "l2 \<noteq> None"
  proof (rule agree_le)
    show "agree lsid lkey {} (\<lambda>ck. map_option fst (l2v r ck)) (value_at (view d))" using assms(4) that by (simp add: redis_agrees_def)
    have "l2v (w_l2 (cm_new opts now r d)) \<subseteq>\<^sub>m l2v r" by (rule cm_new_redis(1)) (use assms(1,2) in simp)
    then show "l2_map l2v (cm_new opts now r d) \<subseteq>\<^sub>m (\<lambda>ck. map_option fst (l2v r ck))"
      by (fastforce simp: l2_map_def map_le_def dom_def)
  qed
  with assms(3) l1 show ?thesis by (simp add: coherent_def cm_new_fields agree_def)
qed

section \<open>Properties\<close>

lemma auth_of_fields [simp]: "au_sessionId (auth_of opts codec) = ao_sessionId opts" "au_codec (auth_of opts codec) = codec"
  by (simp_all add: auth_of_def)

lemma timer_interval_set:
  "fa_timer_interval q \<noteq> None \<longleftrightarrow> (\<exists>k n. q = Some k \<and> kr_enabled k \<and> kr_autoRunIntervalMs k = Some n \<and> n \<noteq> 0)"
  by (auto simp: fa_timer_interval_def split: option.split)

text \<open>C13. A start is right: when \<open>useHybridAuthState\<close> returns, no row has changed, the new caches are coherent with the
  database, the batcher is idle, and the credentials are the stored ones, decrypted, or fresh ones when none are stored; it
  does return whenever the database is up and what is stored decodes, whatever Redis does; the retention timer
  runs exactly when retention is enabled with an interval other than 0.\<close>

theorem auth_state_starts:
  assumes "cache_stack (ao_adapter opts) view ivr up lsid lkey (redis_of opts) l2v rup"
    and "init_ok view ivr up (ao_adapter opts)" and "subscribe_ok l2v rup (redis_of opts)"
    and "ivr d" and "redis_agrees view lsid lkey l2v (redis_of opts) r d" and "lsid (ao_sessionId opts)" and "lkey CREDS_KEY"
  shows "case useHybridAuthState opts codec rawClient randomUUID now r d of
      Inr (S, w) \<Rightarrow>
        view (w_db w) = view d \<and> coherent view ivr lsid lkey l2v (redis_of opts) {} {} w \<and> idle (st_batcher S) \<and>
        (case truthy_str (value_at (view d) (ao_sessionId opts) CREDS_KEY) of
           None \<Rightarrow> st_creds S = cd_initAuthCreds codec
         | Some s \<Rightarrow> fa_decode (auth_of opts codec) s = Inr (st_creds S)) \<and>
        (st_retentionTimer S \<noteq> None \<longleftrightarrow>
          (\<exists>k n. ao_retention opts = Some k \<and> kr_enabled k \<and> kr_autoRunIntervalMs k = Some n \<and> n \<noteq> 0))
    | Inl (e, r', d') \<Rightarrow>
        view d' = view d \<and>
        \<not> (up d \<and> (case truthy_str (value_at (view d) (ao_sessionId opts) CREDS_KEY) of
                     None \<Rightarrow> True | Some s \<Rightarrow> \<exists>v. fa_decode (auth_of opts codec) s = Inr v))"
proof -
  let ?A = "ao_adapter opts" and ?l2 = "redis_of opts" and ?U = "auth_of opts codec" and ?s = "ao_sessionId opts"
  obtain i d1 where i: "ad_init ?A d = (i, d1)" by fastforce
  from assms(2,4) have q: "query_ok view ivr up (ad_init ?A) d (\<lambda>_. True)" by (simp add: init_ok_def)
  note qd = query_okD [OF q i]
  have upi: "up d \<Longrightarrow> (\<exists>u. i = Inr u) \<and> up d1" using query_ok_up [OF q] i by auto
  show ?thesis
  proof (cases i)
    case (Inl e)
    with i qd(2) upi show ?thesis by (auto simp: useHybridAuthState_def Let_def)
  next
    case (Inr u)
    let ?w = "cm_new (ao_cache opts) now r d1"
    have c: "coherent view ivr lsid lkey l2v ?l2 {} {} ?w"
      by (rule cm_new_coherent [OF assms(3)]) (use qd(1,2) assms(5) in \<open>simp_all add: redis_of_def redis_agrees_def\<close>)
    obtain g w where g: "cm_get ?A ?l2 ?s CREDS_KEY ?w = (g, w)" by fastforce
    from cache_stack.get_reads [OF assms(1) c assms(6,7)] g have r: "coherent view ivr lsid lkey l2v ?l2 {} {} w"
      "view (w_db w) = view d" "\<And>x. g = Inr x \<Longrightarrow> x = value_at (view d) ?s CREDS_KEY" "up d \<Longrightarrow> \<exists>x. g = Inr x"
      using qd(2) upi by (auto simp: cache_stack.reads_ok_def [OF assms(1)] cm_new_fields)
    have idle: "idle wb_new" by (simp add: idle_def wb_new_def)
    show ?thesis
    proof (cases g)
      case (Inl e)
      with i Inr g r(2,4) show ?thesis by (auto simp: useHybridAuthState_def Let_def fa_loadCreds_def bindA_def)
    next
      case x: (Inr x)
      with r(3) have xv: "x = value_at (view d) ?s CREDS_KEY" by simp
      show ?thesis
      proof (cases "truthy_str x")
        case None
        with i Inr g x r(1,2) xv timer_interval_set [of "ao_retention opts"] idle show ?thesis
          by (simp add: useHybridAuthState_def Let_def fa_loadCreds_def bindA_def)
      next
        case (Some t)
        with i Inr g x r(1,2) xv timer_interval_set [of "ao_retention opts"] idle show ?thesis
          by (cases "fa_decode ?U t") (simp_all add: useHybridAuthState_def Let_def fa_loadCreds_def bindA_def)
      qed
    qed
  qed
qed

text \<open>C2. Credentials survive a restart: when \<open>saveCreds\<close> settles without an error, a new process with the same
  options, the same database and Redis and nothing else starts, and its credentials are exactly the saved ones, for every debounce
  setting, with encryption on or off, with the local lock or the Redis lock. The caches are coherent and the batcher is
  idle when \<open>saveCreds\<close> is called, Redis is absent or up then, and the database is up when the new process starts.\<close>

theorem saved_creds_survive_restart:
  assumes "cache_stack (ao_adapter opts) view ivr up lsid lkey (redis_of opts) l2v rup"
    and "\<forall>R C. redis_of opts = Some R \<longrightarrow> rawClient R = Some C \<longrightarrow> inert_client l2v rup C"
    and "init_ok view ivr up (ao_adapter opts)" and "subscribe_ok l2v rup (redis_of opts)"
    and "lsid (ao_sessionId opts)" and "lkey CREDS_KEY" and "codec_ok (auth_of opts codec)" and "length iv = 12"
    and "coherent view ivr lsid lkey l2v (redis_of opts) {} {} w" and "redis_of opts = None \<or> rup (w_l2 w)"
    and "idle b" and "c \<notin> set (b_resolved b)" and "c \<notin> set (b_rejected b)"
    and "fa_saveCreds (auth_of opts codec) (ao_adapter opts) (redis_of opts) (choose_lock rawClient randomUUID (redis_of opts))
      iv c c' creds b w = (Settled (Inr ()), b', w')" and "up (w_db w')"
  shows "\<exists>S w''. useHybridAuthState opts codec rawClient randomUUID now (w_l2 w') (w_db w') = Inr (S, w'') \<and> st_creds S = creds \<and>
    coherent view ivr lsid lkey l2v (redis_of opts) {} {} w''"
proof -
  let ?U = "auth_of opts codec"
  have sid: "au_sessionId ?U = ao_sessionId opts" by (simp add: auth_of_def)
  have lock: "auth_lock (choose_lock rawClient randomUUID (redis_of opts)) l2v rup" by (rule choose_lock_ok) (use assms(2) in blast)
  have stack: "auth_stack (ao_adapter opts) view ivr up lsid lkey (redis_of opts) l2v rup (choose_lock rawClient randomUUID (redis_of opts))"
    by (rule auth_stack.intro [OF assms(1) lock])
  have ls: "lsid (au_sessionId ?U)" using assms(5) by (simp add: sid)
  from saveCreds_stored [OF stack assms(9) ls assms(6,10,7,8,11-14)] obtain s where
    s: "value_at (view (w_db w')) (au_sessionId ?U) CREDS_KEY = Some s" "s \<noteq> []" "fa_decode ?U s = Inr creds"
    and c1: "coherent view ivr lsid lkey l2v (redis_of opts) {} {} w'" .
  have "ivr (w_db w')" using c1 by (simp add: coherent_def)
  from auth_state_starts [OF assms(1,3,4) this coherent_agrees [OF c1] assms(5,6), of codec rawClient randomUUID now] s assms(15)
  show ?thesis by (auto simp: truthy_str_def sid split: sum.splits)
qed

text \<open>C36. On D1 nothing starts. The table is created with \<open>exec\<close>, which executes each line of its text as a query of
  its own, and the first line of the adapter's text is an incomplete statement: \<open>init\<close> throws, after all its retries, for every
  retry setting, and so does \<open>useHybridAuthState\<close>, for all options; no row has changed and no cache has been touched.\<close>

theorem d1_start_rejected:
  assumes "d1_exec exec query tbl" and "ao_adapter opts = d1_adapter ropts run exec"
  shows "\<exists>e d'. ad_init (ao_adapter opts) d = (Inl e, d') \<and> useHybridAuthState opts codec rawClient randomUUID now r d = Inl (e, r, d') \<and>
    tbl d' = tbl d"
proof -
  from d1_exec.init_rejected [OF assms(1), of ropts d] obtain e d' where "ad_init (ao_adapter opts) d = (Inl e, d')" "tbl d' = tbl d"
    by (auto simp: assms(2) d1_adapter_def)
  then show ?thesis by (simp add: useHybridAuthState_def Let_def)
qed

section \<open>The properties at work\<close>

text \<open>The sample start is over D1 with an \<open>exec\<close> that takes the text of \<open>init\<close> as one statement (\<open>mem_exec\<close>); with
  the \<open>exec\<close> the service documents there is no start (\<open>d1_start_rejected\<close>).\<close>

lemma d1_init_ok:
  assumes "sql_client sqlite_dialect lsid lkey run tbl up" and "may_retry opts"
    and "exec d1_schema = thenA (run [(CreateTable, [])]) (ret ())"
  shows "init_ok (store_view sqlite_dialect lsid lkey tbl) (store_ok lsid lkey tbl) up (d1_adapter opts run exec)"
  unfolding init_ok_def
proof (intro allI impI)
  fix d assume d: "store_ok lsid lkey tbl d"
  have "ad_init (d1_adapter opts run exec) = bindA (base_withRetry ''cloudflare-d1'' opts (run [(CreateTable, [])]) ''init'') (\<lambda>_. ret ())"
    unfolding d1_adapter_def d1_init_def d1_withRetry_def thenA_def assms(3)
    using base_retry_map [of "''cloudflare-d1''" opts "run [(CreateTable, [])]" "\<lambda>_. ()" "''init''" "\<lambda>_. ()"] by simp
  then show "query_ok (store_view sqlite_dialect lsid lkey tbl) (store_ok lsid lkey tbl) up (ad_init (d1_adapter opts run exec)) d (\<lambda>_. True)"
    by (simp only:) (rule sql_adapter.retried_query [OF d1_is_sql_adapter [OF assms(1,2)], where Q = "\<lambda>_ _. True"],
      rule sql_client.run_query [OF assms(1)], auto intro: d)
qed

lemma mem_init_ok: "init_ok mem_view mem_ok mem_up mem_adapter"
  unfolding mem_adapter_def
  by (rule d1_init_ok [OF mem_client may_retry_None]) (rule id_names, simp_all add: sqlite_dialect_def mem_exec_def)

definition sample_options :: "(mem_server, mem_kv) auth_options" where
  "sample_options = \<lparr>ao_sessionId = ''bot'', ao_adapter = mem_adapter,
     ao_cache = Some \<lparr>co_memoryTtlMs = None, co_memoryMaxEntries = None, co_memoryMaxBytes = None, co_redis = mem_http\<rparr>,
     ao_encryption = None, ao_retry = None, ao_writeDebounceMs = None, ao_concurrency = None, ao_retention = None\<rparr>"

lemma sample_fields: "ao_adapter sample_options = mem_adapter" "redis_of sample_options = mem_http" "ao_sessionId sample_options = ''bot''"
  "auth_of sample_options bool_codec = sample_auth"
  by (simp_all add: sample_options_def redis_of_def auth_of_def sample_auth_def)

lemma http_subscribe_ok: "subscribe_ok l2v rup (Some (http_redis C))"
  by (simp add: subscribe_ok_def http_redis_def)

lemma sample_stack: "cache_stack (ao_adapter sample_options) mem_view mem_ok mem_up colon_free any_name (redis_of sample_options) mem_kv.l2h mem_kv.uph"
  unfolding sample_fields by (rule mem_stack.cache_stack_axioms)

lemma sample_start_ok:
  "init_ok mem_view mem_ok mem_up (ao_adapter sample_options)" "subscribe_ok mem_kv.l2h mem_kv.uph (redis_of sample_options)"
  "colon_free (ao_sessionId sample_options)"
  unfolding sample_fields by (rule mem_init_ok) (simp_all add: http_subscribe_ok colon_free_def)

theorem auth_state_starts_witness:
  "\<exists>S w. useHybridAuthState sample_options bool_codec (\<lambda>_. None) (\<lambda>_. ''token'') 10 \<lparr>mk_store = [], mk_fails = []\<rparr> \<lparr>ms_rows = [], ms_faults = []\<rparr> =
     Inr (S, w) \<and> st_creds S = False \<and> st_retentionTimer S = None"
proof -
  let ?r = "\<lparr>mk_store = [], mk_fails = []\<rparr> :: mem_kv" and ?d = "\<lparr>ms_rows = [], ms_faults = []\<rparr> :: mem_server"
  have ok: "mem_ok ?d" "mem_up ?d" by (simp_all add: store_ok_def table_ok_def mem_up_def)
  have agrees: "redis_agrees mem_view colon_free any_name mem_kv.l2h (redis_of sample_options) ?r ?d"
    by (simp add: redis_agrees_def agree_def mem_kv.l2h_def payloads_def)
  have none: "value_at (mem_view ?d) s k = None" for s k by (simp add: value_at_def store_view_def row_view_def)
  have "ao_retention sample_options = None" by (simp add: sample_options_def)
  with auth_state_starts [OF sample_stack sample_start_ok(1,2) ok(1) agrees sample_start_ok(3) TrueI,
      of bool_codec "\<lambda>_. None" "\<lambda>_. ''token''" 10] none ok(2)
  show ?thesis by (auto simp: truthy_str_def bool_codec_def split: sum.splits)
qed

theorem saved_creds_survive_restart_witness:
  "\<exists>w' S w''. snd (snd (fa_saveCreds sample_auth mem_adapter mem_http local_lock (replicate 12 0) 0 1 True wb_new mem_world)) = w' \<and>
     useHybridAuthState sample_options bool_codec (\<lambda>_. None) (\<lambda>_. ''token'') 20 (w_l2 w') (w_db w') = Inr (S, w'') \<and> st_creds S = True"
proof -
  from sample_flush obtain w' where f: "fa_flush mem_adapter mem_http local_lock (au_sessionId sample_auth) [(CREDS_KEY, lit ''true'')] mem_world = (Inr (), w')"
    and up: "mem_up (w_db w')" unfolding sample_session by blast
  have idle: "idle wb_new" "0 \<notin> set (b_resolved wb_new)" "0 \<notin> set (b_rejected wb_new)" by (simp_all add: idle_def wb_new_def)
  let ?run = "fa_saveCreds sample_auth mem_adapter mem_http local_lock (replicate 12 0) 0 1 True wb_new mem_world"
  from saveCreds_runs [OF idle sample_encode(1) f, where c' = 1]
  have "fst ?run = Settled (Inr ())" "snd (snd ?run) = w'" by simp_all
  then have run: "?run = (Settled (Inr ()), fst (snd ?run), w')" by (metis prod.collapse)
  have lock: "choose_lock (\<lambda>_. None) (\<lambda>_. ''token'') mem_http = local_lock" by (simp add: choose_lock_def)
  have codec: "codec_ok (auth_of sample_options bool_codec)" unfolding sample_fields by (rule sample_codec)
  have coh: "coherent mem_view mem_ok colon_free any_name mem_kv.l2h (redis_of sample_options) {} {} mem_world"
    unfolding sample_fields by (rule mem_world_coherent)
  have raw: "\<forall>R C. redis_of sample_options = Some R \<longrightarrow> (\<lambda>_. None) R = Some C \<longrightarrow> inert_client mem_kv.l2h mem_kv.uph C" by simp
  have works: "redis_of sample_options = None \<or> mem_kv.uph (w_l2 mem_world)" using sample_session(3) by simp
  from run have "fa_saveCreds (auth_of sample_options bool_codec) (ao_adapter sample_options) (redis_of sample_options)
      (choose_lock (\<lambda>_. None) (\<lambda>_. ''token'') (redis_of sample_options)) (replicate 12 0) 0 1 True wb_new mem_world = (Settled (Inr ()), fst (snd ?run), w')"
    unfolding sample_fields lock .
  from saved_creds_survive_restart [OF sample_stack raw sample_start_ok TrueI codec _ coh works idle this up, of 20] run
  show ?thesis by (metis length_replicate snd_conv)
qed

text \<open>The sample options over a D1 binding whose \<open>exec\<close> works as documented.\<close>

definition d1_options :: "(mem_server, mem_kv) auth_options" where
  "d1_options = sample_options\<lparr>ao_adapter := d1_adapter None (mem_run sqlite_dialect) mem_exec_lines\<rparr>"

theorem d1_start_rejected_witness:
  "\<exists>e d'. useHybridAuthState d1_options bool_codec (\<lambda>_. None) (\<lambda>_. ''token'') 10 \<lparr>mk_store = [], mk_fails = []\<rparr> \<lparr>ms_rows = [], ms_faults = []\<rparr> =
     Inl (e, \<lparr>mk_store = [], mk_fails = []\<rparr>, d')"
proof -
  have "ao_adapter d1_options = d1_adapter None (mem_run sqlite_dialect) mem_exec_lines" by (simp add: d1_options_def)
  from d1_start_rejected [OF mem_d1_exec.d1_exec_axioms this] show ?thesis by blast
qed

end
