(* ===== verification/CacheRaces.thy ===== *)
theory CacheRaces
  imports CacheCoherence
begin

text \<open>
  \<^verbatim>\<open>src/cache/cache-manager.ts\<close> when reads and writes overlap. A read that the database or Redis has answered
  still has to put the answer into the caches, and a write the database has stored still has to tell them; between
  the two, other operations run. Here these halves are the steps of a transition system over the world of
  \<^verbatim>\<open>CacheManager\<close>: \<open>reads\<close> are the answers on their way to the caches, \<open>notes\<close> the stored writes the caches have not
  heard of. An update of L1 with the update of Redis that follows it is one step.

  The ghost field \<open>dirty\<close> collects the keys on which operations have raced: a write, or a write whose call threw, while an
  answer or a note for the same key was on its way, and an answer of Redis while a note was.
\<close>

datatype late_read = FromL2 string string jstr int | FromDb string string session_record

datatype notice = Wrote string string jstr | Deleted string string

record ('d, 'r) race =
  ra_world :: "('d, 'r) world"
  ra_reads :: "late_read list"
  ra_notes :: "notice list"
  ra_dirty :: "(string \<times> string) set"

fun read_key :: "late_read \<Rightarrow> string \<times> string" where
  "read_key (FromL2 s k v n) = (s, k)"
| "read_key (FromDb s k r) = (s, k)"

fun read_value :: "late_read \<Rightarrow> jstr" where
  "read_value (FromL2 s k v n) = v"
| "read_value (FromDb s k r) = sr_value r"

fun note_key :: "notice \<Rightarrow> string \<times> string" where
  "note_key (Wrote s k v) = (s, k)"
| "note_key (Deleted s k) = (s, k)"

definition noted :: "('d, 'r) race \<Rightarrow> (string \<times> string) set" where
  "noted q = note_key ` set (ra_notes q)"

definition busy :: "('d, 'r) race \<Rightarrow> (string \<times> string) set" where
  "busy q = read_key ` set (ra_reads q) \<union> noted q"

section \<open>The halves of the operations\<close>

definition ra_lookup :: "string \<Rightarrow> ('d, 'r) race \<Rightarrow> ('d, 'r) race" where
  "ra_lookup ck q = q\<lparr>ra_world := snd (l1_get ck (ra_world q))\<rparr>"

text \<open>The two reads of \<open>get\<close> behind an L1 miss, up to the answer.\<close>

definition ra_fetch :: "'r redis_cache option \<Rightarrow> string \<Rightarrow> string \<Rightarrow> ('d, 'r) race \<Rightarrow> ('d, 'r) race" where
  "ra_fetch l2 s k q = (case safeL2Get l2 (cacheKey s k) (ra_world q) of
     (Some (v, n), w) \<Rightarrow> q\<lparr>ra_world := w, ra_reads := ra_reads q @ [FromL2 s k v n],
       ra_dirty := (if (s, k) \<in> noted q then insert (s, k) (ra_dirty q) else ra_dirty q)\<rparr>
   | (None, w) \<Rightarrow> q\<lparr>ra_world := w\<rparr>)"

definition ra_query :: "'d adapter \<Rightarrow> string \<Rightarrow> string \<Rightarrow> ('d, 'r) race \<Rightarrow> ('d, 'r) race" where
  "ra_query A s k q = (case on_db (ad_get A s k) (ra_world q) of
     (Inr (Some r), w) \<Rightarrow> q\<lparr>ra_world := w, ra_reads := ra_reads q @ [FromDb s k r]\<rparr>
   | (_, w) \<Rightarrow> q\<lparr>ra_world := w\<rparr>)"

text \<open>The rest of \<open>get\<close>.\<close>

fun late_fill :: "'r redis_cache option \<Rightarrow> late_read \<Rightarrow> ('d, 'r) world \<Rightarrow> ('d, 'r) world" where
  "late_fill l2 (FromL2 s k v n) w = l1_set (cacheKey s k) v n w"
| "late_fill l2 (FromDb s k r) w = cm_fill l2 s k r w"

definition ra_fill :: "'r redis_cache option \<Rightarrow> late_read \<Rightarrow> ('d, 'r) race \<Rightarrow> ('d, 'r) race" where
  "ra_fill l2 l q = q\<lparr>ra_world := late_fill l2 l (ra_world q), ra_reads := remove1 l (ra_reads q)\<rparr>"

text \<open>A batch reaches the database; \<open>onWritten\<close> and \<open>onDeleted\<close> follow, one key at a time.\<close>

definition ra_write :: "'d adapter \<Rightarrow> string \<Rightarrow> (string \<times> jstr) list \<Rightarrow> ('d, 'r) race \<Rightarrow> ('d, 'r) race" where
  "ra_write A s es q = (case on_db (ad_setMany A s es (w_now (ra_world q))) (ra_world q) of
     (Inr _, w) \<Rightarrow> q\<lparr>ra_world := w, ra_notes := ra_notes q @ map (\<lambda>(k, v). Wrote s k v) es,
       ra_dirty := ra_dirty q \<union> (busy q \<inter> Pair s ` fst ` set es)\<rparr>
   | (Inl _, w) \<Rightarrow> q\<lparr>ra_world := w, ra_dirty := ra_dirty q \<union> Pair s ` fst ` set es\<rparr>)"

definition ra_delete :: "'d adapter \<Rightarrow> string \<Rightarrow> string list \<Rightarrow> ('d, 'r) race \<Rightarrow> ('d, 'r) race" where
  "ra_delete A s ks q = (case on_db (ad_deleteMany A s ks) (ra_world q) of
     (Inr _, w) \<Rightarrow> q\<lparr>ra_world := w, ra_notes := ra_notes q @ map (Deleted s) ks,
       ra_dirty := ra_dirty q \<union> (busy q \<inter> Pair s ` set ks)\<rparr>
   | (Inl _, w) \<Rightarrow> q\<lparr>ra_world := w, ra_dirty := ra_dirty q \<union> Pair s ` set ks\<rparr>)"

fun tell :: "'r redis_cache option \<Rightarrow> notice \<Rightarrow> ('d, 'r) world \<Rightarrow> ('d, 'r) world" where
  "tell l2 (Wrote s k v) w = cm_onWritten l2 s k v (w_now w) w"
| "tell l2 (Deleted s k) w = cm_onDeleted l2 s k w"

definition ra_tell :: "'r redis_cache option \<Rightarrow> notice \<Rightarrow> ('d, 'r) race \<Rightarrow> ('d, 'r) race" where
  "ra_tell l2 n q = q\<lparr>ra_world := tell l2 n (ra_world q), ra_notes := remove1 n (ra_notes q)\<rparr>"

text \<open>An invalidation message, or the version check of HTTP mode, drops an L1 entry.\<close>

definition ra_drop :: "string \<Rightarrow> ('d, 'r) race \<Rightarrow> ('d, 'r) race" where
  "ra_drop ck q = q\<lparr>ra_world := l1_delete ck (ra_world q)\<rparr>"

definition ra_tick :: "int \<Rightarrow> ('d, 'r) race \<Rightarrow> ('d, 'r) race" where
  "ra_tick t q = q\<lparr>ra_world := (ra_world q)\<lparr>w_now := t\<rparr>\<rparr>"

definition ra_start :: "('d, 'r) world \<Rightarrow> ('d, 'r) race" where
  "ra_start w = \<lparr>ra_world = w, ra_reads = [], ra_notes = [], ra_dirty = {}\<rparr>"

inductive race_step ::
  "'d adapter \<Rightarrow> 'r redis_cache option \<Rightarrow> (string \<Rightarrow> bool) \<Rightarrow> (string \<Rightarrow> bool) \<Rightarrow> ('d, 'r) race \<Rightarrow> ('d, 'r) race \<Rightarrow> bool"
  for A :: "'d adapter" and l2 :: "'r redis_cache option" and lsid :: "string \<Rightarrow> bool" and lkey :: "string \<Rightarrow> bool" where
  lookup: "race_step A l2 lsid lkey q (ra_lookup ck q)"
| fetch: "lsid s \<Longrightarrow> lkey k \<Longrightarrow> race_step A l2 lsid lkey q (ra_fetch l2 s k q)"
| query: "lsid s \<Longrightarrow> lkey k \<Longrightarrow> race_step A l2 lsid lkey q (ra_query A s k q)"
| fill: "l \<in> set (ra_reads q) \<Longrightarrow> race_step A l2 lsid lkey q (ra_fill l2 l q)"
| wrote: "lsid s \<Longrightarrow> \<forall>e \<in> set es. lkey (fst e) \<Longrightarrow> distinct (keys_of es) \<Longrightarrow> race_step A l2 lsid lkey q (ra_write A s es q)"
| delete: "lsid s \<Longrightarrow> \<forall>k \<in> set ks. lkey k \<Longrightarrow> race_step A l2 lsid lkey q (ra_delete A s ks q)"
| told: "n \<in> set (ra_notes q) \<Longrightarrow> race_step A l2 lsid lkey q (ra_tell l2 n q)"
| drop: "lsid s \<Longrightarrow> lkey k \<Longrightarrow> race_step A l2 lsid lkey q (ra_drop (cacheKey s k) q)"
| tick: "race_step A l2 lsid lkey q (ra_tick t q)"

section \<open>Coherence away from the keys in play\<close>

lemma agree_any: "agree lsid lkey X m ref \<Longrightarrow> (s, k) \<in> X \<Longrightarrow> (\<And>s. lsid s \<Longrightarrow> CHR '':'' \<notin> set s) \<Longrightarrow> lsid s \<Longrightarrow>
    m' \<subseteq>\<^sub>m m(cacheKey s k \<mapsto> v) \<Longrightarrow> agree lsid lkey X m' ref"
  by (rule agree_le [of _ _ _ "m(cacheKey s k \<mapsto> v)"]) (auto simp: agree_def cacheKey_inject split: if_splits)

context cache_stack begin

text \<open>What is written into a cache for an exceptional key does not matter.\<close>

lemma l1_set_any:
  assumes "coh X1 X2 w" and "lsid s" and "(s, k) \<in> X1"
  shows "coh X1 X2 (l1_set (cacheKey s k) v n w)"
proof (rule cohI)
  note d = cohD [OF assms(1)]
  show "agr X1 (l1_map (l1_set (cacheKey s k) v n w)) (stored_value (l1_set (cacheKey s k) v n w))"
    using agree_any [OF d(3) assms(3) no_colon assms(2) l1_set_map [OF d(2)]] by simp
  have "l2_map l2v (l1_set (cacheKey s k) v n w) = l2_map l2v w" by (simp add: l2_map_def fun_eq_iff)
  then show "agr X2 (l2_map l2v (l1_set (cacheKey s k) v n w)) (stored_value (l1_set (cacheKey s k) v n w))" if "l2 \<noteq> None"
    using d(4) that by auto
qed (use cohD [OF assms(1)] in simp_all)

lemma safeL2Set_any:
  assumes "coh X1 X2 w" and "lsid s" and "(s, k) \<in> X2"
  shows "coh X1 X2 (safeL2Set l2 (cacheKey s k) v n w)"
proof (cases l2)
  case None
  with assms(1) show ?thesis by (simp add: safeL2Set_def)
next
  case (Some R)
  let ?w = "safeL2Set l2 (cacheKey s k) v n w"
  obtain r c1 where set: "rc_set R (cacheKey s k) v n None (w_l2 w) = (r, c1)" by fastforce
  with Some have w2: "w_l2 ?w = c1" by (simp add: safeL2Set_def)
  from redis_store.rset [OF l2_store [OF Some] set]
  have "l2v c1 \<subseteq>\<^sub>m l2v (w_l2 w) \<or> l2v c1 \<subseteq>\<^sub>m (l2v (w_l2 w))(cacheKey s k \<mapsto> (v, n))" by (auto split: sum.splits)
  then have "l2_map l2v ?w \<subseteq>\<^sub>m l2_map l2v w \<or> l2_map l2v ?w \<subseteq>\<^sub>m (l2_map l2v w)(cacheKey s k \<mapsto> v)"
    unfolding w2 [symmetric] by (fastforce simp: l2_map_def map_le_def dom_def split: if_splits)
  then have "agr X2 (l2_map l2v ?w) (stored_value w)"
    using agree_le [OF cohD(4) [OF assms(1) Some]] agree_any [OF cohD(4) [OF assms(1) Some] assms(3) no_colon assms(2)] by blast
  with assms(1) show ?thesis by (auto simp: coherent_def l1_map_cong [of ?w w])
qed

lemma safeL2Set_works: "l2_works w \<Longrightarrow> l2_works (safeL2Set l2 ck v n w)"
proof (cases l2)
  case (Some R)
  assume "l2_works w"
  with Some redis_store.rset_up [OF l2_store [OF Some]] obtain c1 where "rc_set R ck v n None (w_l2 w) = (Inr (), c1)" "rup c1" by blast
  with Some show ?thesis by (simp add: safeL2Set_def)
qed simp

lemma safeL2Get_works: "safeL2Get l2 ck w = (h, w') \<Longrightarrow> l2_works w \<Longrightarrow> l2_works w'"
proof (cases l2)
  case (Some R)
  assume g: "safeL2Get l2 ck w = (h, w')" and "l2_works w"
  with Some redis_store.rget_up [OF l2_store [OF Some]] obtain x c where "rc_get R ck (w_l2 w) = (Inr x, c)" "rup c" by blast
  with g Some show ?thesis by (auto simp: safeL2Get_def)
qed simp

lemma onWritten_any:
  assumes "coh X X w" and "lsid s" and "(s, k) \<in> X" and "l2_works w"
  shows "coh X X (cm_onWritten l2 s k v n w) \<and> l2_works (cm_onWritten l2 s k v n w)"
proof -
  let ?w = "safeL2Set l2 (cacheKey s k) v n (l1_set (cacheKey s k) v n w)"
  have c: "coh X X ?w" by (rule safeL2Set_any [OF l1_set_any [OF assms(1-3)] assms(2,3)])
  have u: "l2_works ?w" by (rule safeL2Set_works) (use assms(4) in simp)
  show ?thesis
  proof (cases "publisher l2")
    case None
    with c u show ?thesis by (simp add: cm_onWritten_def Let_def)
  next
    case (Some p)
    have "l2 \<noteq> None" using publisher_some [OF Some] by auto
    with u publish_coh [OF c Some] Some show ?thesis by (simp add: cm_onWritten_def Let_def)
  qed
qed

text \<open>The invariant: coherent except where a note is due or operations have raced; answers under way and notes carry
  the stored value, except where operations have raced.\<close>

definition race_ok :: "('d, 'r) race \<Rightarrow> bool" where
  "race_ok q \<longleftrightarrow> coh (noted q \<union> ra_dirty q) (noted q \<union> ra_dirty q) (ra_world q) \<and> l2_works (ra_world q) \<and>
     (\<forall>x \<in> busy q. lsid (fst x) \<and> lkey (snd x)) \<and>
     (\<forall>l \<in> set (ra_reads q). read_key l \<notin> ra_dirty q \<longrightarrow>
        stored_value (ra_world q) (fst (read_key l)) (snd (read_key l)) = Some (read_value l)) \<and>
     (\<forall>s k v. Wrote s k v \<in> set (ra_notes q) \<longrightarrow> (s, k) \<notin> ra_dirty q \<longrightarrow> stored_value (ra_world q) s k = Some v)"

lemma race_okD:
  assumes "race_ok q"
  shows "coh (noted q \<union> ra_dirty q) (noted q \<union> ra_dirty q) (ra_world q)" and "l2_works (ra_world q)"
    and "l \<in> set (ra_reads q) \<Longrightarrow> lsid (fst (read_key l)) \<and> lkey (snd (read_key l))"
    and "n \<in> set (ra_notes q) \<Longrightarrow> lsid (fst (note_key n)) \<and> lkey (snd (note_key n))"
    and "l \<in> set (ra_reads q) \<Longrightarrow> read_key l \<notin> ra_dirty q \<Longrightarrow>
      stored_value (ra_world q) (fst (read_key l)) (snd (read_key l)) = Some (read_value l)"
    and "Wrote s k v \<in> set (ra_notes q) \<Longrightarrow> (s, k) \<notin> ra_dirty q \<Longrightarrow> stored_value (ra_world q) s k = Some v"
  using assms by (auto simp: race_ok_def busy_def noted_def)

lemma race_okI:
  assumes "coh (noted q \<union> ra_dirty q) (noted q \<union> ra_dirty q) (ra_world q)" and "l2_works (ra_world q)"
    and "\<And>l. l \<in> set (ra_reads q) \<Longrightarrow> lsid (fst (read_key l)) \<and> lkey (snd (read_key l))"
    and "\<And>n. n \<in> set (ra_notes q) \<Longrightarrow> lsid (fst (note_key n)) \<and> lkey (snd (note_key n))"
    and "\<And>l. l \<in> set (ra_reads q) \<Longrightarrow> read_key l \<notin> ra_dirty q \<Longrightarrow>
      stored_value (ra_world q) (fst (read_key l)) (snd (read_key l)) = Some (read_value l)"
    and "\<And>s k v. Wrote s k v \<in> set (ra_notes q) \<Longrightarrow> (s, k) \<notin> ra_dirty q \<Longrightarrow> stored_value (ra_world q) s k = Some v"
  shows "race_ok q"
  using assms unfolding race_ok_def busy_def noted_def by blast

text \<open>A step that leaves the stored values, the answers and the notes alone.\<close>

lemma race_ok_world:
  assumes "race_ok q" and "coh (noted q \<union> ra_dirty q) (noted q \<union> ra_dirty q) w" and "l2_works w" and "view (w_db w) = view (w_db (ra_world q))"
  shows "race_ok (q\<lparr>ra_world := w\<rparr>)"
  using assms by (simp add: race_ok_def noted_def busy_def)

lemma lookup_ok: "race_ok q \<Longrightarrow> race_ok (ra_lookup ck q)"
proof -
  assume q: "race_ok q"
  obtain h w where g: "l1_get ck (ra_world q) = (h, w)" by fastforce
  from l1_get_coh [OF race_okD(1) [OF q] g] race_okD(2) [OF q] show ?thesis
    unfolding ra_lookup_def g snd_conv by (intro race_ok_world [OF q]) simp_all
qed

lemma drop_ok: "race_ok q \<Longrightarrow> lsid s \<Longrightarrow> race_ok (ra_drop (cacheKey s k) q)"
  unfolding ra_drop_def
  by (rule race_ok_world) (use coh_mono [OF l1_delete_coh [OF race_okD(1)] Diff_subset subset_refl] race_okD(2) in auto)

lemma coh_now: "coh X Y (w\<lparr>w_now := t\<rparr>) = coh X Y w"
  by (simp add: coherent_def l1_map_def [abs_def] l2_map_def [abs_def])

lemma tick_ok: "race_ok q \<Longrightarrow> race_ok (ra_tick t q)"
  unfolding ra_tick_def by (rule race_ok_world) (use race_okD(1,2) in \<open>auto simp: coh_now\<close>)

text \<open>Reads.\<close>

lemma fetch_ok:
  assumes "race_ok q" and "lsid s" and "lkey k"
  shows "race_ok (ra_fetch l2 s k q)"
proof -
  obtain h w where g: "safeL2Get l2 (cacheKey s k) (ra_world q) = (h, w)" by fastforce
  note keep = safeL2Get_keep [OF g]
  have c: "coh (noted q \<union> ra_dirty q) (noted q \<union> ra_dirty q) w" by (rule safeL2Get_coh(1) [OF race_okD(1) [OF assms(1)] g])
  have works: "l2_works w" using safeL2Get_works [OF g race_okD(2) [OF assms(1)]] .
  have db: "view (w_db w) = view (w_db (ra_world q))" using keep by simp
  show ?thesis
  proof (cases h)
    case None
    with race_ok_world [OF assms(1) c works db] g show ?thesis by (simp add: ra_fetch_def)
  next
    case (Some x)
    obtain v n where x: "x = (v, n)" by (cases x)
    have "stored_value (ra_world q) s k = Some v" if "(s, k) \<notin> noted q \<union> ra_dirty q"
    proof -
      have hit: "l2_map l2v (ra_world q) (cacheKey s k) = Some v"
        by (rule safeL2Get_coh(2) [OF race_okD(1) [OF assms(1)] g]) (simp add: Some x)
      have "l2 \<noteq> None" using g Some by (cases l2) (simp_all add: safeL2Get_def)
      with race_okD(1) [OF assms(1)] have "agr (noted q \<union> ra_dirty q) (l2_map l2v (ra_world q)) (stored_value (ra_world q))"
        by (simp add: coherent_def)
      with assms(2,3) that hit show ?thesis unfolding agree_def by blast
    qed
    then have stored: "stored_value (ra_world q) s k = Some v" if "(s, k) \<notin> ra_dirty (ra_fetch l2 s k q)"
      using that g Some x by (auto simp: ra_fetch_def split: if_splits)
    let ?D = "if (s, k) \<in> noted q then insert (s, k) (ra_dirty q) else ra_dirty q"
    have eq: "ra_fetch l2 s k q = q\<lparr>ra_world := w, ra_reads := ra_reads q @ [FromL2 s k v n], ra_dirty := ?D\<rparr>"
      using g Some x by (simp add: ra_fetch_def)
    have grow: "noted q \<union> ra_dirty q \<subseteq> noted q \<union> ?D" by auto
    show ?thesis
    proof (rule race_okI)
      show "coh (noted (ra_fetch l2 s k q) \<union> ra_dirty (ra_fetch l2 s k q)) (noted (ra_fetch l2 s k q) \<union> ra_dirty (ra_fetch l2 s k q))
          (ra_world (ra_fetch l2 s k q))"
        using coh_mono [OF c grow grow] by (simp add: eq noted_def)
      show "stored_value (ra_world (ra_fetch l2 s k q)) (fst (read_key l)) (snd (read_key l)) = Some (read_value l)"
        if "l \<in> set (ra_reads (ra_fetch l2 s k q))" "read_key l \<notin> ra_dirty (ra_fetch l2 s k q)" for l
        using that stored db race_okD(5) [OF assms(1), of l] by (auto simp: eq split: if_splits)
      show "stored_value (ra_world (ra_fetch l2 s k q)) s' k' = Some v'"
        if "Wrote s' k' v' \<in> set (ra_notes (ra_fetch l2 s k q))" "(s', k') \<notin> ra_dirty (ra_fetch l2 s k q)" for s' k' v'
        using that db race_okD(6) [OF assms(1), of s' k' v'] by (auto simp: eq split: if_splits)
    qed (use works assms(2,3) race_okD(3,4) [OF assms(1)] in \<open>auto simp: eq\<close>)
  qed
qed

lemma query_step_ok:
  assumes "race_ok q" and "lsid s" and "lkey k"
  shows "race_ok (ra_query A s k q)"
proof -
  let ?w = "ra_world q"
  obtain r w where g: "on_db (ad_get A s k) ?w = (r, w)" by fastforce
  note coh = race_okD(1) [OF assms(1)]
  note d = on_db_query [OF coh get_ok [OF cohD(1) [OF coh] assms(2,3)] g]
  have works: "l2_works w" using race_okD(2) [OF assms(1)] d(3) by (metis world.select_convs(2) world.surjective world.update_convs(3))
  have w: "race_ok (q\<lparr>ra_world := w\<rparr>)" by (rule race_ok_world [OF assms(1) d(1) works d(2)])
  show ?thesis
  proof (cases "\<exists>x. r = Inr (Some x)")
    case False
    then have "ra_query A s k q = q\<lparr>ra_world := w\<rparr>" using g by (auto simp: ra_query_def split: sum.split option.split)
    with w show ?thesis by simp
  next
    case True
    then obtain x where x: "r = Inr (Some x)" by blast
    with d(4) have "view (w_db ?w) s k = Some x" by fastforce
    with d(2) have v: "stored_value w s k = Some (sr_value x)" by (simp add: value_at_def)
    have "ra_query A s k q = q\<lparr>ra_world := w, ra_reads := ra_reads q @ [FromDb s k x]\<rparr>" using g x by (simp add: ra_query_def)
    with w v assms(2,3) show ?thesis by (auto simp: race_ok_def noted_def busy_def)
  qed
qed

lemma fill_step_ok:
  assumes "race_ok q" and "l \<in> set (ra_reads q)"
  shows "race_ok (ra_fill l2 l q)"
proof -
  let ?X = "noted q \<union> ra_dirty q" and ?w = "late_fill l2 l (ra_world q)"
  obtain s k where key: "read_key l = (s, k)" by fastforce
  note coh = race_okD(1) [OF assms(1)] and works = race_okD(2) [OF assms(1)]
  have ls: "lsid s" using race_okD(3) [OF assms] key by simp
  have "coh ?X ?X ?w \<and> l2_works ?w \<and> w_db ?w = w_db (ra_world q)"
  proof (cases l)
    case (FromL2 s' k' v n)
    with key have e: "s' = s" "k' = k" by simp_all
    have "coh ?X ?X ?w"
    proof (cases "(s, k) \<in> ?X")
      case True
      with l1_set_any [OF coh ls True] FromL2 e show ?thesis by simp
    next
      case False
      with race_okD(5) [OF assms] FromL2 e have "stored_value (ra_world q) s k = Some v" by simp
      from l1_set_coh [OF coh ls this] False FromL2 e show ?thesis by simp
    qed
    with works FromL2 show ?thesis by simp
  next
    case (FromDb s' k' r)
    with key have e: "s' = s" "k' = k" by simp_all
    let ?w1 = "l1_set (cacheKey s k) (sr_value r) (sr_version r) (ra_world q)"
    have w: "?w = safeL2Set l2 (cacheKey s k) (sr_value r) (sr_version r) ?w1" using FromDb e by (simp add: cm_fill_def)
    have "coh ?X ?X ?w"
    proof (cases "(s, k) \<in> ?X")
      case True
      with safeL2Set_any [OF l1_set_any [OF coh ls True] ls True] show ?thesis by (simp add: w)
    next
      case False
      with race_okD(5) [OF assms] FromDb e have v: "stored_value (ra_world q) s k = Some (sr_value r)" by simp
      have "coh ?X ?X ?w1" using l1_set_coh [OF coh ls v] False by simp
      from safeL2Set_coh(1) [OF this ls] v show ?thesis by (simp add: w)
    qed
    moreover have "l2_works ?w" unfolding w by (rule safeL2Set_works) (use works in simp)
    ultimately show ?thesis by (simp add: w)
  qed
  then show ?thesis
    using race_okD(3-6) [OF assms(1)] unfolding ra_fill_def race_ok_def noted_def busy_def
    by (auto dest: set_mp [OF set_remove1_subset])
qed

text \<open>A write that was stored, and one that may or may not have been.\<close>

lemma race_ok_stored:
  assumes "race_ok q" and "coh ((noted q \<union> ra_dirty q) \<union> K) ((noted q \<union> ra_dirty q) \<union> K) w" and "l2_works w"
    and same: "\<And>s k. (s, k) \<notin> K \<Longrightarrow> stored_value w s k = stored_value (ra_world q) s k"
    and K: "note_key ` set N = K" and legal: "\<And>n. n \<in> set N \<Longrightarrow> lsid (fst (note_key n)) \<and> lkey (snd (note_key n))"
    and vals: "\<And>s k v. Wrote s k v \<in> set N \<Longrightarrow> stored_value w s k = Some v"
  shows "race_ok (q\<lparr>ra_world := w, ra_notes := ra_notes q @ N, ra_dirty := ra_dirty q \<union> (busy q \<inter> K)\<rparr>)"
proof (rule race_okI)
  note old = race_okD(3-6) [OF assms(1)]
  let ?q = "q\<lparr>ra_world := w, ra_notes := ra_notes q @ N, ra_dirty := ra_dirty q \<union> (busy q \<inter> K)\<rparr>"
  have "noted ?q \<union> ra_dirty ?q = (noted q \<union> ra_dirty q) \<union> K" using K by (auto simp: noted_def image_Un)
  with assms(2) show "coh (noted ?q \<union> ra_dirty ?q) (noted ?q \<union> ra_dirty ?q) (ra_world ?q)" by simp
  show "stored_value (ra_world ?q) (fst (read_key l)) (snd (read_key l)) = Some (read_value l)"
    if "l \<in> set (ra_reads ?q)" "read_key l \<notin> ra_dirty ?q" for l
  proof -
    from that have l: "l \<in> set (ra_reads q)" "read_key l \<notin> K" "read_key l \<notin> ra_dirty q" by (auto simp: busy_def)
    with old(3) [OF l(1)] same [of "fst (read_key l)" "snd (read_key l)"] show ?thesis by simp
  qed
  show "stored_value (ra_world ?q) s k = Some v" if "Wrote s k v \<in> set (ra_notes ?q)" "(s, k) \<notin> ra_dirty ?q" for s k v
  proof (cases "Wrote s k v \<in> set N")
    case False
    with that(1) have n: "Wrote s k v \<in> set (ra_notes q)" by simp
    then have "note_key (Wrote s k v) \<in> busy q" unfolding busy_def noted_def by blast
    with that(2) have "(s, k) \<notin> K" "(s, k) \<notin> ra_dirty q" by auto
    with old(4) [OF n] same show ?thesis by simp
  qed (simp add: vals)
qed (use assms(3) race_okD(3,4) [OF assms(1)] legal in auto)

lemma race_ok_failed:
  assumes "race_ok q" and "coh ((noted q \<union> ra_dirty q) \<union> K) ((noted q \<union> ra_dirty q) \<union> K) w" and "l2_works w"
    and same: "\<And>s k. (s, k) \<notin> K \<Longrightarrow> stored_value w s k = stored_value (ra_world q) s k"
  shows "race_ok (q\<lparr>ra_world := w, ra_dirty := ra_dirty q \<union> K\<rparr>)"
proof (rule race_okI)
  let ?q = "q\<lparr>ra_world := w, ra_dirty := ra_dirty q \<union> K\<rparr>"
  show "coh (noted ?q \<union> ra_dirty ?q) (noted ?q \<union> ra_dirty ?q) (ra_world ?q)" using assms(2) by (simp add: noted_def Un_assoc)
  show "stored_value (ra_world ?q) (fst (read_key l)) (snd (read_key l)) = Some (read_value l)"
    if "l \<in> set (ra_reads ?q)" "read_key l \<notin> ra_dirty ?q" for l
    using that race_okD(5) [OF assms(1), of l] same [of "fst (read_key l)" "snd (read_key l)"] by simp
qed (use assms(3) race_okD(3,4,6) [OF assms(1)] same in auto)

lemma ra_write_ok:
  assumes "race_ok q" and "lsid s" and "\<forall>e \<in> set es. lkey (fst e)" and "distinct (keys_of es)"
  shows "race_ok (ra_write A s es q)"
proof -
  let ?w = "ra_world q" and ?K = "Pair s ` fst ` set es" and ?N = "map (\<lambda>(k, v). Wrote s k v) es"
  obtain r w where g: "on_db (ad_setMany A s es (w_now ?w)) ?w = (r, w)" by fastforce
  note d = on_db_setMany [OF race_okD(1) [OF assms(1)] assms(2,3) g]
  have works: "l2_works w" using race_okD(2) [OF assms(1)] by (subst d(2)) simp
  have same: "stored_value w s' k = stored_value ?w s' k" if "(s', k) \<notin> ?K" for s' k
    using d(4) upserted_elsewhere [OF _ that] by auto
  show ?thesis
  proof (cases r)
    case (Inl e)
    with race_ok_failed [OF assms(1) d(1) works same] g show ?thesis by (simp add: ra_write_def)
  next
    case (Inr u)
    have "stored_value w s' k = Some v" if "Wrote s' k v \<in> set ?N" for s' k v
    proof -
      from that have kv: "s' = s" "(k, v) \<in> set es" by auto
      then have "k \<in> fst ` set es" by (metis fst_conv imageI)
      with upserted_value [OF d(3) [OF Inr], of k] kv assms(4) show ?thesis by (simp add: store_all_distinct)
    qed
    moreover have "note_key ` set ?N = ?K" by (simp add: image_image case_prod_beta)
    moreover have "lsid (fst (note_key n)) \<and> lkey (snd (note_key n))" if "n \<in> set ?N" for n using that assms(2,3) by auto
    ultimately have "race_ok (q\<lparr>ra_world := w, ra_notes := ra_notes q @ ?N, ra_dirty := ra_dirty q \<union> (busy q \<inter> ?K)\<rparr>)"
      by (intro race_ok_stored [OF assms(1) d(1) works same])
    with g Inr show ?thesis by (simp add: ra_write_def)
  qed
qed

lemma ra_delete_ok:
  assumes "race_ok q" and "lsid s" and "\<forall>k \<in> set ks. lkey k"
  shows "race_ok (ra_delete A s ks q)"
proof -
  let ?w = "ra_world q" and ?K = "Pair s ` set ks" and ?N = "map (Deleted s) ks"
  obtain r w where g: "on_db (ad_deleteMany A s ks) ?w = (r, w)" by fastforce
  note d = on_db_deleteMany [OF race_okD(1) [OF assms(1)] assms(2,3) g]
  have works: "l2_works w" using race_okD(2) [OF assms(1)] by (subst d(2)) simp
  have same: "stored_value w s' k = stored_value ?w s' k" if "(s', k) \<notin> ?K" for s' k
    using d(4) removed_elsewhere [OF _ that] by auto
  show ?thesis
  proof (cases r)
    case (Inl e)
    with race_ok_failed [OF assms(1) d(1) works same] g show ?thesis by (simp add: ra_delete_def)
  next
    case (Inr u)
    have "note_key ` set ?N = ?K" by (simp add: image_image)
    moreover have "lsid (fst (note_key n)) \<and> lkey (snd (note_key n))" if "n \<in> set ?N" for n using that assms(2,3) by auto
    ultimately have "race_ok (q\<lparr>ra_world := w, ra_notes := ra_notes q @ ?N, ra_dirty := ra_dirty q \<union> (busy q \<inter> ?K)\<rparr>)"
      by (intro race_ok_stored [OF assms(1) d(1) works same]) auto
    with g Inr show ?thesis by (simp add: ra_delete_def)
  qed
qed

text \<open>A note reaches the caches.\<close>

lemma tell_ok:
  assumes "race_ok q" and n: "n \<in> set (ra_notes q)"
  shows "race_ok (ra_tell l2 n q)"
proof -
  let ?X = "noted q \<union> ra_dirty q" and ?w = "tell l2 n (ra_world q)" and ?q = "ra_tell l2 n q"
  obtain s k where key: "note_key n = (s, k)" by fastforce
  note coh = race_okD(1) [OF assms(1)] and works = race_okD(2) [OF assms(1)]
  have ls: "lsid s" using race_okD(4) [OF assms] key by simp
  have less: "?X - {(s, k)} \<subseteq> ?X - ({(s, k)} - ra_dirty q)" by auto
  have in_X: "(s, k) \<in> ?X" using n key unfolding noted_def by (metis UnI1 imageI)
  have *: "coh (?X - ({(s, k)} - ra_dirty q)) (?X - ({(s, k)} - ra_dirty q)) ?w \<and> l2_works ?w \<and> w_db ?w = w_db (ra_world q)"
  proof (cases n)
    case (Deleted s' k')
    with key onDeleted_ok(2,3) [OF coh ls, of k] works coh_mono [OF _ less less] show ?thesis by auto
  next
    case (Wrote s' k' v)
    with key have e: "s' = s" "k' = k" by simp_all
    have db: "w_db ?w = w_db (ra_world q)" by (simp add: Wrote cm_onWritten_def Let_def split: option.split)
    show ?thesis
    proof (cases "(s, k) \<in> ra_dirty q")
      case True
      with onWritten_any [OF coh ls in_X works, of v "w_now (ra_world q)"] db show ?thesis by (simp add: Wrote e)
    next
      case False
      with race_okD(6) [OF assms(1)] n Wrote e have "stored_value (ra_world q) s k = Some v" by simp
      from onWritten_ok(3) [OF coh ls this works, of "w_now (ra_world q)"] db coh_mono [OF _ less less] show ?thesis by (simp add: Wrote e)
    qed
  qed
  show ?thesis
  proof (rule race_okI)
    have sub: "?X - ({(s, k)} - ra_dirty q) \<subseteq> noted ?q \<union> ra_dirty ?q"
    proof
      fix x assume x: "x \<in> ?X - ({(s, k)} - ra_dirty q)"
      show "x \<in> noted ?q \<union> ra_dirty ?q"
      proof (cases "x \<in> ra_dirty q")
        case False
        with x key obtain n' where "n' \<in> set (ra_notes q)" "note_key n' = x" "n' \<noteq> n" by (auto simp: noted_def)
        then show ?thesis by (auto simp: ra_tell_def noted_def)
      qed (simp add: ra_tell_def)
    qed
    have "ra_world ?q = ?w" by (simp add: ra_tell_def)
    with coh_mono [OF conjunct1 [OF *] sub sub] show "coh (noted ?q \<union> ra_dirty ?q) (noted ?q \<union> ra_dirty ?q) (ra_world ?q)" by simp
  qed (use * race_okD(3-6) [OF assms(1)] in \<open>auto simp: ra_tell_def dest: notin_set_remove1 set_mp [OF set_remove1_subset]\<close>)
qed

lemma race_ok_step: "race_step A l2 lsid lkey q q' \<Longrightarrow> race_ok q \<Longrightarrow> race_ok q'"
  by (induction rule: race_step.induct)
    (simp_all add: lookup_ok fetch_ok query_step_ok fill_step_ok ra_write_ok ra_delete_ok tell_ok drop_ok tick_ok)

lemma race_ok_steps: "(race_step A l2 lsid lkey)\<^sup>*\<^sup>* q q' \<Longrightarrow> race_ok q \<Longrightarrow> race_ok q'"
  by (induction rule: rtranclp_induct) (auto intro: race_ok_step)

lemma race_ok_start: "coh {} {} w \<Longrightarrow> l2_works w \<Longrightarrow> race_ok (ra_start w)"
  by (simp add: race_ok_def ra_start_def noted_def busy_def)

end

section \<open>Properties\<close>

text \<open>C10. Overlapping reads and writes damage the caches only where they race: from a coherent world with a working
  Redis, whatever the interleaving of reads, writes, deletions, expiry and invalidation, every value L1 or Redis
  holds for a legal name is the stored one, except for names whose change the caches are still to be told
  of and names on which a write met another operation halfway or its call threw; when nothing is under way and
  nothing has raced, the world is coherent.\<close>

theorem cache_races_confined:
  assumes "cache_stack A view ivr up lsid lkey l2 l2v rup"
    and "coherent view ivr lsid lkey l2v l2 {} {} w" and "l2 = None \<or> rup (w_l2 w)"
    and "(race_step A l2 lsid lkey)\<^sup>*\<^sup>* (ra_start w) q"
  shows "coherent view ivr lsid lkey l2v l2 (noted q \<union> ra_dirty q) (noted q \<union> ra_dirty q) (ra_world q) \<and>
    (ra_notes q = [] \<longrightarrow> ra_dirty q = {} \<longrightarrow> coherent view ivr lsid lkey l2v l2 {} {} (ra_world q))"
proof -
  have "cache_stack.race_ok view ivr lsid lkey l2 l2v rup q"
    by (rule cache_stack.race_ok_steps [OF assms(1,4) cache_stack.race_ok_start [OF assms(1-3)]])
  from cache_stack.race_okD(1) [OF assms(1) this] show ?thesis by (auto simp: noted_def)
qed

text \<open>An L1 with room for a value.\<close>

definition l1_room :: "jstr \<Rightarrow> mcache \<Rightarrow> bool" where
  "l1_room v c \<longleftrightarrow> mc_bounded c \<and> 1 \<le> mc_maxEntries c \<and> int (byteLength v) \<le> mc_maxBytes c"

lemma cacheKey_nonempty: "cacheKey s k \<noteq> ''''"
  by (simp add: cacheKey_def)

lemma l1_set_hit:
  assumes "mc_wf (w_l1 w)" and "l1_room v (w_l1 w)" and "t < w_now w + mc_ttlMs (w_l1 w)" and "w_l1 w' = w_l1 (l1_set (cacheKey s k) v n w)"
    and "w_now w' = t" and "\<not> is_http l2"
  shows "fst (cm_get A l2 s k w') = Inr (Some v)"
proof -
  have "fst (mc_get (cacheKey s k) t (w_l1 w')) = Some (v, n)"
    using memory_cache_read_after_write [OF assms(1) _ cacheKey_nonempty, of v s k t n "w_now w"] assms(2-4)
    by (simp add: l1_room_def l1_set_def)
  then obtain c where "mc_get (cacheKey s k) t (w_l1 w') = (Some (v, n), c)" by (metis prod.collapse)
  with assms(5,6) show ?thesis by (simp add: cm_get_def l1_get_def Let_def)
qed

text \<open>C25. A read that overlaps a write can bring the old value back: the database answers a read, then a write of the key is
  stored and the caches are told, then the read puts its answer into the caches. From then until the TTL is
  over, reads return the overwritten value, in a process without Redis or with Redis over TCP.\<close>

theorem late_fill_serves_old_value:
  assumes "cache_stack A view ivr up lsid lkey l2 l2v rup"
    and "coherent view ivr lsid lkey l2v l2 {} {} w" and "lsid s" and "lkey k" and "\<not> is_http l2"
    and "ra_reads (ra_query A s k (ra_start w)) = [FromDb s k r]"
    and "ra_notes (ra_write A s [(k, v)] (ra_query A s k (ra_start w))) = [Wrote s k v]"
    and "q = ra_tick t (ra_fill l2 (FromDb s k r) (ra_tell l2 (Wrote s k v) (ra_write A s [(k, v)] (ra_query A s k (ra_start w)))))"
    and "l1_room v (w_l1 w)" and "l1_room (sr_value r) (w_l1 w)" and "t < w_now w + mc_ttlMs (w_l1 w)"
  shows "value_at (view (w_db w)) s k = Some (sr_value r) \<and> value_at (view (w_db (ra_world q))) s k = Some v \<and>
    fst (cm_get A l2 s k (ra_world q)) = Inr (Some (sr_value r))"
proof -
  note cohD = cache_stack.cohD [OF assms(1,2)]
  have store: "db_store A view ivr up lsid lkey" using assms(1) by (simp add: cache_stack_def)
  obtain r1 w1 where g: "on_db (ad_get A s k) w = (r1, w1)" by fastforce
  from assms(6) g have r1: "r1 = Inr (Some r)" by (auto simp: ra_query_def ra_start_def split: sum.splits option.splits)
  note d1 = cache_stack.on_db_query [OF assms(1,2) db_store.get_ok [OF store cohD(1) assms(3,4)] g]
  have q1: "ra_query A s k (ra_start w) = \<lparr>ra_world = w1, ra_reads = [FromDb s k r], ra_notes = [], ra_dirty = {}\<rparr>"
    using g r1 by (simp add: ra_query_def ra_start_def)
  obtain r2 w2 where p: "on_db (ad_setMany A s [(k, v)] (w_now w1)) w1 = (r2, w2)" by fastforce
  have key: "\<forall>e \<in> set [(k, v)]. lkey (fst e)" using assms(4) by simp
  note d2 = cache_stack.on_db_setMany [OF assms(1) d1(1) assms(3) key p]
  have "ra_notes (ra_write A s [(k, v)] (ra_query A s k (ra_start w))) = (case r2 of Inl _ \<Rightarrow> [] | Inr _ \<Rightarrow> [Wrote s k v])"
    using p by (simp add: q1 ra_write_def split: sum.split)
  with assms(7) obtain u where r2: "r2 = Inr u" by (cases r2) auto
  let ?w3 = "cm_onWritten l2 s k v (w_now w2) w2"
  let ?w4 = "cm_fill l2 s k r ?w3"
  have world: "ra_world q = ?w4\<lparr>w_now := t\<rparr>"
    using p r2 by (simp add: assms(8) q1 ra_write_def ra_tell_def ra_fill_def ra_tick_def)
  have "w_l1 w1 = w_l1 w" "w_now w1 = w_now w" by (subst d1(3), simp)+
  moreover have "w_l1 w2 = w_l1 w1" "w_now w2 = w_now w1" by (subst d2(2), simp)+
  ultimately have keep: "w_l1 w2 = w_l1 w" "w_now w2 = w_now w" by simp_all
  have w3: "w_l1 ?w3 = w_l1 (l1_set (cacheKey s k) v (w_now w2) w2)" "w_now ?w3 = w_now w" "w_db ?w3 = w_db w2"
    using keep by (simp_all add: cm_onWritten_def Let_def split: option.split)
  have l1: "w_l1 ?w4 = w_l1 (l1_set (cacheKey s k) (sr_value r) (sr_version r) ?w3)" "w_db ?w4 = w_db w2"
    using w3 by (simp_all add: cm_fill_def)
  have c3: "w_l1 ?w3 = mc_set (cacheKey s k) v (w_now w) (w_now w) (w_l1 w)"
    by (simp add: cm_onWritten_def Let_def l1_set_def keep split: option.split)
  have wf: "mc_wf (w_l1 ?w3)" unfolding c3 by (rule mc_wf_set [OF cohD(2)])
  have room: "l1_room (sr_value r) (w_l1 ?w3)" "mc_ttlMs (w_l1 ?w3) = mc_ttlMs (w_l1 w)"
    using assms(9,10) mc_bounded_set [OF cohD(2) _ cacheKey_nonempty, of s k v] unfolding c3 by (auto simp: l1_room_def)
  have "fst (cm_get A l2 s k (ra_world q)) = Inr (Some (sr_value r))"
    by (rule l1_set_hit [OF wf room(1) _ _ _ assms(5)]) (use assms(11) room(2) w3 l1 in \<open>simp_all add: world\<close>)
  moreover have "view (w_db w) s k = Some r" using d1(4) [OF r1] by simp
  moreover have "value_at (view (w_db (ra_world q))) s k = Some v"
    using upserted_value [OF d2(3) [OF r2], of k] l1(2) by (simp add: world)
  ultimately show ?thesis by (simp add: value_at_def)
qed

section \<open>The properties at work\<close>

lemma mem_plain_stack:
  "cache_stack mem_adapter mem_view mem_ok mem_up colon_free any_name (None :: mem_kv redis_cache option) mem_kv.l2h mem_kv.uph"
  by (intro cache_stack.intro cache_stack_axioms.intro versioned_store.axioms(1) [OF mem_versioned]) (auto simp: colon_free_def)

lemma mem_plain_coherent: "coherent mem_view mem_ok colon_free any_name mem_kv.l2h None {} {} mem_world"
  using mem_world_coherent [of "{}" "{}"] by (simp add: coherent_def)

abbreviation mem_read :: "(mem_server, mem_kv) race" where
  "mem_read \<equiv> ra_query mem_adapter ''bot'' ''creds'' (ra_start mem_world)"

abbreviation mem_write :: "(mem_server, mem_kv) race" where
  "mem_write \<equiv> ra_write mem_adapter ''bot'' [(''creds'', lit ''v2'')] mem_read"

abbreviation mem_row :: session_record where
  "mem_row \<equiv> \<lparr>sr_sessionId = ''bot'', sr_key = ''creds'', sr_value = lit ''v1'', sr_updatedAt = 5, sr_version = 3\<rparr>"

lemma mem_read_eval: "ra_reads mem_read = [FromDb ''bot'' ''creds'' mem_row]"
  by code_simp

lemma mem_write_eval: "ra_notes mem_write = [Wrote ''bot'' ''creds'' (lit ''v2'')]"
  by code_simp

theorem cache_races_confined_witness:
  "coherent mem_view mem_ok colon_free any_name mem_kv.l2h None {(''bot'', ''creds'')} {(''bot'', ''creds'')} (ra_world mem_write)"
proof -
  have bot: "colon_free ''bot''" by (simp add: colon_free_def)
  have "race_step mem_adapter None colon_free any_name (ra_start mem_world) mem_read" by (rule race_step.query) (simp_all add: bot)
  moreover have "race_step mem_adapter None colon_free any_name mem_read mem_write" by (rule race_step.wrote) (simp_all add: bot)
  ultimately have steps: "(race_step mem_adapter None colon_free any_name)\<^sup>*\<^sup>* (ra_start mem_world) mem_write"
    by (meson converse_rtranclp_into_rtranclp rtranclp.rtrancl_refl)
  have "noted mem_write \<union> ra_dirty mem_write = {(''bot'', ''creds'')}" by code_simp
  with conjunct1 [OF cache_races_confined [OF mem_plain_stack mem_plain_coherent disjI1 [OF refl] steps]] show ?thesis by simp
qed

theorem late_fill_serves_old_value_witness:
  "\<exists>q :: (mem_server, mem_kv) race. value_at (mem_view (w_db (ra_world q))) ''bot'' ''creds'' = Some (lit ''v2'') \<and>
     fst (cm_get mem_adapter None ''bot'' ''creds'' (ra_world q)) = Inr (Some (lit ''v1''))"
proof -
  have room: "l1_room v (w_l1 mem_world)" if "int (byteLength v) \<le> 1000" for v
    using that by (simp add: l1_room_def mem_world_def mc_new_def mc_bounded_def mc_size_def mc_approximateBytes_def Let_def
        DEFAULT_MAX_ENTRIES_def DEFAULT_MAX_BYTES_def)
  have bytes: "int (byteLength (lit ''v2'')) \<le> 1000" "int (byteLength (sr_value mem_row)) \<le> 1000" by code_simp+
  have time: "10 < w_now mem_world + mc_ttlMs (w_l1 mem_world)"
    by (simp add: mem_world_def mc_new_def Let_def DEFAULT_TTL_MS_def)
  have bot: "colon_free ''bot''" and plain: "\<not> is_http (None :: mem_kv redis_cache option)" by (simp_all add: colon_free_def is_http_def)
  from late_fill_serves_old_value [OF mem_plain_stack mem_plain_coherent bot TrueI plain mem_read_eval mem_write_eval refl
      room [OF bytes(1)] room [OF bytes(2)] time] show ?thesis
    by (elim conjE) (intro exI conjI, simp_all)
qed

end
