(* ===== verification/PostgresAdapter.thy ===== *)
theory PostgresAdapter
  imports SqlMemory
begin

text \<open>
  \<^verbatim>\<open>src/adapters/postgres-adapter.ts\<close>. The \<open>pg\<close> driver is the parameter \<open>run\<close> (one query),
  \<open>import_driver\<close> (\<open>await import('pg')\<close>) and \<open>pool_end\<close>. Keys are TEXT columns, so the collation
  keeps all names apart, and one \<open>INSERT ... ON CONFLICT DO UPDATE\<close> may not touch a row twice.
\<close>

definition pg_dialect :: dialect where
  "pg_dialect = \<lparr>dl_coll = (\<lambda>s. s), dl_dup_error = True\<rparr>"

definition pg_client :: "(sql_batch \<Rightarrow> ('s, sql_result) io) \<Rightarrow> sql_stmt \<Rightarrow> sql_param list \<Rightarrow> ('s pooled, sql_result) io" where
  "pg_client run st ps = po_query ''PostgresAdapter'' run [(st, ps)]"

definition pg_withRetry :: "retry_options option \<Rightarrow> ('s pooled, 'a) io \<Rightarrow> string \<Rightarrow> ('s pooled, 'a) io" where
  "pg_withRetry opts fn label = base_withRetry ''postgres'' opts fn label"

definition pg_get ::
  "retry_options option \<Rightarrow> (sql_batch \<Rightarrow> ('s, sql_result) io) \<Rightarrow> string \<Rightarrow> string \<Rightarrow>
    ('s pooled, session_record option) io" where
  "pg_get opts run sessionId key =
     bindA (pg_withRetry opts (pg_client run (SelectByKey 1 2) [PStr sessionId, PStr key]) ''get'')
       (\<lambda>res. ret (first_record (rows_of res)))"

definition pg_getMany ::
  "retry_options option \<Rightarrow> (sql_batch \<Rightarrow> ('s, sql_result) io) \<Rightarrow> string \<Rightarrow> string list \<Rightarrow>
    ('s pooled, (string \<times> session_record) list) io" where
  "pg_getMany opts run sessionId keys =
     (if keys = [] then ret []
      else bindA (pg_withRetry opts (pg_client run (SelectByKeys 1 (AnyParam 2)) [PStr sessionId, PArray keys]) ''getMany'')
        (\<lambda>res. ret (record_map (rows_of res))))"

definition pg_setMany ::
  "retry_options option \<Rightarrow> (sql_batch \<Rightarrow> ('s, sql_result) io) \<Rightarrow> string \<Rightarrow> (string \<times> jstr) list \<Rightarrow> int \<Rightarrow>
    ('s pooled, unit) io" where
  "pg_setMany opts run sessionId entries now =
     (if entries = [] then ret ()
      else
        (let values = map quad [0..<length entries];
             params = quad_params sessionId now entries
         in thenA (pg_withRetry opts (pg_client run (InsertOnConflictUpdate values) params) ''setMany'') (ret ())))"

definition pg_set ::
  "retry_options option \<Rightarrow> (sql_batch \<Rightarrow> ('s, sql_result) io) \<Rightarrow> string \<Rightarrow> string \<Rightarrow> jstr \<Rightarrow> int \<Rightarrow>
    ('s pooled, unit) io" where
  "pg_set opts run sessionId key value now = pg_setMany opts run sessionId [(key, value)] now"

definition pg_deleteMany ::
  "retry_options option \<Rightarrow> (sql_batch \<Rightarrow> ('s, sql_result) io) \<Rightarrow> string \<Rightarrow> string list \<Rightarrow> ('s pooled, unit) io" where
  "pg_deleteMany opts run sessionId keys =
     (if keys = [] then ret ()
      else thenA (pg_withRetry opts (pg_client run (DeleteByKeys 1 (AnyParam 2)) [PStr sessionId, PArray keys]) ''deleteMany'')
        (ret ()))"

definition pg_delete ::
  "retry_options option \<Rightarrow> (sql_batch \<Rightarrow> ('s, sql_result) io) \<Rightarrow> string \<Rightarrow> string \<Rightarrow> ('s pooled, unit) io" where
  "pg_delete opts run sessionId key = pg_deleteMany opts run sessionId [key]"

definition pg_getAllKeys ::
  "retry_options option \<Rightarrow> (sql_batch \<Rightarrow> ('s, sql_result) io) \<Rightarrow> string \<Rightarrow> ('s pooled, string list) io" where
  "pg_getAllKeys opts run sessionId =
     bindA (pg_withRetry opts (pg_client run (SelectKeys 1) [PStr sessionId]) ''getAllKeys'')
       (\<lambda>res. ret (strs_of res))"

definition pg_deleteSession ::
  "retry_options option \<Rightarrow> (sql_batch \<Rightarrow> ('s, sql_result) io) \<Rightarrow> string \<Rightarrow> ('s pooled, unit) io" where
  "pg_deleteSession opts run sessionId =
     thenA (pg_withRetry opts (pg_client run (DeleteBySession 1) [PStr sessionId]) ''deleteSession'') (ret ())"

definition pg_listSessions ::
  "retry_options option \<Rightarrow> (sql_batch \<Rightarrow> ('s, sql_result) io) \<Rightarrow> ('s pooled, string list) io" where
  "pg_listSessions opts run =
     bindA (pg_withRetry opts (pg_client run SelectDistinctSessions []) ''listSessions'') (\<lambda>res. ret (strs_of res))"

definition pg_sessionExists ::
  "retry_options option \<Rightarrow> (sql_batch \<Rightarrow> ('s, sql_result) io) \<Rightarrow> string \<Rightarrow> ('s pooled, bool) io" where
  "pg_sessionExists opts run sessionId =
     bindA (pg_withRetry opts (pg_client run (SelectOneBySession 1) [PStr sessionId]) ''sessionExists'')
       (\<lambda>res. ret (strs_of res \<noteq> []))"

definition pg_init ::
  "retry_options option \<Rightarrow> ('s, unit) io \<Rightarrow> (sql_batch \<Rightarrow> ('s, sql_result) io) \<Rightarrow> ('s pooled, unit) io" where
  "pg_init opts import_driver run = po_init ''postgres'' opts import_driver run"

definition pg_close :: "('s, unit) io \<Rightarrow> ('s pooled, unit) io" where
  "pg_close pool_end = po_close pool_end"

definition pg_adapter ::
  "retry_options option \<Rightarrow> ('s, unit) io \<Rightarrow> ('s, unit) io \<Rightarrow> (sql_batch \<Rightarrow> ('s, sql_result) io) \<Rightarrow> 's pooled adapter" where
  "pg_adapter opts import_driver pool_end run =
     \<lparr>ad_name = ''postgres'', ad_init = pg_init opts import_driver run,
      ad_get = pg_get opts run, ad_getMany = pg_getMany opts run,
      ad_set = pg_set opts run, ad_setMany = pg_setMany opts run,
      ad_delete = pg_delete opts run, ad_deleteMany = pg_deleteMany opts run,
      ad_getAllKeys = pg_getAllKeys opts run, ad_deleteSession = pg_deleteSession opts run,
      ad_listSessions = pg_listSessions opts run, ad_sessionExists = pg_sessionExists opts run,
      ad_close = pg_close pool_end\<rparr>"

lemmas pg_defs = pg_adapter_def pg_get_def pg_getMany_def pg_setMany_def pg_set_def pg_deleteMany_def pg_delete_def
  pg_getAllKeys_def pg_deleteSession_def pg_listSessions_def pg_sessionExists_def pg_client_def pg_withRetry_def

section \<open>The statements mean what the adapter promises\<close>

lemma pg_sends:
  "sends pg_dialect [(SelectByKey 1 2, [PStr s, PStr k])] (CGet s k)"
  "sends pg_dialect [(SelectByKeys 1 (AnyParam 2), [PStr s, PArray ks])] (CGetIn s ks)"
  "sends pg_dialect [(DeleteByKeys 1 (AnyParam 2), [PStr s, PArray ks])] (CDeleteIn s ks)"
  "sends pg_dialect [(SelectKeys 1, [PStr s])] (CKeys s)"
  "sends pg_dialect [(DeleteBySession 1, [PStr s])] (CWipe s)"
  "sends pg_dialect [(SelectDistinctSessions, [])] CSessions"
  "sends pg_dialect [(SelectOneBySession 1, [PStr s])] (CExists s)"
  by (simp_all add: sends_def str_param_def)

lemma pg_is_sql_adapter:
  assumes "sql_client pg_dialect lsid lkey run tbl up" and "may_retry opts"
  shows "sql_adapter pg_dialect lsid lkey (po_query ''PostgresAdapter'' run) (\<lambda>p. tbl (po_db p))
    (\<lambda>p. po_open p \<and> up (po_db p)) (pg_adapter opts import_driver pool_end run) ''postgres'' opts
    (\<lambda>s k. [(SelectByKey 1 2, [PStr s, PStr k])])
    (\<lambda>s ks. [(SelectByKeys 1 (AnyParam 2), [PStr s, PArray ks])])
    (\<lambda>s es now. [(InsertOnConflictUpdate (map quad [0..<length es]), quad_params s now es)])
    (\<lambda>s ks. [(DeleteByKeys 1 (AnyParam 2), [PStr s, PArray ks])])
    (\<lambda>s. [(SelectKeys 1, [PStr s])]) (\<lambda>s. [(DeleteBySession 1, [PStr s])])
    [(SelectDistinctSessions, [])] (\<lambda>s. [(SelectOneBySession 1, [PStr s])])"
  by (intro sql_adapter.intro sql_adapter_axioms.intro pooled_client assms pg_sends sends_multi_upsert)
    (simp_all add: pg_defs Let_def query_ok_return)

abbreviation pg_view ::
  "(string \<Rightarrow> bool) \<Rightarrow> (string \<Rightarrow> bool) \<Rightarrow> ('s \<Rightarrow> table) \<Rightarrow> 's pooled \<Rightarrow> db_view" where
  "pg_view lsid lkey tbl \<equiv> store_view pg_dialect lsid lkey (\<lambda>p. tbl (po_db p))"

interpretation pg_mem: sql_adapter pg_dialect "\<lambda>_. True" "\<lambda>_. True"
    "po_query ''PostgresAdapter'' (mem_run pg_dialect)" "\<lambda>p. ms_rows (po_db p)" "\<lambda>p. po_open p \<and> mem_up (po_db p)"
    "pg_adapter None (ret ()) (ret ()) (mem_run pg_dialect)" "''postgres''" None
    "\<lambda>s k. [(SelectByKey 1 2, [PStr s, PStr k])]"
    "\<lambda>s ks. [(SelectByKeys 1 (AnyParam 2), [PStr s, PArray ks])]"
    "\<lambda>s es now. [(InsertOnConflictUpdate (map quad [0..<length es]), quad_params s now es)]"
    "\<lambda>s ks. [(DeleteByKeys 1 (AnyParam 2), [PStr s, PArray ks])]"
    "\<lambda>s. [(SelectKeys 1, [PStr s])]" "\<lambda>s. [(DeleteBySession 1, [PStr s])]"
    "[(SelectDistinctSessions, [])]" "\<lambda>s. [(SelectOneBySession 1, [PStr s])]"
  by (intro pg_is_sql_adapter mem_client id_names)
    (simp_all add: pg_dialect_def may_retry_def resolve_retry_def opt_field_def DEFAULT_RETRIES_def)

section \<open>Properties\<close>

text \<open>C30. Over any server and driver that execute the statements (and whose failed calls did all
  or nothing), the Postgres adapter is a versioned store of records: every read returns what is
  stored, every write that returns has stored its entries with the time given and a higher
  version, a write that throws did all or nothing, and on a connection that is up they return.\<close>

theorem postgres_refines_store:
  assumes "sql_client pg_dialect lsid lkey run tbl up" and "may_retry opts"
  shows "versioned_store (pg_adapter opts import_driver pool_end run) (pg_view lsid lkey tbl)
    (store_ok lsid lkey (\<lambda>p. tbl (po_db p))) (\<lambda>p. po_open p \<and> up (po_db p)) lsid lkey"
  by (rule sql_adapter.is_versioned_store [OF pg_is_sql_adapter [OF assms]])

theorem postgres_refines_store_witness:
  "versioned_store (pg_adapter None (ret ()) (ret ()) (mem_run pg_dialect)) (pg_view (\<lambda>_. True) (\<lambda>_. True) ms_rows)
    (store_ok (\<lambda>_. True) (\<lambda>_. True) (\<lambda>p. ms_rows (po_db p))) (\<lambda>p. po_open p \<and> mem_up (po_db p)) (\<lambda>_. True) (\<lambda>_. True)"
  by (rule postgres_refines_store)
    (auto intro!: mem_client id_names
      simp: pg_dialect_def may_retry_def resolve_retry_def opt_field_def DEFAULT_RETRIES_def)

text \<open>What the adapter does with a key that occurs twice in one batch.\<close>

lemma pg_duplicate_rejected:
  assumes "\<not> distinct (keys_of es)"
  shows "exec_batch pg_dialect [(InsertOnConflictUpdate (map quad [0..<length es]), quad_params s now es)] t = None"
proof -
  have "exec_batch pg_dialect [(InsertOnConflictUpdate (map quad [0..<length es]), quad_params s now es)] t =
      exec_cmd pg_dialect (CUpsert (rows_for s now es)) t"
    using sends_multi_upsert by (simp only: sends_def)
  moreover have "map (\<lambda>(s, k, _, _). (s, k)) (rows_for s now es) = map (Pair s) (keys_of es)"
    by (auto simp: rows_for_def)
  then have "\<not> distinct (map (\<lambda>(s, k, _, _). (s, k)) (rows_for s now es))"
    using assms by (metis distinct_map map_map)
  ultimately show ?thesis by (simp add: pg_dialect_def)
qed

text \<open>A batch in which a key occurs twice never gets through: \<open>setMany\<close> throws after its
  retries, whatever the connection does, and the table is as before (Postgres refuses an
  \<open>ON CONFLICT DO UPDATE\<close> that would touch a row twice).\<close>

lemma postgres_duplicate_keys_rejected:
  assumes "sql_client pg_dialect lsid lkey run tbl up" and "may_retry opts" and "\<not> distinct (keys_of es)"
    and "pg_setMany opts run sessionId es now p = (r, p')"
  shows "(\<exists>e. r = Inl e) \<and> tbl (po_db p') = tbl (po_db p)"
proof -
  let ?b = "[(InsertOnConflictUpdate (map quad [0..<length es]), quad_params sessionId now es)]"
  from assms(3) have "es \<noteq> []" by auto
  with assms(4) obtain r1 where r1: "with_retry opts (retry_label ''postgres'' ''setMany'')
      (po_query ''PostgresAdapter'' run ?b) p = (r1, p')" and r: "r = (case r1 of Inl e \<Rightarrow> Inl e | Inr _ \<Rightarrow> Inr ())"
    by (auto simp: pg_setMany_def Let_def thenA_def bindA_def pg_withRetry_def base_withRetry_def pg_client_def
        split: prod.splits sum.splits)
  have "case r1 of Inl e \<Rightarrow> tbl (po_db p') = tbl (po_db p) | Inr x \<Rightarrow> False"
  proof (rule with_retry_rule [OF _ _ r1])
    fix q r2 q'
    assume q: "tbl (po_db q) = tbl (po_db p)" and m: "po_query ''PostgresAdapter'' run ?b q = (r2, q')"
    note none = pg_duplicate_rejected [OF assms(3)]
    note c = pooled_client [OF assms(1), where name = "''PostgresAdapter''"]
    show "case r2 of Inl e \<Rightarrow> tbl (po_db q') = tbl (po_db p) | Inr x \<Rightarrow> False"
    proof (cases r2)
      case (Inl e)
      from sql_client.run_err [OF c m [unfolded Inl]] q Inl show ?thesis by (simp add: none del: exec_batch.simps)
    next
      case (Inr x)
      from sql_client.run_ok [OF c m [unfolded Inr]] show ?thesis by (simp add: none del: exec_batch.simps)
    qed
  qed simp
  with r show ?thesis by (cases r1) auto
qed

lemma postgres_duplicate_keys_rejected_witness:
  "\<exists>e. fst (pg_setMany None (mem_run pg_dialect) ''bot'' [(''k'', lit ''v''), (''k'', lit ''w'')] 5
      \<lparr>po_open = True, po_db = \<lparr>ms_rows = [], ms_faults = []\<rparr>\<rparr>) = Inl e"
  by (rule conjunct1 [OF postgres_duplicate_keys_rejected [OF _ _ _ surjective_pairing,
        where tbl = ms_rows and up = mem_up and lsid = "\<lambda>_. True" and lkey = "\<lambda>_. True"]])
    (auto intro!: mem_client id_names
      simp: pg_dialect_def may_retry_def resolve_retry_def opt_field_def DEFAULT_RETRIES_def)

lemma pg_closed:
  assumes "\<not> po_open p" and "may_retry opts"
  shows "pg_get opts run s k p = (Inl (NotInitialised ''PostgresAdapter''), p)"
    and "pg_getMany opts run s ks p = (if ks = [] then Inr [] else Inl (NotInitialised ''PostgresAdapter''), p)"
    and "pg_setMany opts run s es now p = (if es = [] then Inr () else Inl (NotInitialised ''PostgresAdapter''), p)"
    and "pg_deleteMany opts run s ks p = (if ks = [] then Inr () else Inl (NotInitialised ''PostgresAdapter''), p)"
    and "pg_getAllKeys opts run s p = (Inl (NotInitialised ''PostgresAdapter''), p)"
    and "pg_deleteSession opts run s p = (Inl (NotInitialised ''PostgresAdapter''), p)"
    and "pg_listSessions opts run p = (Inl (NotInitialised ''PostgresAdapter''), p)"
    and "pg_sessionExists opts run s p = (Inl (NotInitialised ''PostgresAdapter''), p)"
  using retry_closed [OF assms, of "''postgres''" "''PostgresAdapter''" run]
  by (simp_all add: pg_defs Let_def thenA_def bindA_def)

text \<open>The life of a pool. \<open>init()\<close> with a working driver opens it and leaves the rows alone;
  \<open>close()\<close> that ends the pool makes the adapter unusable again: each operation then throws the
  \<open>init() must be called\<close> error after its retries, without reaching the server, except that a
  batch call with an empty list still returns.\<close>

lemma postgres_lifecycle:
  assumes "sql_client pg_dialect lsid lkey run tbl up" and "may_retry opts"
    and "import_driver (po_db p) = (Inr (), d1)" and "up d1"
  shows "\<exists>p1. pg_init opts import_driver run p = (Inr (), p1) \<and> po_open p1 \<and> up (po_db p1) \<and> tbl (po_db p1) = tbl d1 \<and>
    (\<forall>d2. pool_end (po_db p1) = (Inr (), d2) \<longrightarrow>
      (let p2 = snd (pg_close pool_end p1) in
        pg_get opts run s k p2 = (Inl (NotInitialised ''PostgresAdapter''), p2) \<and>
        pg_set opts run s k x now p2 = (Inl (NotInitialised ''PostgresAdapter''), p2) \<and>
        pg_delete opts run s k p2 = (Inl (NotInitialised ''PostgresAdapter''), p2) \<and>
        pg_getMany opts run s [] p2 = (Inr [], p2)))"
proof -
  have "\<exists>res d2. run [(CreateTable, [])] d1 = (Inr res, d2) \<and> up d2"
    by (rule sql_client.run_up [OF assms(1,4)]) simp
  then obtain res d2 where run: "run [(CreateTable, [])] d1 = (Inr res, d2)" and up: "up d2" by blast
  with sql_client.run_ok [OF assms(1) run] have t: "tbl d2 = tbl d1" by auto
  let ?q = "p\<lparr>po_db := d1, po_open := True\<rparr>" and ?p1 = "p\<lparr>po_db := d2, po_open := True\<rparr>"
  have "po_lift (run [(CreateTable, [])]) ?q = (Inr res, ?p1)" using run by (simp add: po_lift_eq)
  from with_retry_returns [where fn = "po_lift (run [(CreateTable, [])])", OF this assms(2)] assms(3)
  have "pg_init opts import_driver run p = (Inr (), ?p1)"
    by (simp add: pg_init_def po_init_def base_withRetry_def thenA_def bindA_def po_lift_def)
  moreover have "let p2 = snd (pg_close pool_end ?p1) in
        pg_get opts run s k p2 = (Inl (NotInitialised ''PostgresAdapter''), p2) \<and>
        pg_set opts run s k x now p2 = (Inl (NotInitialised ''PostgresAdapter''), p2) \<and>
        pg_delete opts run s k p2 = (Inl (NotInitialised ''PostgresAdapter''), p2) \<and>
        pg_getMany opts run s [] p2 = (Inr [], p2)" if "pool_end (po_db ?p1) = (Inr (), d3)" for d3
  proof -
    from that have "\<not> po_open (snd (pg_close pool_end ?p1))"
      by (simp add: pg_close_def po_close_def thenA_def bindA_def po_lift_def)
    from pg_closed [OF this assms(2)] show ?thesis
      by (simp add: Let_def pg_set_def pg_delete_def)
  qed
  ultimately show ?thesis using up t by (intro exI [of _ ?p1]) auto
qed

lemma postgres_lifecycle_witness:
  "\<exists>p1. pg_init None (ret ()) (mem_run pg_dialect) \<lparr>po_open = False, po_db = \<lparr>ms_rows = [], ms_faults = []\<rparr>\<rparr> = (Inr (), p1) \<and>
    po_open p1"
  using postgres_lifecycle [where lsid = "\<lambda>_. True" and lkey = "\<lambda>_. True" and run = "mem_run pg_dialect" and tbl = ms_rows
      and up = mem_up and opts = None and import_driver = "ret ()" and ?d1.0 = "\<lparr>ms_rows = [], ms_faults = []\<rparr>"
      and p = "\<lparr>po_open = False, po_db = \<lparr>ms_rows = [], ms_faults = []\<rparr>\<rparr>"]
  by (fastforce intro!: mem_client id_names
      simp: pg_dialect_def mem_up_def may_retry_def resolve_retry_def opt_field_def DEFAULT_RETRIES_def)

end
