(* ===== verification/MysqlAdapter.thy ===== *)
theory MysqlAdapter
  imports SqlMemory
begin

text \<open>
  \<^verbatim>\<open>src/adapters/mysql-adapter.ts\<close>. The \<open>mysql2\<close> pool is the parameter \<open>run\<close> (one query),
  \<open>import_driver\<close> (\<open>await import('mysql2/promise')\<close>) and \<open>pool_end\<close>. Keys are VARCHAR columns, so
  the server compares them under a collation \<open>coll\<close>; the placeholders \<open>?\<close> of a text are numbered in
  order, and an upsert may touch a row twice.
\<close>

definition my_dialect :: "(string \<Rightarrow> string) \<Rightarrow> dialect" where
  "my_dialect coll = \<lparr>dl_coll = coll, dl_dup_error = False\<rparr>"

definition my_client :: "(sql_batch \<Rightarrow> ('s, sql_result) io) \<Rightarrow> sql_stmt \<Rightarrow> sql_param list \<Rightarrow> ('s pooled, sql_result) io" where
  "my_client run st ps = po_query ''MysqlAdapter'' run [(st, ps)]"

definition my_withRetry :: "retry_options option \<Rightarrow> ('s pooled, 'a) io \<Rightarrow> string \<Rightarrow> ('s pooled, 'a) io" where
  "my_withRetry opts fn label = base_withRetry ''mysql'' opts fn label"

definition my_get ::
  "retry_options option \<Rightarrow> (sql_batch \<Rightarrow> ('s, sql_result) io) \<Rightarrow> string \<Rightarrow> string \<Rightarrow>
    ('s pooled, session_record option) io" where
  "my_get opts run sessionId key =
     bindA (my_withRetry opts (my_client run (SelectByKey 1 2) [PStr sessionId, PStr key]) ''get'')
       (\<lambda>res. ret (first_record (rows_of res)))"

definition my_getMany ::
  "retry_options option \<Rightarrow> (sql_batch \<Rightarrow> ('s, sql_result) io) \<Rightarrow> string \<Rightarrow> string list \<Rightarrow>
    ('s pooled, (string \<times> session_record) list) io" where
  "my_getMany opts run sessionId keys =
     (if keys = [] then ret []
      else let placeholders = qmarks 2 (length keys) in
        bindA (my_withRetry opts (my_client run (SelectByKeys 1 (InParams placeholders)) (PStr sessionId # map PStr keys)) ''getMany'')
        (\<lambda>res. ret (record_map (rows_of res))))"

definition my_setMany ::
  "retry_options option \<Rightarrow> (sql_batch \<Rightarrow> ('s, sql_result) io) \<Rightarrow> string \<Rightarrow> (string \<times> jstr) list \<Rightarrow> int \<Rightarrow>
    ('s pooled, unit) io" where
  "my_setMany opts run sessionId entries now =
     (if entries = [] then ret ()
      else
        (let values = map quad [0..<length entries];
             params = quad_params sessionId now entries
         in thenA (my_withRetry opts (my_client run (InsertOnConflictUpdate values) params) ''setMany'') (ret ())))"

definition my_set ::
  "retry_options option \<Rightarrow> (sql_batch \<Rightarrow> ('s, sql_result) io) \<Rightarrow> string \<Rightarrow> string \<Rightarrow> jstr \<Rightarrow> int \<Rightarrow>
    ('s pooled, unit) io" where
  "my_set opts run sessionId key value now = my_setMany opts run sessionId [(key, value)] now"

definition my_deleteMany ::
  "retry_options option \<Rightarrow> (sql_batch \<Rightarrow> ('s, sql_result) io) \<Rightarrow> string \<Rightarrow> string list \<Rightarrow> ('s pooled, unit) io" where
  "my_deleteMany opts run sessionId keys =
     (if keys = [] then ret ()
      else let placeholders = qmarks 2 (length keys) in
        thenA (my_withRetry opts (my_client run (DeleteByKeys 1 (InParams placeholders)) (PStr sessionId # map PStr keys)) ''deleteMany'')
        (ret ()))"

definition my_delete ::
  "retry_options option \<Rightarrow> (sql_batch \<Rightarrow> ('s, sql_result) io) \<Rightarrow> string \<Rightarrow> string \<Rightarrow> ('s pooled, unit) io" where
  "my_delete opts run sessionId key = my_deleteMany opts run sessionId [key]"

definition my_getAllKeys ::
  "retry_options option \<Rightarrow> (sql_batch \<Rightarrow> ('s, sql_result) io) \<Rightarrow> string \<Rightarrow> ('s pooled, string list) io" where
  "my_getAllKeys opts run sessionId =
     bindA (my_withRetry opts (my_client run (SelectKeys 1) [PStr sessionId]) ''getAllKeys'')
       (\<lambda>res. ret (strs_of res))"

definition my_deleteSession ::
  "retry_options option \<Rightarrow> (sql_batch \<Rightarrow> ('s, sql_result) io) \<Rightarrow> string \<Rightarrow> ('s pooled, unit) io" where
  "my_deleteSession opts run sessionId =
     thenA (my_withRetry opts (my_client run (DeleteBySession 1) [PStr sessionId]) ''deleteSession'') (ret ())"

definition my_listSessions ::
  "retry_options option \<Rightarrow> (sql_batch \<Rightarrow> ('s, sql_result) io) \<Rightarrow> ('s pooled, string list) io" where
  "my_listSessions opts run =
     bindA (my_withRetry opts (my_client run SelectDistinctSessions []) ''listSessions'') (\<lambda>res. ret (strs_of res))"

definition my_sessionExists ::
  "retry_options option \<Rightarrow> (sql_batch \<Rightarrow> ('s, sql_result) io) \<Rightarrow> string \<Rightarrow> ('s pooled, bool) io" where
  "my_sessionExists opts run sessionId =
     bindA (my_withRetry opts (my_client run (SelectOneBySession 1) [PStr sessionId]) ''sessionExists'')
       (\<lambda>res. ret (strs_of res \<noteq> []))"

definition my_init ::
  "retry_options option \<Rightarrow> ('s, unit) io \<Rightarrow> (sql_batch \<Rightarrow> ('s, sql_result) io) \<Rightarrow> ('s pooled, unit) io" where
  "my_init opts import_driver run = po_init ''mysql'' opts import_driver run"

definition my_close :: "('s, unit) io \<Rightarrow> ('s pooled, unit) io" where
  "my_close pool_end = po_close pool_end"

definition my_adapter ::
  "retry_options option \<Rightarrow> ('s, unit) io \<Rightarrow> ('s, unit) io \<Rightarrow> (sql_batch \<Rightarrow> ('s, sql_result) io) \<Rightarrow> 's pooled adapter" where
  "my_adapter opts import_driver pool_end run =
     \<lparr>ad_name = ''mysql'', ad_init = my_init opts import_driver run,
      ad_get = my_get opts run, ad_getMany = my_getMany opts run,
      ad_set = my_set opts run, ad_setMany = my_setMany opts run,
      ad_delete = my_delete opts run, ad_deleteMany = my_deleteMany opts run,
      ad_getAllKeys = my_getAllKeys opts run, ad_deleteSession = my_deleteSession opts run,
      ad_listSessions = my_listSessions opts run, ad_sessionExists = my_sessionExists opts run,
      ad_close = my_close pool_end\<rparr>"

lemmas my_defs = my_adapter_def my_get_def my_getMany_def my_setMany_def my_set_def my_deleteMany_def my_delete_def
  my_getAllKeys_def my_deleteSession_def my_listSessions_def my_sessionExists_def my_client_def my_withRetry_def

section \<open>The statements mean what the adapter promises\<close>

lemma my_sends:
  "sends dia [(SelectByKey 1 2, [PStr s, PStr k])] (CGet s k)"
  "sends dia [(SelectByKeys 1 (InParams (qmarks 2 (length ks))), PStr s # map PStr ks)] (CGetIn s ks)"
  "sends dia [(DeleteByKeys 1 (InParams (qmarks 2 (length ks))), PStr s # map PStr ks)] (CDeleteIn s ks)"
  "sends dia [(SelectKeys 1, [PStr s])] (CKeys s)"
  "sends dia [(DeleteBySession 1, [PStr s])] (CWipe s)"
  "sends dia [(SelectDistinctSessions, [])] CSessions"
  "sends dia [(SelectOneBySession 1, [PStr s])] (CExists s)"
  by (simp_all add: sends_def str_param_def bind_qmarks del: bind_keys.simps)

lemma my_is_sql_adapter:
  assumes "sql_client (my_dialect coll) lsid lkey run tbl up" and "may_retry opts"
  shows "sql_adapter (my_dialect coll) lsid lkey (po_query ''MysqlAdapter'' run) (\<lambda>p. tbl (po_db p))
    (\<lambda>p. po_open p \<and> up (po_db p)) (my_adapter opts import_driver pool_end run) ''mysql'' opts
    (\<lambda>s k. [(SelectByKey 1 2, [PStr s, PStr k])])
    (\<lambda>s ks. [(SelectByKeys 1 (InParams (qmarks 2 (length ks))), PStr s # map PStr ks)])
    (\<lambda>s es now. [(InsertOnConflictUpdate (map quad [0..<length es]), quad_params s now es)])
    (\<lambda>s ks. [(DeleteByKeys 1 (InParams (qmarks 2 (length ks))), PStr s # map PStr ks)])
    (\<lambda>s. [(SelectKeys 1, [PStr s])]) (\<lambda>s. [(DeleteBySession 1, [PStr s])])
    [(SelectDistinctSessions, [])] (\<lambda>s. [(SelectOneBySession 1, [PStr s])])"
  by (intro sql_adapter.intro sql_adapter_axioms.intro pooled_client assms my_sends sends_multi_upsert)
    (simp_all add: my_defs Let_def query_ok_return)

abbreviation my_view ::
  "(string \<Rightarrow> string) \<Rightarrow> (string \<Rightarrow> bool) \<Rightarrow> (string \<Rightarrow> bool) \<Rightarrow> ('s \<Rightarrow> table) \<Rightarrow> 's pooled \<Rightarrow> db_view" where
  "my_view coll lsid lkey tbl \<equiv> store_view (my_dialect coll) lsid lkey (\<lambda>p. tbl (po_db p))"

interpretation my_mem: sql_adapter "my_dialect (\<lambda>s. s)" "\<lambda>_. True" "\<lambda>_. True"
    "po_query ''MysqlAdapter'' (mem_run (my_dialect (\<lambda>s. s)))" "\<lambda>p. ms_rows (po_db p)" "\<lambda>p. po_open p \<and> mem_up (po_db p)"
    "my_adapter None (ret ()) (ret ()) (mem_run (my_dialect (\<lambda>s. s)))" "''mysql''" None
    "\<lambda>s k. [(SelectByKey 1 2, [PStr s, PStr k])]"
    "\<lambda>s ks. [(SelectByKeys 1 (InParams (qmarks 2 (length ks))), PStr s # map PStr ks)]"
    "\<lambda>s es now. [(InsertOnConflictUpdate (map quad [0..<length es]), quad_params s now es)]"
    "\<lambda>s ks. [(DeleteByKeys 1 (InParams (qmarks 2 (length ks))), PStr s # map PStr ks)]"
    "\<lambda>s. [(SelectKeys 1, [PStr s])]" "\<lambda>s. [(DeleteBySession 1, [PStr s])]"
    "[(SelectDistinctSessions, [])]" "\<lambda>s. [(SelectOneBySession 1, [PStr s])]"
  by (intro my_is_sql_adapter mem_client id_names)
    (simp_all add: my_dialect_def may_retry_def resolve_retry_def opt_field_def DEFAULT_RETRIES_def)

section \<open>Properties\<close>

text \<open>With names that the collation of the key columns keeps apart, the MySQL adapter is a
  versioned store of records, over any server and driver that execute the statements: every read
  returns what is stored, every write that returns has stored its entries with the time given
  and a higher version, a write that throws did all or nothing.\<close>

lemma mysql_refines_store:
  assumes "sql_client (my_dialect coll) lsid lkey run tbl up" and "may_retry opts"
  shows "versioned_store (my_adapter opts import_driver pool_end run) (my_view coll lsid lkey tbl)
    (store_ok lsid lkey (\<lambda>p. tbl (po_db p))) (\<lambda>p. po_open p \<and> up (po_db p)) lsid lkey"
  by (rule sql_adapter.is_versioned_store [OF my_is_sql_adapter [OF assms]])

lemma mysql_refines_store_witness:
  "versioned_store (my_adapter None (ret ()) (ret ()) (mem_run (my_dialect rev))) (my_view rev (\<lambda>_. True) (\<lambda>_. True) ms_rows)
    (store_ok (\<lambda>_. True) (\<lambda>_. True) (\<lambda>p. ms_rows (po_db p))) (\<lambda>p. po_open p \<and> mem_up (po_db p)) (\<lambda>_. True) (\<lambda>_. True)"
  by (rule mysql_refines_store [OF mem_client may_retry_None]) (unfold_locales, auto simp: my_dialect_def)

lemma my_set_healthy:
  "my_set None (mem_run (my_dialect coll)) s k v now \<lparr>po_open = True, po_db = \<lparr>ms_rows = t, ms_faults = []\<rparr>\<rparr> =
    (Inr (), \<lparr>po_open = True, po_db = \<lparr>ms_rows = upsert_row coll (s, k, v, now) t, ms_faults = []\<rparr>\<rparr>)"
proof -
  have "exec_batch (my_dialect coll) [(InsertOnConflictUpdate (map quad [0..<length [(k, v)]]), quad_params s now [(k, v)])] t =
      exec_cmd (my_dialect coll) (CUpsert (rows_for s now [(k, v)])) t"
    using sends_multi_upsert by (simp only: sends_def)
  from mem_pooled_healthy [OF this [unfolded exec_cmd.simps my_dialect_def dialect.simps simp_thms if_False] may_retry_None]
  show ?thesis
    by (simp add: my_set_def my_setMany_def Let_def thenA_def bindA_def my_withRetry_def my_client_def
        rows_for_def my_dialect_def del: exec_batch.simps)
qed

lemma my_get_healthy:
  "my_get None (mem_run (my_dialect coll)) s k \<lparr>po_open = True, po_db = \<lparr>ms_rows = t, ms_faults = []\<rparr>\<rparr> =
    (Inr (first_record (filter (row_matches coll s k) t)), \<lparr>po_open = True, po_db = \<lparr>ms_rows = t, ms_faults = []\<rparr>\<rparr>)"
  by (simp add: my_get_def bindA_def my_withRetry_def my_client_def my_dialect_def str_param_def
      mem_pooled_healthy [OF _ may_retry_None])

lemma my_getMany_healthy:
  "ks \<noteq> [] \<Longrightarrow> my_getMany None (mem_run (my_dialect coll)) s ks \<lparr>po_open = True, po_db = \<lparr>ms_rows = t, ms_faults = []\<rparr>\<rparr> =
    (Inr (record_map (filter (\<lambda>r. \<exists>k \<in> set ks. row_matches coll s k r) t)),
     \<lparr>po_open = True, po_db = \<lparr>ms_rows = t, ms_faults = []\<rparr>\<rparr>)"
  by (simp add: my_getMany_def Let_def bindA_def my_withRetry_def my_client_def my_dialect_def str_param_def bind_qmarks
      mem_pooled_healthy [OF _ may_retry_None] del: bind_keys.simps)

text \<open>Under a collation that does not keep two keys apart (MySQL's default ignores case), the
  second key overwrites the first: after \<open>set(s, k1, v1)\<close> and \<open>set(s, k2, v2)\<close> on an empty table,
  \<open>get(s, k1)\<close> returns \<open>v2\<close>, and the batch read of \<open>k2\<close> returns a map without \<open>k2\<close>.\<close>

lemma mysql_collation_merges_keys:
  assumes "coll k1 = coll k2" and "k1 \<noteq> k2"
  shows "let run = mem_run (my_dialect coll);
             p1 = snd (my_set None run s k1 v1 t1 \<lparr>po_open = True, po_db = \<lparr>ms_rows = [], ms_faults = []\<rparr>\<rparr>);
             p2 = snd (my_set None run s k2 v2 t2 p1)
    in (\<exists>r. fst (my_get None run s k1 p2) = Inr (Some r) \<and> sr_value r = v2) \<and>
       (\<exists>m. fst (my_getMany None run s [k2] p2) = Inr m \<and> keys_of m = [k1])"
  using assms
  by (simp add: Let_def my_set_healthy my_get_healthy my_getMany_healthy row_matches_def first_record_def
      record_map_def row_record_def)

lemma mysql_collation_merges_keys_witness:
  "\<exists>m. fst (my_getMany None (mem_run (my_dialect (\<lambda>_. []))) ''bot'' [''b'']
      (snd (my_set None (mem_run (my_dialect (\<lambda>_. []))) ''bot'' ''b'' (lit ''2'') 2
      (snd (my_set None (mem_run (my_dialect (\<lambda>_. []))) ''bot'' ''B'' (lit ''1'') 1
        \<lparr>po_open = True, po_db = \<lparr>ms_rows = [], ms_faults = []\<rparr>\<rparr>))))) = Inr m \<and> keys_of m = [''B'']"
  by (rule conjunct2 [OF mysql_collation_merges_keys [unfolded Let_def, where coll = "\<lambda>_. []"]]) simp_all

end
