(* ===== verification/SqliteWorker.thy ===== *)
theory SqliteWorker
  imports D1Adapter
begin

text \<open>
  \<^verbatim>\<open>src/adapters/sqlite-worker.ts\<close>: the message handler that runs inside the worker thread. The
  synchronous driver \<open>better-sqlite3\<close> is the parameter \<open>run\<close> (one statement, or the statements of a
  transaction) and \<open>close_db\<close>. A request names an operation and carries its arguments; the answer
  carries the request's id and a result, or the message of the error that was thrown.
\<close>

datatype worker_arg = AStr string | AStrs "string list" | AEntries "(string \<times> jstr) list"

datatype worker_result =
  WNull | WRow "sql_row option" | WRows "sql_row list" | WStrs "string list" | WBool bool

record worker_request =
  rq_id :: nat
  rq_op :: string
  rq_args :: "worker_arg list"

datatype worker_response = RespOk nat worker_result | RespErr nat string

record 's worker_db =
  wd_run :: "sql_batch \<Rightarrow> ('s, sql_result) io"
  wd_close :: "('s, unit) io"

text \<open>\<open>error instanceof Error ? error.message : String(error)\<close>\<close>

fun error_message :: "error \<Rightarrow> string" where
  "error_message (DriverError m) = m"
| "error_message (UnknownOp op) = ''Unknown sqlite worker op: '' @ op"
| "error_message (WorkerFailed m) = m"
| "error_message (TypeError m) = m"
| "error_message UndefinedThrown = ''undefined''"
| "error_message _ = []"

definition wk_init :: "'s worker_db \<Rightarrow> ('s, worker_result) io" where
  "wk_init D = thenA (wd_run D [(CreateTable, [])]) (ret WNull)"

definition wk_get :: "'s worker_db \<Rightarrow> string \<Rightarrow> string \<Rightarrow> ('s, worker_result) io" where
  "wk_get D sessionId key =
     bindA (wd_run D [(SelectByKey 1 2, [PStr sessionId, PStr key])])
       (\<lambda>res. ret (WRow (case rows_of res of [] \<Rightarrow> None | row # _ \<Rightarrow> Some row)))"

definition wk_getMany :: "'s worker_db \<Rightarrow> string \<Rightarrow> string list \<Rightarrow> ('s, worker_result) io" where
  "wk_getMany D sessionId keys =
     (if keys = [] then ret (WRows [])
      else let placeholders = qmarks 2 (length keys) in
        bindA (wd_run D [(SelectByKeys 1 (InParams placeholders), PStr sessionId # map PStr keys)])
          (\<lambda>res. ret (WRows (rows_of res))))"

text \<open>\<open>upsert.run({ sessionId, key, value, updatedAt })\<close> for every row of one transaction.\<close>

definition wk_upsert :: "string \<Rightarrow> int \<Rightarrow> string \<times> jstr \<Rightarrow> sql_stmt \<times> sql_param list" where
  "wk_upsert sessionId now = (\<lambda>(key, value).
     (InsertOnConflictUpdate [(1, 2, 3, 4)], [PStr sessionId, PStr key, PText value, PInt now]))"

definition wk_setMany :: "'s worker_db \<Rightarrow> string \<Rightarrow> (string \<times> jstr) list \<Rightarrow> int \<Rightarrow> ('s, worker_result) io" where
  "wk_setMany D sessionId entries now = thenA (wd_run D (map (wk_upsert sessionId now) entries)) (ret WNull)"

definition wk_deleteMany :: "'s worker_db \<Rightarrow> string \<Rightarrow> string list \<Rightarrow> ('s, worker_result) io" where
  "wk_deleteMany D sessionId keys =
     (if keys = [] then ret WNull
      else let placeholders = qmarks 2 (length keys) in
        thenA (wd_run D [(DeleteByKeys 1 (InParams placeholders), PStr sessionId # map PStr keys)]) (ret WNull))"

definition wk_getAllKeys :: "'s worker_db \<Rightarrow> string \<Rightarrow> ('s, worker_result) io" where
  "wk_getAllKeys D sessionId =
     bindA (wd_run D [(SelectKeys 1, [PStr sessionId])]) (\<lambda>res. ret (WStrs (strs_of res)))"

definition wk_deleteSession :: "'s worker_db \<Rightarrow> string \<Rightarrow> ('s, worker_result) io" where
  "wk_deleteSession D sessionId = thenA (wd_run D [(DeleteBySession 1, [PStr sessionId])]) (ret WNull)"

definition wk_listSessions :: "'s worker_db \<Rightarrow> ('s, worker_result) io" where
  "wk_listSessions D = bindA (wd_run D [(SelectDistinctSessions, [])]) (\<lambda>res. ret (WStrs (strs_of res)))"

definition wk_sessionExists :: "'s worker_db \<Rightarrow> string \<Rightarrow> ('s, worker_result) io" where
  "wk_sessionExists D sessionId =
     bindA (wd_run D [(SelectOneBySession 1, [PStr sessionId])]) (\<lambda>res. ret (WBool (strs_of res \<noteq> [])))"

text \<open>The \<open>switch\<close>. The casts of the arguments are unchecked in the source; an argument of the wrong
  type cannot be bound by the driver, which throws.\<close>

definition bad_args :: "('s, worker_result) io" where
  "bad_args = raise (DriverError ''cannot bind arguments'')"

definition wk_dispatch :: "'s worker_db \<Rightarrow> int \<Rightarrow> string \<Rightarrow> worker_arg list \<Rightarrow> ('s, worker_result) io" where
  "wk_dispatch D now op args =
     (if op = ''init'' then wk_init D
      else if op = ''get'' then (case args of AStr s # AStr k # _ \<Rightarrow> wk_get D s k | _ \<Rightarrow> bad_args)
      else if op = ''getMany'' then (case args of AStr s # AStrs ks # _ \<Rightarrow> wk_getMany D s ks | _ \<Rightarrow> bad_args)
      else if op = ''setMany'' then (case args of AStr s # AEntries es # _ \<Rightarrow> wk_setMany D s es now | _ \<Rightarrow> bad_args)
      else if op = ''deleteMany'' then (case args of AStr s # AStrs ks # _ \<Rightarrow> wk_deleteMany D s ks | _ \<Rightarrow> bad_args)
      else if op = ''getAllKeys'' then (case args of AStr s # _ \<Rightarrow> wk_getAllKeys D s | _ \<Rightarrow> bad_args)
      else if op = ''deleteSession'' then (case args of AStr s # _ \<Rightarrow> wk_deleteSession D s | _ \<Rightarrow> bad_args)
      else if op = ''listSessions'' then wk_listSessions D
      else if op = ''sessionExists'' then (case args of AStr s # _ \<Rightarrow> wk_sessionExists D s | _ \<Rightarrow> bad_args)
      else if op = ''close'' then thenA (wd_close D) (ret WNull)
      else raise (UnknownOp op))"

text \<open>\<open>parentPort.on('message', \<dots>)\<close>: every request is answered, an exception becomes an answer.\<close>

definition wk_onMessage :: "'s worker_db \<Rightarrow> int \<Rightarrow> worker_request \<Rightarrow> 's \<Rightarrow> worker_response \<times> 's" where
  "wk_onMessage D now req d =
     (case wk_dispatch D now (rq_op req) (rq_args req) d of
        (Inr result, d') \<Rightarrow> (RespOk (rq_id req) result, d')
      | (Inl e, d') \<Rightarrow> (RespErr (rq_id req) (error_message e), d'))"

fun resp_id :: "worker_response \<Rightarrow> nat" where
  "resp_id (RespOk i _) = i"
| "resp_id (RespErr i _) = i"

lemma wk_onMessage_id [simp]: "resp_id (fst (wk_onMessage D now req d)) = rq_id req"
  by (auto simp: wk_onMessage_def split: prod.splits sum.splits)

lemma wk_upsert_eq: "wk_upsert = d1_upsert"
  by (simp add: fun_eq_iff wk_upsert_def d1_upsert_def)

text \<open>The request type lists \<open>set\<close> and \<open>delete\<close>, which the switch does not handle.\<close>

lemma wk_unhandled:
  "wk_onMessage D now \<lparr>rq_id = i, rq_op = ''set'', rq_args = args\<rparr> d = (RespErr i ''Unknown sqlite worker op: set'', d)"
  "wk_onMessage D now \<lparr>rq_id = i, rq_op = ''delete'', rq_args = args\<rparr> d = (RespErr i ''Unknown sqlite worker op: delete'', d)"
  by (simp_all add: wk_onMessage_def wk_dispatch_def)

end
