(* ===== verification/SqliteAdapter.thy ===== *)
theory SqliteAdapter
  imports SqliteWorker
begin

text \<open>
  \<^verbatim>\<open>src/adapters/sqlite-adapter.ts\<close>, one call at a time: \<open>ensureWorker\<close> starts the worker once and
  keeps the promise \<open>ready\<close>, resolved or rejected; \<open>call\<close> numbers a request, posts it, and settles
  with the worker's answer. The worker thread is \<open>wk_onMessage\<close>; what the source only calls
  (\<open>new Worker\<close>, which may throw, the thread opening the file, \<open>terminate\<close>) is the parameter \<open>sqlite_env\<close>. Calls that
  overlap, and a worker that dies, are the subject of the theory \<^verbatim>\<open>SqliteProtocol\<close>.

  The worker reads \<open>Date.now()\<close> when it executes \<open>setMany\<close>; here that time is an argument.
\<close>

record 's sqlite_env =
  se_spawn :: "'s \<Rightarrow> error option"
  se_start :: "('s, unit) io"
  se_db :: "'s worker_db"
  se_terminate :: "('s, unit) io"

record 's sqlite =
  sq_worker :: bool
  sq_ready :: "(error + unit) option"
  sq_nextRequestId :: nat
  sq_db :: 's

definition sq_lift :: "('s, 'a) io \<Rightarrow> ('s sqlite, 'a) io" where
  "sq_lift m st = (case m (sq_db st) of (r, d) \<Rightarrow> (r, st\<lparr>sq_db := d\<rparr>))"

text \<open>An exception of \<open>new Worker\<close> rejects the promise before \<open>this.worker\<close> is assigned.\<close>

definition sq_ensureWorker :: "'s sqlite_env \<Rightarrow> ('s sqlite, unit) io" where
  "sq_ensureWorker E st =
     (case sq_ready st of
        Some r \<Rightarrow> (r, st)
      | None \<Rightarrow> (case se_spawn E (sq_db st) of
          Some e \<Rightarrow> (Inl e, st\<lparr>sq_ready := Some (Inl e)\<rparr>)
        | None \<Rightarrow> (case se_start E (sq_db st) of
            (r, d) \<Rightarrow> (r, st\<lparr>sq_worker := True, sq_ready := Some r, sq_db := d\<rparr>))))"

definition sq_settle :: "worker_response \<Rightarrow> error + worker_result" where
  "sq_settle resp = (case resp of RespOk _ result \<Rightarrow> Inr result | RespErr _ msg \<Rightarrow> Inl (WorkerFailed msg))"

definition sq_post :: "'s sqlite_env \<Rightarrow> int \<Rightarrow> string \<Rightarrow> worker_arg list \<Rightarrow> ('s sqlite, worker_result) io" where
  "sq_post E now op args st =
     (let id = sq_nextRequestId st;
          req = \<lparr>rq_id = id, rq_op = op, rq_args = args\<rparr>;
          (resp, d) = wk_onMessage (se_db E) now req (sq_db st)
      in (sq_settle resp, st\<lparr>sq_nextRequestId := id + 1, sq_db := d\<rparr>))"

definition sq_call :: "'s sqlite_env \<Rightarrow> int \<Rightarrow> string \<Rightarrow> worker_arg list \<Rightarrow> ('s sqlite, worker_result) io" where
  "sq_call E now op args = thenA (sq_ensureWorker E) (sq_post E now op args)"

definition sq_withRetry :: "retry_options option \<Rightarrow> ('s sqlite, 'a) io \<Rightarrow> string \<Rightarrow> ('s sqlite, 'a) io" where
  "sq_withRetry opts fn label = base_withRetry ''sqlite'' opts fn label"

fun wrow :: "worker_result \<Rightarrow> sql_row option" where
  "wrow (WRow r) = r"
| "wrow _ = None"

fun wrows :: "worker_result \<Rightarrow> sql_row list" where
  "wrows (WRows rs) = rs"
| "wrows _ = []"

fun wstrs :: "worker_result \<Rightarrow> string list" where
  "wstrs (WStrs ss) = ss"
| "wstrs _ = []"

fun wbool :: "worker_result \<Rightarrow> bool" where
  "wbool (WBool b) = b"
| "wbool _ = False"

definition sq_init :: "retry_options option \<Rightarrow> 's sqlite_env \<Rightarrow> ('s sqlite, unit) io" where
  "sq_init opts E = thenA (sq_withRetry opts (sq_call E 0 ''init'' []) ''init'') (ret ())"

definition sq_get ::
  "retry_options option \<Rightarrow> 's sqlite_env \<Rightarrow> string \<Rightarrow> string \<Rightarrow> ('s sqlite, session_record option) io" where
  "sq_get opts E sessionId key =
     bindA (sq_withRetry opts (sq_call E 0 ''get'' [AStr sessionId, AStr key]) ''get'')
       (\<lambda>r. ret (map_option row_record (wrow r)))"

definition sq_getMany ::
  "retry_options option \<Rightarrow> 's sqlite_env \<Rightarrow> string \<Rightarrow> string list \<Rightarrow> ('s sqlite, (string \<times> session_record) list) io" where
  "sq_getMany opts E sessionId keys =
     bindA (sq_withRetry opts (sq_call E 0 ''getMany'' [AStr sessionId, AStrs keys]) ''getMany'')
       (\<lambda>r. ret (record_map (wrows r)))"

definition sq_setMany ::
  "retry_options option \<Rightarrow> 's sqlite_env \<Rightarrow> string \<Rightarrow> (string \<times> jstr) list \<Rightarrow> int \<Rightarrow> ('s sqlite, unit) io" where
  "sq_setMany opts E sessionId entries now =
     (if entries = [] then ret ()
      else thenA (sq_withRetry opts (sq_call E now ''setMany'' [AStr sessionId, AEntries entries]) ''setMany'') (ret ()))"

definition sq_set ::
  "retry_options option \<Rightarrow> 's sqlite_env \<Rightarrow> string \<Rightarrow> string \<Rightarrow> jstr \<Rightarrow> int \<Rightarrow> ('s sqlite, unit) io" where
  "sq_set opts E sessionId key value now = sq_setMany opts E sessionId [(key, value)] now"

definition sq_deleteMany ::
  "retry_options option \<Rightarrow> 's sqlite_env \<Rightarrow> string \<Rightarrow> string list \<Rightarrow> ('s sqlite, unit) io" where
  "sq_deleteMany opts E sessionId keys =
     (if keys = [] then ret ()
      else thenA (sq_withRetry opts (sq_call E 0 ''deleteMany'' [AStr sessionId, AStrs keys]) ''deleteMany'') (ret ()))"

definition sq_delete :: "retry_options option \<Rightarrow> 's sqlite_env \<Rightarrow> string \<Rightarrow> string \<Rightarrow> ('s sqlite, unit) io" where
  "sq_delete opts E sessionId key = sq_deleteMany opts E sessionId [key]"

definition sq_getAllKeys :: "retry_options option \<Rightarrow> 's sqlite_env \<Rightarrow> string \<Rightarrow> ('s sqlite, string list) io" where
  "sq_getAllKeys opts E sessionId =
     bindA (sq_withRetry opts (sq_call E 0 ''getAllKeys'' [AStr sessionId]) ''getAllKeys'') (\<lambda>r. ret (wstrs r))"

definition sq_deleteSession :: "retry_options option \<Rightarrow> 's sqlite_env \<Rightarrow> string \<Rightarrow> ('s sqlite, unit) io" where
  "sq_deleteSession opts E sessionId =
     thenA (sq_withRetry opts (sq_call E 0 ''deleteSession'' [AStr sessionId]) ''deleteSession'') (ret ())"

definition sq_listSessions :: "retry_options option \<Rightarrow> 's sqlite_env \<Rightarrow> ('s sqlite, string list) io" where
  "sq_listSessions opts E =
     bindA (sq_withRetry opts (sq_call E 0 ''listSessions'' []) ''listSessions'') (\<lambda>r. ret (wstrs r))"

definition sq_sessionExists :: "retry_options option \<Rightarrow> 's sqlite_env \<Rightarrow> string \<Rightarrow> ('s sqlite, bool) io" where
  "sq_sessionExists opts E sessionId =
     bindA (sq_withRetry opts (sq_call E 0 ''sessionExists'' [AStr sessionId]) ''sessionExists'') (\<lambda>r. ret (wbool r))"

text \<open>\<open>close\<close>: nothing without a worker; else \<open>call('close')\<close> with its error swallowed, \<open>terminate\<close>,
  and both fields back to null, so that the next call starts a new worker.\<close>

definition sq_close :: "'s sqlite_env \<Rightarrow> ('s sqlite, unit) io" where
  "sq_close E st =
     (if \<not> sq_worker st then (Inr (), st)
      else (let st1 = snd (sq_call E 0 ''close'' [] st)
            in thenA (sq_lift (se_terminate E)) (\<lambda>st2. (Inr (), st2\<lparr>sq_worker := False, sq_ready := None\<rparr>)) st1))"

definition sq_adapter :: "retry_options option \<Rightarrow> 's sqlite_env \<Rightarrow> 's sqlite adapter" where
  "sq_adapter opts E =
     \<lparr>ad_name = ''sqlite'', ad_init = sq_init opts E,
      ad_get = sq_get opts E, ad_getMany = sq_getMany opts E,
      ad_set = sq_set opts E, ad_setMany = sq_setMany opts E,
      ad_delete = sq_delete opts E, ad_deleteMany = sq_deleteMany opts E,
      ad_getAllKeys = sq_getAllKeys opts E, ad_deleteSession = sq_deleteSession opts E,
      ad_listSessions = sq_listSessions opts E, ad_sessionExists = sq_sessionExists opts E,
      ad_close = sq_close E\<rparr>"

section \<open>A call runs its statement in the worker\<close>

text \<open>What a call amounts to: start the worker if need be, run the batch, count the request.\<close>

definition sq_exec :: "'s sqlite_env \<Rightarrow> sql_batch \<Rightarrow> ('s sqlite, sql_result) io" where
  "sq_exec E b = thenA (sq_ensureWorker E) (\<lambda>st.
     (case wd_run (se_db E) b (sq_db st) of (r, d) \<Rightarrow>
       (map_sum (\<lambda>e. WorkerFailed (error_message e)) (\<lambda>x. x) r,
        st\<lparr>sq_nextRequestId := sq_nextRequestId st + 1, sq_db := d\<rparr>)))"

lemma sq_call_exec:
  assumes "wk_dispatch (se_db E) now op args = bindA (wd_run (se_db E) b) (\<lambda>res. ret (f res))"
  shows "sq_call E now op args = bindA (sq_exec E b) (\<lambda>res. ret (f res))"
proof
  fix st
  show "sq_call E now op args st = bindA (sq_exec E b) (\<lambda>res. ret (f res)) st"
    by (auto simp: sq_call_def sq_exec_def thenA_def bindA_def sq_post_def wk_onMessage_def assms sq_settle_def Let_def
        split: prod.splits sum.splits)
qed

lemma sq_exec_Inr:
  assumes "sq_exec E b st = (Inr res, st')"
  obtains st1 d where "sq_ensureWorker E st = (Inr (), st1)" and "wd_run (se_db E) b (sq_db st1) = (Inr res, d)"
    and "sq_db st' = d"
proof -
  from assms obtain st1 where e: "sq_ensureWorker E st = (Inr (), st1)"
    and x: "(case wd_run (se_db E) b (sq_db st1) of (r, d) \<Rightarrow> (map_sum (\<lambda>e. WorkerFailed (error_message e)) (\<lambda>x. x) r,
        st1\<lparr>sq_nextRequestId := sq_nextRequestId st1 + 1, sq_db := d\<rparr>)) = (Inr res, st')"
    unfolding sq_exec_def thenA_eq_Inr by auto
  obtain r d where r: "wd_run (se_db E) b (sq_db st1) = (r, d)" by fastforce
  with x e that show thesis by (cases r) auto
qed

lemma sq_exec_Inl:
  assumes "sq_exec E b st = (Inl e, st')"
  obtains "sq_ensureWorker E st = (Inl e, st')"
    | st1 e' d where "sq_ensureWorker E st = (Inr (), st1)" and "wd_run (se_db E) b (sq_db st1) = (Inl e', d)"
      and "sq_db st' = d"
proof (cases "sq_ensureWorker E st = (Inl e, st')")
  case False
  with assms obtain st1 where e: "sq_ensureWorker E st = (Inr (), st1)"
    and x: "(case wd_run (se_db E) b (sq_db st1) of (r, d) \<Rightarrow> (map_sum (\<lambda>e. WorkerFailed (error_message e)) (\<lambda>x. x) r,
        st1\<lparr>sq_nextRequestId := sq_nextRequestId st1 + 1, sq_db := d\<rparr>)) = (Inl e, st')"
    unfolding sq_exec_def thenA_eq_Inl by auto
  obtain r d where r: "wd_run (se_db E) b (sq_db st1) = (r, d)" by fastforce
  with x e that(2) show thesis by (cases r) auto
qed (rule that(1))

lemma wk_dispatch_run:
  "wk_dispatch D now ''get'' [AStr s, AStr k] = bindA (wd_run D [(SelectByKey 1 2, [PStr s, PStr k])])
    (\<lambda>res. ret (WRow (case rows_of res of [] \<Rightarrow> None | row # _ \<Rightarrow> Some row)))"
  "ks \<noteq> [] \<Longrightarrow> wk_dispatch D now ''getMany'' [AStr s, AStrs ks] =
    bindA (wd_run D [(SelectByKeys 1 (InParams (qmarks 2 (length ks))), PStr s # map PStr ks)]) (\<lambda>res. ret (WRows (rows_of res)))"
  "wk_dispatch D now ''getMany'' [AStr s, AStrs []] = ret (WRows [])"
  "wk_dispatch D now ''setMany'' [AStr s, AEntries es] =
    bindA (wd_run D (map (d1_upsert s now) es)) (\<lambda>_. ret WNull)"
  "ks \<noteq> [] \<Longrightarrow> wk_dispatch D now ''deleteMany'' [AStr s, AStrs ks] =
    bindA (wd_run D [(DeleteByKeys 1 (InParams (qmarks 2 (length ks))), PStr s # map PStr ks)]) (\<lambda>_. ret WNull)"
  "wk_dispatch D now ''getAllKeys'' [AStr s] = bindA (wd_run D [(SelectKeys 1, [PStr s])]) (\<lambda>res. ret (WStrs (strs_of res)))"
  "wk_dispatch D now ''deleteSession'' [AStr s] = bindA (wd_run D [(DeleteBySession 1, [PStr s])]) (\<lambda>_. ret WNull)"
  "wk_dispatch D now ''listSessions'' [] = bindA (wd_run D [(SelectDistinctSessions, [])]) (\<lambda>res. ret (WStrs (strs_of res)))"
  "wk_dispatch D now ''sessionExists'' [AStr s] =
    bindA (wd_run D [(SelectOneBySession 1, [PStr s])]) (\<lambda>res. ret (WBool (strs_of res \<noteq> [])))"
  by (simp_all add: wk_dispatch_def wk_get_def wk_getMany_def wk_setMany_def wk_deleteMany_def wk_getAllKeys_def
      wk_deleteSession_def wk_listSessions_def wk_sessionExists_def wk_upsert_eq thenA_def Let_def)

lemmas sq_calls = wk_dispatch_run(1,2,4-9) [THEN sq_call_exec]

lemma sq_call_nothing:
  "sq_call E now ''getMany'' [AStr s, AStrs []] = thenA (sq_ensureWorker E)
    (\<lambda>st. (Inr (WRows []), st\<lparr>sq_nextRequestId := sq_nextRequestId st + 1\<rparr>))"
  by (auto simp: sq_call_def thenA_def fun_eq_iff bindA_def sq_post_def wk_onMessage_def wk_dispatch_run sq_settle_def Let_def
      split: prod.splits sum.splits)

section \<open>A client over the worker\<close>

text \<open>The connection is up when the file is, and the worker is running or has not been started.\<close>

definition sq_up :: "('s \<Rightarrow> bool) \<Rightarrow> 's sqlite \<Rightarrow> bool" where
  "sq_up up st \<longleftrightarrow> up (sq_db st) \<and> (sq_ready st = None \<or> sq_ready st = Some (Inr ()))"

locale sqlite_client = sql_client sqlite_dialect lsid lkey "wd_run (se_db E)" tbl sup
  for lsid :: "string \<Rightarrow> bool" and lkey :: "string \<Rightarrow> bool" and E :: "'s sqlite_env"
    and tbl :: "'s \<Rightarrow> table" and sup :: "'s \<Rightarrow> bool" +
  assumes start_tbl: "se_start E d = (r, d') \<Longrightarrow> tbl d' = tbl d"
    and start_up: "sup d \<Longrightarrow> se_spawn E d = None \<and> (\<exists>d'. se_start E d = (Inr (), d') \<and> sup d')"
begin

abbreviation up_sq :: "'s sqlite \<Rightarrow> bool" where
  "up_sq \<equiv> sq_up sup"

lemma ensure_tbl: "sq_ensureWorker E st = (r, st') \<Longrightarrow> tbl (sq_db st') = tbl (sq_db st)"
  by (auto simp: sq_ensureWorker_def split: option.splits prod.splits dest: start_tbl)

lemma ensure_up: "up_sq st \<Longrightarrow> \<exists>st'. sq_ensureWorker E st = (Inr (), st') \<and> up_sq st'"
  using start_up by (fastforce simp: sq_ensureWorker_def sq_up_def split: option.splits)

lemma exec_client: "sql_client sqlite_dialect lsid lkey (sq_exec E) (\<lambda>st. tbl (sq_db st)) up_sq"
proof (intro sql_client.intro sql_client_axioms.intro)
  show "sql_names sqlite_dialect lsid lkey" by (rule sql_names_axioms)
next
  fix b res and st st' :: "'s sqlite"
  assume "sq_exec E b st = (Inr res, st')"
  then obtain st1 d where e: "sq_ensureWorker E st = (Inr (), st1)" and "wd_run (se_db E) b (sq_db st1) = (Inr res, d)"
    and "sq_db st' = d"
    by (rule sq_exec_Inr)
  with run_ok [of b "sq_db st1" res d] ensure_tbl [OF e]
  show "\<exists>res0. exec_batch sqlite_dialect b (tbl (sq_db st)) = Some (res0, tbl (sq_db st')) \<and> same_result res0 res" by simp
next
  fix b e and st st' :: "'s sqlite"
  assume "sq_exec E b st = (Inl e, st')"
  then consider "sq_ensureWorker E st = (Inl e, st')"
    | st1 e' d where "sq_ensureWorker E st = (Inr (), st1)" "wd_run (se_db E) b (sq_db st1) = (Inl e', d)" "sq_db st' = d"
    by (rule sq_exec_Inl) auto
  then show "tbl (sq_db st') = tbl (sq_db st) \<or> (\<exists>res0. exec_batch sqlite_dialect b (tbl (sq_db st)) = Some (res0, tbl (sq_db st')))"
  proof cases
    case 1
    then show ?thesis using ensure_tbl by blast
  next
    case 2
    with run_err [OF 2(2)] ensure_tbl [OF 2(1)] show ?thesis by simp
  qed
next
  fix b and st :: "'s sqlite"
  assume u: "up_sq st" and x: "exec_batch sqlite_dialect b (tbl (sq_db st)) \<noteq> None"
  from ensure_up [OF u] obtain st1 where e: "sq_ensureWorker E st = (Inr (), st1)" and u1: "up_sq st1" by blast
  with ensure_tbl [OF e] x run_up [of "sq_db st1" b] obtain res d where "wd_run (se_db E) b (sq_db st1) = (Inr res, d)" "sup d"
    by (auto simp: sq_up_def)
  with e u1 show "\<exists>res st'. sq_exec E b st = (Inr res, st') \<and> up_sq st'"
    by (auto simp: sq_exec_def thenA_def bindA_def sq_up_def)
qed

lemma sq_getMany_Nil:
  assumes "store_ok lsid lkey (\<lambda>st. tbl (sq_db st)) st" and "may_retry opts"
  shows "query_ok (store_view sqlite_dialect lsid lkey (\<lambda>st. tbl (sq_db st))) (store_ok lsid lkey (\<lambda>st. tbl (sq_db st)))
    up_sq (sq_getMany opts E s []) st (\<lambda>m. m = [])"
  unfolding sq_getMany_def sq_withRetry_def base_withRetry_def
proof (rule query_ok_map [where P = "\<lambda>r. r = WRows []"],
    rule query_ok_retry [where v = "store_view sqlite_dialect lsid lkey (\<lambda>st. tbl (sq_db st)) st"])
  let ?ok = "store_ok lsid lkey (\<lambda>st. tbl (sq_db st))" and ?view = "store_view sqlite_dialect lsid lkey (\<lambda>st. tbl (sq_db st))"
  fix st :: "'s sqlite"
  assume ok: "?ok st"
  show "query_ok ?view ?ok up_sq (sq_call E 0 ''getMany'' [AStr s, AStrs []]) st (\<lambda>r. r = WRows [])"
  proof (rule query_okI)
    fix r st'
    assume "sq_call E 0 ''getMany'' [AStr s, AStrs []] st = (r, st')"
    then have "(\<exists>st1. sq_ensureWorker E st = (Inr (), st1) \<and> sq_db st' = sq_db st1 \<and> r = Inr (WRows [])) \<or>
        (\<exists>e. sq_ensureWorker E st = (Inl e, st') \<and> r = Inl e)"
      by (auto simp: sq_call_nothing thenA_def bindA_def split: prod.splits sum.splits)
    then have "tbl (sq_db st') = tbl (sq_db st) \<and> (\<forall>x. r = Inr x \<longrightarrow> x = WRows [])"
      by (auto dest: ensure_tbl)
    with ok show "?ok st' \<and> ?view st' = ?view st \<and> (\<forall>x. r = Inr x \<longrightarrow> x = WRows [])"
      by (simp add: store_ok_def store_view_def)
  next
    assume "up_sq st"
    from ensure_up [OF this] show "\<exists>x st'. sq_call E 0 ''getMany'' [AStr s, AStrs []] st = (Inr x, st') \<and> up_sq st'"
      by (auto simp: sq_call_nothing thenA_def bindA_def sq_up_def)
  qed
qed (use assms in \<open>simp_all add: record_map_def\<close>)

lemma first_record_row: "map_option row_record (case rs of [] \<Rightarrow> None | row # _ \<Rightarrow> Some row) = first_record rs"
  by (cases rs) (simp_all add: first_record_def)

lemma sq_is_sql_adapter:
  assumes "may_retry opts"
  shows "sql_adapter sqlite_dialect lsid lkey (sq_exec E) (\<lambda>st. tbl (sq_db st)) up_sq (sq_adapter opts E) ''sqlite'' opts
    (\<lambda>s k. [(SelectByKey 1 2, [PStr s, PStr k])])
    (\<lambda>s ks. [(SelectByKeys 1 (InParams (qmarks 2 (length ks))), PStr s # map PStr ks)])
    (\<lambda>s es now. map (d1_upsert s now) es)
    (\<lambda>s ks. [(DeleteByKeys 1 (InParams (qmarks 2 (length ks))), PStr s # map PStr ks)])
    (\<lambda>s. [(SelectKeys 1, [PStr s])]) (\<lambda>s. [(DeleteBySession 1, [PStr s])])
    [(SelectDistinctSessions, [])] (\<lambda>s. [(SelectOneBySession 1, [PStr s])])"
proof (intro sql_adapter.intro sql_adapter_axioms.intro exec_client assms d1_sends d1_batch)
  fix s k ks x now and es :: "(string \<times> jstr) list" and st :: "'s sqlite"
  note retry = sq_adapter_def sq_withRetry_def base_retry_map thenA_def
  show "ad_get (sq_adapter opts E) s k = bindA (base_withRetry ''sqlite'' opts (sq_exec E [(SelectByKey 1 2, [PStr s, PStr k])]) ''get'')
      (\<lambda>res. ret (first_record (rows_of res)))"
    by (simp add: retry sq_get_def sq_calls(1) first_record_row del: ret_apply)
  show "ad_getMany (sq_adapter opts E) s ks = bindA (base_withRetry ''sqlite'' opts
      (sq_exec E [(SelectByKeys 1 (InParams (qmarks 2 (length ks))), PStr s # map PStr ks)]) ''getMany'')
      (\<lambda>res. ret (record_map (rows_of res)))" if "ks \<noteq> []"
    using that by (simp add: retry sq_getMany_def sq_calls(2) del: ret_apply)
  show "query_ok (store_view sqlite_dialect lsid lkey (\<lambda>st. tbl (sq_db st))) (store_ok lsid lkey (\<lambda>st. tbl (sq_db st)))
      up_sq (ad_getMany (sq_adapter opts E) s []) st (\<lambda>m. m = [])" if "store_ok lsid lkey (\<lambda>st. tbl (sq_db st)) st"
    using sq_getMany_Nil [OF that assms] by (simp add: sq_adapter_def)
  show "ad_setMany (sq_adapter opts E) s es now = (if es = [] then ret () else
      thenA (base_withRetry ''sqlite'' opts (sq_exec E (map (d1_upsert s now) es)) ''setMany'') (ret ()))"
    by (simp add: retry sq_setMany_def sq_calls(3) del: ret_apply)
  show "ad_deleteMany (sq_adapter opts E) s ks = (if ks = [] then ret () else thenA (base_withRetry ''sqlite'' opts
      (sq_exec E [(DeleteByKeys 1 (InParams (qmarks 2 (length ks))), PStr s # map PStr ks)]) ''deleteMany'') (ret ()))"
    by (simp add: retry sq_deleteMany_def sq_calls(4) del: ret_apply)
  show "ad_getAllKeys (sq_adapter opts E) s = bindA (base_withRetry ''sqlite'' opts
      (sq_exec E [(SelectKeys 1, [PStr s])]) ''getAllKeys'') (\<lambda>res. ret (strs_of res))"
    by (simp add: retry sq_getAllKeys_def sq_calls(5) del: ret_apply)
  show "ad_deleteSession (sq_adapter opts E) s = thenA (base_withRetry ''sqlite'' opts
      (sq_exec E [(DeleteBySession 1, [PStr s])]) ''deleteSession'') (ret ())"
    by (simp add: retry sq_deleteSession_def sq_calls(6) del: ret_apply)
  show "ad_listSessions (sq_adapter opts E) = bindA (base_withRetry ''sqlite'' opts
      (sq_exec E [(SelectDistinctSessions, [])]) ''listSessions'') (\<lambda>res. ret (strs_of res))"
    by (simp add: retry sq_listSessions_def sq_calls(7) del: ret_apply)
  show "ad_sessionExists (sq_adapter opts E) s = bindA (base_withRetry ''sqlite'' opts
      (sq_exec E [(SelectOneBySession 1, [PStr s])]) ''sessionExists'') (\<lambda>res. ret (strs_of res \<noteq> []))"
    by (simp add: retry sq_sessionExists_def sq_calls(8) del: ret_apply)
qed (simp_all add: sq_adapter_def sq_set_def sq_delete_def)

end

text \<open>The worker over the in-memory server.\<close>

definition mem_sqlite :: "mem_server sqlite_env" where
  "mem_sqlite = \<lparr>se_spawn = (\<lambda>_. None), se_start = ret (), se_db = \<lparr>wd_run = mem_run sqlite_dialect, wd_close = ret ()\<rparr>, se_terminate = ret ()\<rparr>"

lemma sqlite_clientI:
  fixes up :: "'s \<Rightarrow> bool"
  assumes "sql_client sqlite_dialect lsid lkey (wd_run (se_db E)) tbl up" and "se_start E = ret ()" and "se_spawn E = (\<lambda>_. None)"
  shows "sqlite_client lsid lkey E tbl up"
  by (intro sqlite_client.intro sqlite_client_axioms.intro assms(1)) (use assms(2,3) in auto)

interpretation sq_mem: sqlite_client "\<lambda>_. True" "\<lambda>_. True" mem_sqlite ms_rows mem_up
  by (rule sqlite_clientI) (auto intro!: mem_client id_names simp: mem_sqlite_def sqlite_dialect_def)

section \<open>Properties\<close>

text \<open>C31. Over any SQLite driver that executes the statements of a transaction, and a worker start
  that leaves the rows alone, the SQLite adapter with its worker thread is a versioned store of
  records: every read returns what is stored, every write that returns has stored its entries with
  the time given and a higher version, and a write that throws did all or nothing.\<close>

theorem sqlite_refines_store:
  assumes "sqlite_client lsid lkey E tbl up" and "may_retry opts"
  shows "versioned_store (sq_adapter opts E) (store_view sqlite_dialect lsid lkey (\<lambda>st. tbl (sq_db st)))
    (store_ok lsid lkey (\<lambda>st. tbl (sq_db st))) (sq_up up) lsid lkey"
  by (rule sql_adapter.is_versioned_store [OF sqlite_client.sq_is_sql_adapter [OF assms]])

theorem sqlite_refines_store_witness:
  "versioned_store (sq_adapter None mem_sqlite) (store_view sqlite_dialect (\<lambda>_. True) (\<lambda>_. True) (\<lambda>st. ms_rows (sq_db st)))
    (store_ok (\<lambda>_. True) (\<lambda>_. True) (\<lambda>st. ms_rows (sq_db st))) (sq_up mem_up) (\<lambda>_. True) (\<lambda>_. True)"
  by (rule sqlite_refines_store [OF sq_mem.sqlite_client_axioms may_retry_None])

lemma sq_retry_not_ready:
  assumes "sq_ready st = Some (Inl e)" and "may_retry opts"
  shows "sq_withRetry opts (sq_call E now op args) label st = (Inl e, st)"
proof -
  have call: "sq_call E now op args st = (Inl e, st)"
    using assms(1) by (simp add: sq_call_def thenA_def bindA_def sq_ensureWorker_def)
  have same: "after_throws (sq_call E now op args) n st = Some st" for n
    by (induction n) (simp_all add: call)
  let ?c = "resolve_retry opts"
  have "\<exists>ws. retry_loop ?c (retry_label ''sqlite'' label) (sq_call E now op args) 0 UndefinedThrown st =
      ((Inl e, st), ws) \<and> map rw_delay ws = map (\<lambda>i. backoff ?c (0 + int i)) [0..<nat (rt_retries ?c)]"
    by (rule retry_loop_gives_up [OF same call]) (use assms(2) in \<open>simp add: may_retry_def\<close>)
  then show ?thesis by (auto simp: sq_withRetry_def base_withRetry_def with_retry_def with_retry_log_def)
qed

text \<open>What a start that fails leaves: no worker if \<open>new Worker\<close> threw, else the worker and what it did to the file.\<close>

definition failed_start :: "'s sqlite_env \<Rightarrow> 's sqlite \<Rightarrow> error \<Rightarrow> 's sqlite \<Rightarrow> bool" where
  "failed_start E st e st' \<longleftrightarrow>
     (case se_spawn E (sq_db st) of
        Some e' \<Rightarrow> e' = e \<and> st' = st\<lparr>sq_ready := Some (Inl e)\<rparr>
      | None \<Rightarrow> (\<exists>d. se_start E (sq_db st) = (Inl e, d) \<and> st' = st\<lparr>sq_worker := True, sq_ready := Some (Inl e), sq_db := d\<rparr>))"

lemma sq_first_call_fails:
  assumes "sq_ready st = None" and "failed_start E st e st'" and "may_retry opts"
  shows "sq_withRetry opts (sq_call E now op args) label st = (Inl e, st')"
proof -
  have ready: "sq_ready st' = Some (Inl e)" using assms(2) by (auto simp: failed_start_def split: option.splits)
  have first: "sq_call E now op args st = (Inl e, st')"
    using assms(1,2) by (auto simp: failed_start_def sq_call_def thenA_def bindA_def sq_ensureWorker_def split: option.splits)
  have again: "sq_call E now op args st' = (Inl e, st')"
    using ready by (simp add: sq_call_def thenA_def bindA_def sq_ensureWorker_def)
  have same: "after_throws (sq_call E now op args) n st = Some (if n = 0 then st else st')" for n
  proof (cases n)
    case (Suc m)
    have "after_throws (sq_call E now op args) m st' = Some st'" by (induction m) (simp_all add: again)
    with Suc first show ?thesis by simp
  qed simp
  let ?c = "resolve_retry opts" and ?n = "nat (rt_retries (resolve_retry opts))"
  have "sq_call E now op args (if ?n = 0 then st else st') = (Inl e, st')" using first again by simp
  from retry_loop_gives_up [OF same this, of 0 ?c "retry_label ''sqlite'' label" UndefinedThrown] assms(3)
  show ?thesis by (auto simp: may_retry_def sq_withRetry_def base_withRetry_def with_retry_def with_retry_log_def)
qed

text \<open>C38. A worker that fails to start stays failed: \<open>init()\<close> throws the start-up error, having tried
  to start it only once for all its retries (the rejected \<open>ready\<close> promise is kept), and every later
  read throws the same error at once. Only \<open>close()\<close> clears the promise, and only if there is a worker:
  when \<open>new Worker\<close> itself threw, \<open>close()\<close> does nothing and the adapter stays failed for good.\<close>

theorem sqlite_start_failure_sticks:
  assumes "sq_ready st = None" and "failed_start E st e st1" and "may_retry opts"
  shows "sq_init opts E st = (Inl e, st1) \<and> sq_get opts E s k st1 = (Inl e, st1) \<and>
    (if se_spawn E (sq_db st) = None
     then \<forall>d'. se_terminate E (sq_db st1) = (Inr (), d') \<longrightarrow> sq_ready (snd (sq_close E st1)) = None
     else \<not> sq_worker st \<longrightarrow> sq_close E st1 = (Inr (), st1))"
proof -
  have ready: "sq_ready st1 = Some (Inl e)" and worker: "se_spawn E (sq_db st) = None \<Longrightarrow> sq_worker st1"
    and none: "se_spawn E (sq_db st) \<noteq> None \<Longrightarrow> sq_worker st1 = sq_worker st"
    using assms(2) by (auto simp: failed_start_def split: option.splits)
  have "sq_init opts E st = (Inl e, st1)"
    using sq_first_call_fails [OF assms] by (simp add: sq_init_def thenA_def bindA_def)
  moreover have "sq_get opts E s k st1 = (Inl e, st1)"
    using sq_retry_not_ready [OF ready assms(3)] by (simp add: sq_get_def bindA_def)
  moreover have "sq_ready (snd (sq_close E st1)) = None" if "se_spawn E (sq_db st) = None" "se_terminate E (sq_db st1) = (Inr (), d')" for d'
    using that worker ready by (simp add: sq_close_def sq_call_def thenA_def bindA_def sq_ensureWorker_def sq_lift_def Let_def)
  moreover have "sq_close E st1 = (Inr (), st1)" if "se_spawn E (sq_db st) \<noteq> None" "\<not> sq_worker st"
    using that none by (simp add: sq_close_def)
  ultimately show ?thesis by simp
qed

theorem sqlite_start_failure_sticks_witness:
  "fst (sq_init None (mem_sqlite\<lparr>se_start := \<lambda>n. (Inl (WorkerFailed ''no such file''), n)\<rparr>)
    \<lparr>sq_worker = False, sq_ready = None, sq_nextRequestId = 1, sq_db = \<lparr>ms_rows = [], ms_faults = []\<rparr>\<rparr>) =
    Inl (WorkerFailed ''no such file'')"
proof -
  let ?st = "\<lparr>sq_worker = False, sq_ready = None, sq_nextRequestId = 1, sq_db = \<lparr>ms_rows = [], ms_faults = []\<rparr>\<rparr> :: mem_server sqlite"
  have "failed_start (mem_sqlite\<lparr>se_start := \<lambda>n. (Inl (WorkerFailed ''no such file''), n)\<rparr>) ?st (WorkerFailed ''no such file'')
      (?st\<lparr>sq_worker := True, sq_ready := Some (Inl (WorkerFailed ''no such file''))\<rparr>)"
    by (simp add: failed_start_def mem_sqlite_def)
  from conjunct1 [OF sqlite_start_failure_sticks [OF _ this may_retry_None]] show ?thesis by simp
qed

end
