(* ===== verification/SqliteProtocol.thy ===== *)
theory SqliteProtocol
  imports SqliteAdapter "HOL-Library.Sublist"
begin

text \<open>
  The request protocol of \<^verbatim>\<open>src/adapters/sqlite-adapter.ts\<close> when calls overlap. The main thread and the worker
  thread exchange messages: the adapter numbers each request and remembers who waits for its answer
  (\<open>pending\<close>), the worker handles requests in the order they arrive (\<open>wk_onMessage\<close>), its answers and the
  event that it died arrive in the order it produced them. The steps are the calls, the continuations of their
  \<open>await\<close>, the listeners, and what the thread does. A promise settles once; a call is named by a number.

  One caller at a time is inside \<open>close\<close>. A resumed continuation may run in any order. The fields with prefix \<open>h_\<close> are
  histories: the calls made, the requests posted with their callers, and what the threads have executed.
\<close>

datatype ready_promise = NotStarted | Starting | Started | StartFailed error

datatype thread = Absent | Booting | Serving | Gone

datatype thread_event = Message worker_response | ErrorEvent error

datatype close_state = NoClose | Calling nat | Terminating nat

datatype log_entry = Opened | Ran int worker_request worker_response | Stopped

type_synonym rpc_call = "nat \<times> string \<times> worker_arg list"

record 's rpc =
  rp_worker :: bool
  rp_ready :: ready_promise
  rp_nextRequestId :: nat
  rp_pending :: "(nat \<times> nat) list"
  rp_awaiting :: "rpc_call list"
  rp_resumed :: "rpc_call list"
  rp_once :: bool
  rp_thread :: thread
  rp_inbox :: "worker_request list"
  rp_outbox :: "thread_event list"
  rp_settled :: "(nat \<times> (error + worker_result)) list"
  rp_close :: close_state
  rp_db :: 's
  h_calls :: "rpc_call list"
  h_posted :: "(nat \<times> worker_request) list"
  h_log :: "log_entry list"

definition rpc_new :: "'s \<Rightarrow> 's rpc" where
  "rpc_new d = \<lparr>rp_worker = False, rp_ready = NotStarted, rp_nextRequestId = 1, rp_pending = [], rp_awaiting = [], rp_resumed = [],
     rp_once = False, rp_thread = Absent, rp_inbox = [], rp_outbox = [], rp_settled = [], rp_close = NoClose, rp_db = d,
     h_calls = [], h_posted = [], h_log = []\<rparr>"

text \<open>A promise that has settled ignores what comes later.\<close>

definition settle :: "nat \<Rightarrow> error + worker_result \<Rightarrow> 's rpc \<Rightarrow> 's rpc" where
  "settle c r st = (if c \<in> fst ` set (rp_settled st) then st else st\<lparr>rp_settled := rp_settled st @ [(c, r)]\<rparr>)"

fun settle_all :: "nat list \<Rightarrow> error + worker_result \<Rightarrow> 's rpc \<Rightarrow> 's rpc" where
  "settle_all [] r st = st"
| "settle_all (c # cs) r st = settle_all cs r (settle c r st)"

section \<open>The adapter\<close>

text \<open>\<open>spawn\<close> is what \<open>new Worker\<close> throws, if it does; the promise is then rejected and there is no worker.\<close>

definition rpc_ensureWorker :: "error option \<Rightarrow> 's rpc \<Rightarrow> 's rpc" where
  "rpc_ensureWorker spawn st =
     (if rp_ready st = NotStarted
      then (case spawn of
              Some e \<Rightarrow> st\<lparr>rp_ready := StartFailed e\<rparr>
            | None \<Rightarrow> st\<lparr>rp_worker := True, rp_ready := Starting, rp_once := True, rp_thread := Booting, rp_inbox := [], rp_outbox := []\<rparr>)
      else st)"

text \<open>\<open>call\<close> up to \<open>await this.ensureWorker()\<close>, and the rest of it.\<close>

definition rpc_call :: "error option \<Rightarrow> nat \<Rightarrow> string \<Rightarrow> worker_arg list \<Rightarrow> 's rpc \<Rightarrow> 's rpc" where
  "rpc_call spawn c op args st =
     (let st1 = (rpc_ensureWorker spawn st)\<lparr>h_calls := h_calls st @ [(c, op, args)]\<rparr> in
      case rp_ready st1 of
        StartFailed e \<Rightarrow> settle c (Inl e) st1
      | Started \<Rightarrow> st1\<lparr>rp_resumed := rp_resumed st1 @ [(c, op, args)]\<rparr>
      | _ \<Rightarrow> st1\<lparr>rp_awaiting := rp_awaiting st1 @ [(c, op, args)]\<rparr>)"

definition rpc_post :: "rpc_call \<Rightarrow> 's rpc \<Rightarrow> 's rpc" where
  "rpc_post x st = (case x of (c, op, args) \<Rightarrow>
     (let id = rp_nextRequestId st;
          req = \<lparr>rq_id = id, rq_op = op, rq_args = args\<rparr>;
          st1 = st\<lparr>rp_resumed := remove1 x (rp_resumed st), rp_nextRequestId := id + 1,
                   rp_pending := AList.update id c (rp_pending st), h_posted := h_posted st @ [(c, req)]\<rparr>
      in if \<not> rp_worker st then settle c (Inl (TypeError ''Cannot read properties of null'')) st1
         else if rp_thread st = Serving \<or> rp_thread st = Booting then st1\<lparr>rp_inbox := rp_inbox st1 @ [req]\<rparr>
         else st1))"

text \<open>The listener of the first message, the listener of all messages, and the listener of errors.\<close>

definition rpc_onFirst :: "worker_response \<Rightarrow> 's rpc \<Rightarrow> 's rpc" where
  "rpc_onFirst msg st =
     (if \<not> rp_once st then st
      else let st1 = st\<lparr>rp_once := False, rp_awaiting := []\<rparr>;
             failed = (\<lambda>m. settle_all (map fst (rp_awaiting st)) (Inl (WorkerFailed m)) (st1\<lparr>rp_ready := StartFailed (WorkerFailed m)\<rparr>))
           in case msg of
                RespOk i _ \<Rightarrow>
                  if i = 0 then st1\<lparr>rp_ready := Started, rp_resumed := rp_resumed st @ rp_awaiting st\<rparr>
                  else failed ''sqlite worker failed to start''
              | RespErr i m \<Rightarrow> failed m)"

definition rpc_onMessage :: "worker_response \<Rightarrow> 's rpc \<Rightarrow> 's rpc" where
  "rpc_onMessage msg st =
     (if resp_id msg = 0 then st
      else case map_of (rp_pending st) (resp_id msg) of
             None \<Rightarrow> st
           | Some waiter \<Rightarrow> settle waiter (sq_settle msg) (st\<lparr>rp_pending := AList.delete (resp_id msg) (rp_pending st)\<rparr>))"

definition rpc_onError :: "error \<Rightarrow> 's rpc \<Rightarrow> 's rpc" where
  "rpc_onError e st = (settle_all (map snd (rp_pending st)) (Inl e) st)\<lparr>rp_pending := []\<rparr>"

definition rpc_deliver :: "'s rpc \<Rightarrow> 's rpc" where
  "rpc_deliver st = (case rp_outbox st of
     [] \<Rightarrow> st
   | ev # evs \<Rightarrow>
       (let st1 = st\<lparr>rp_outbox := evs\<rparr> in
        case ev of Message msg \<Rightarrow> rpc_onMessage msg (rpc_onFirst msg st1) | ErrorEvent e \<Rightarrow> rpc_onError e st1))"

text \<open>\<open>close\<close> finds a worker, so \<open>ensureWorker\<close> creates none. It has three parts: \<open>call('close')\<close>, \<open>terminate()\<close> once that call has settled, and the two fields. Of
  what the thread had sent, the first \<open>n\<close> events still arrive before \<open>terminate\<close> resolves.\<close>

definition rpc_close :: "nat \<Rightarrow> 's rpc \<Rightarrow> 's rpc" where
  "rpc_close c st = (if \<not> rp_worker st then st else (rpc_call None c ''close'' [] st)\<lparr>rp_close := Calling c\<rparr>)"

definition rpc_terminate :: "'s sqlite_env \<Rightarrow> nat \<Rightarrow> nat \<Rightarrow> 's rpc \<Rightarrow> 's rpc" where
  "rpc_terminate E n c st =
     (case se_terminate E (rp_db st) of
        (Inl e, d) \<Rightarrow> st\<lparr>rp_close := NoClose, rp_db := d, h_log := h_log st @ [Stopped]\<rparr>
      | (Inr _, d) \<Rightarrow> st\<lparr>rp_close := Terminating c, rp_thread := Gone, rp_inbox := [], rp_outbox := take n (rp_outbox st),
                         rp_db := d, h_log := h_log st @ [Stopped]\<rparr>)"

definition rpc_closed :: "'s rpc \<Rightarrow> 's rpc" where
  "rpc_closed st = st\<lparr>rp_worker := False, rp_ready := NotStarted, rp_close := NoClose\<rparr>"

section \<open>The worker thread\<close>

text \<open>\<open>main()\<close>: the file is opened and the first message sent, a failure is sent as well (\<open>main().catch\<close>). The result
  of the first message, \<open>'ready'\<close>, is read by nobody. Requests posted before it listens wait in its queue.\<close>

definition rpc_boot :: "'s sqlite_env \<Rightarrow> 's rpc \<Rightarrow> 's rpc" where
  "rpc_boot E st =
     (case se_start E (rp_db st) of
        (Inr _, d) \<Rightarrow> st\<lparr>rp_thread := Serving, rp_outbox := rp_outbox st @ [Message (RespOk 0 WNull)], rp_db := d,
                         h_log := h_log st @ [Opened]\<rparr>
      | (Inl e, d) \<Rightarrow> st\<lparr>rp_thread := Gone, rp_inbox := [], rp_outbox := rp_outbox st @ [Message (RespErr 0 (error_message e))], rp_db := d,
                         h_log := h_log st @ [Opened]\<rparr>)"

definition rpc_handle :: "'s sqlite_env \<Rightarrow> int \<Rightarrow> 's rpc \<Rightarrow> 's rpc" where
  "rpc_handle E now st = (case rp_inbox st of
     [] \<Rightarrow> st
   | req # reqs \<Rightarrow>
       (case wk_onMessage (se_db E) now req (rp_db st) of
          (resp, d) \<Rightarrow> st\<lparr>rp_inbox := reqs, rp_outbox := rp_outbox st @ [Message resp], rp_db := d,
                         h_log := h_log st @ [Ran now req resp]\<rparr>))"

text \<open>An error nobody catches ends the thread.\<close>

definition rpc_crash :: "error \<Rightarrow> 's rpc \<Rightarrow> 's rpc" where
  "rpc_crash e st = st\<lparr>rp_thread := Gone, rp_inbox := [], rp_outbox := rp_outbox st @ [ErrorEvent e]\<rparr>"

text \<open>It may end in the middle of a request, the transaction committed and no answer sent.\<close>

definition rpc_crash_handling :: "'s sqlite_env \<Rightarrow> int \<Rightarrow> error \<Rightarrow> 's rpc \<Rightarrow> 's rpc" where
  "rpc_crash_handling E now e st = rpc_crash e ((rpc_handle E now st)\<lparr>rp_outbox := rp_outbox st\<rparr>)"

definition fresh_call :: "nat \<Rightarrow> 's rpc \<Rightarrow> bool" where
  "fresh_call c st \<longleftrightarrow> c \<notin> fst ` set (h_calls st)"

inductive rpc_step :: "'s sqlite_env \<Rightarrow> 's rpc \<Rightarrow> 's rpc \<Rightarrow> bool" for E :: "'s sqlite_env" where
  call: "fresh_call c st \<Longrightarrow> rpc_step E st (rpc_call spawn c op args st)"
| post: "x \<in> set (rp_resumed st) \<Longrightarrow> rpc_step E st (rpc_post x st)"
| deliver: "rpc_step E st (rpc_deliver st)"
| boot: "rp_thread st = Booting \<Longrightarrow> rpc_step E st (rpc_boot E st)"
| handle: "rp_thread st = Serving \<Longrightarrow> rpc_step E st (rpc_handle E now st)"
| crash: "rp_thread st = Booting \<or> rp_thread st = Serving \<Longrightarrow> rpc_step E st (rpc_crash e st)"
| crash_handling: "rp_thread st = Serving \<Longrightarrow> rpc_step E st (rpc_crash_handling E now e st)"
| close: "fresh_call c st \<Longrightarrow> rp_close st = NoClose \<Longrightarrow> rpc_step E st (rpc_close c st)"
| terminate: "rp_close st = Calling c \<Longrightarrow> c \<in> fst ` set (rp_settled st) \<Longrightarrow> rpc_step E st (rpc_terminate E n c st)"
| closed: "rp_close st = Terminating c \<Longrightarrow> rp_outbox st = [] \<Longrightarrow> rpc_step E st (rpc_closed st)"

definition rpc_reach :: "'s sqlite_env \<Rightarrow> 's \<Rightarrow> 's rpc \<Rightarrow> bool" where
  "rpc_reach E d = (rpc_step E)\<^sup>*\<^sup>* (rpc_new d)"

lemma rpc_reach_induct [consumes 1, case_names new step]:
  assumes "rpc_reach E d st" and "P (rpc_new d)"
    and "\<And>st st'. rpc_reach E d st \<Longrightarrow> P st \<Longrightarrow> rpc_step E st st' \<Longrightarrow> P st'"
  shows "P st"
  using assms(1) unfolding rpc_reach_def
  by (induction rule: rtranclp_induct) (use assms(2,3) in \<open>auto simp: rpc_reach_def\<close>)

section \<open>What a step leaves alone\<close>

lemma settle_keep [simp]:
  "rp_worker (settle c r st) = rp_worker st" "rp_ready (settle c r st) = rp_ready st"
  "rp_nextRequestId (settle c r st) = rp_nextRequestId st" "rp_pending (settle c r st) = rp_pending st"
  "rp_awaiting (settle c r st) = rp_awaiting st" "rp_resumed (settle c r st) = rp_resumed st" "rp_once (settle c r st) = rp_once st"
  "rp_thread (settle c r st) = rp_thread st" "rp_inbox (settle c r st) = rp_inbox st" "rp_outbox (settle c r st) = rp_outbox st"
  "rp_close (settle c r st) = rp_close st" "rp_db (settle c r st) = rp_db st" "h_calls (settle c r st) = h_calls st"
  "h_posted (settle c r st) = h_posted st" "h_log (settle c r st) = h_log st"
  by (simp_all add: settle_def)

lemma settle_all_keep [simp]:
  "rp_worker (settle_all cs r st) = rp_worker st" "rp_ready (settle_all cs r st) = rp_ready st"
  "rp_nextRequestId (settle_all cs r st) = rp_nextRequestId st" "rp_pending (settle_all cs r st) = rp_pending st"
  "rp_awaiting (settle_all cs r st) = rp_awaiting st" "rp_resumed (settle_all cs r st) = rp_resumed st"
  "rp_once (settle_all cs r st) = rp_once st"
  "rp_thread (settle_all cs r st) = rp_thread st" "rp_inbox (settle_all cs r st) = rp_inbox st" "rp_outbox (settle_all cs r st) = rp_outbox st"
  "rp_close (settle_all cs r st) = rp_close st" "rp_db (settle_all cs r st) = rp_db st" "h_calls (settle_all cs r st) = h_calls st"
  "h_posted (settle_all cs r st) = h_posted st" "h_log (settle_all cs r st) = h_log st"
  by (induction cs arbitrary: st) simp_all

lemma settle_new: "x \<in> set (rp_settled (settle c r st)) \<Longrightarrow> x \<in> set (rp_settled st) \<or> x = (c, r)"
  by (auto simp: settle_def split: if_splits)

lemma settle_all_new: "x \<in> set (rp_settled (settle_all cs r st)) \<Longrightarrow> x \<in> set (rp_settled st) \<or> fst x \<in> set cs \<and> snd x = r"
proof (induction cs arbitrary: st)
  case (Cons c cs)
  from Cons.IH [of "settle c r st"] Cons.prems show ?case by (auto dest: settle_new)
qed simp

lemma settle_once: "distinct (map fst (rp_settled st)) \<Longrightarrow> distinct (map fst (rp_settled (settle c r st)))"
  by (simp add: settle_def)

lemma settle_all_once: "distinct (map fst (rp_settled st)) \<Longrightarrow> distinct (map fst (rp_settled (settle_all cs r st)))"
  by (induction cs arbitrary: st) (simp_all add: settle_once)

lemma ensure_keep [simp]:
  "rp_nextRequestId (rpc_ensureWorker spawn st) = rp_nextRequestId st" "rp_pending (rpc_ensureWorker spawn st) = rp_pending st"
  "rp_awaiting (rpc_ensureWorker spawn st) = rp_awaiting st" "rp_resumed (rpc_ensureWorker spawn st) = rp_resumed st"
  "rp_settled (rpc_ensureWorker spawn st) = rp_settled st" "rp_db (rpc_ensureWorker spawn st) = rp_db st"
  "h_calls (rpc_ensureWorker spawn st) = h_calls st" "h_posted (rpc_ensureWorker spawn st) = h_posted st" "h_log (rpc_ensureWorker spawn st) = h_log st"
  by (simp_all add: rpc_ensureWorker_def split: option.split)

lemma onFirst_keep [simp]:
  "rp_nextRequestId (rpc_onFirst msg st) = rp_nextRequestId st" "rp_pending (rpc_onFirst msg st) = rp_pending st"
  "rp_inbox (rpc_onFirst msg st) = rp_inbox st" "rp_outbox (rpc_onFirst msg st) = rp_outbox st"
  "rp_db (rpc_onFirst msg st) = rp_db st" "h_calls (rpc_onFirst msg st) = h_calls st"
  "h_posted (rpc_onFirst msg st) = h_posted st" "h_log (rpc_onFirst msg st) = h_log st"
  by (simp_all add: rpc_onFirst_def Let_def split: worker_response.splits)

lemma onMessage_keep [simp]:
  "rp_nextRequestId (rpc_onMessage msg st) = rp_nextRequestId st" "rp_awaiting (rpc_onMessage msg st) = rp_awaiting st"
  "rp_resumed (rpc_onMessage msg st) = rp_resumed st"
  "rp_inbox (rpc_onMessage msg st) = rp_inbox st" "rp_outbox (rpc_onMessage msg st) = rp_outbox st"
  "rp_db (rpc_onMessage msg st) = rp_db st" "h_calls (rpc_onMessage msg st) = h_calls st"
  "h_posted (rpc_onMessage msg st) = h_posted st" "h_log (rpc_onMessage msg st) = h_log st"
  by (simp_all add: rpc_onMessage_def split: option.splits)

lemma onError_keep [simp]:
  "rp_nextRequestId (rpc_onError e st) = rp_nextRequestId st" "rp_awaiting (rpc_onError e st) = rp_awaiting st"
  "rp_resumed (rpc_onError e st) = rp_resumed st"
  "rp_inbox (rpc_onError e st) = rp_inbox st" "rp_outbox (rpc_onError e st) = rp_outbox st"
  "rp_db (rpc_onError e st) = rp_db st" "h_calls (rpc_onError e st) = h_calls st"
  "h_posted (rpc_onError e st) = h_posted st" "h_log (rpc_onError e st) = h_log st"
  by (simp_all add: rpc_onError_def)

section \<open>Who waits for what\<close>

text \<open>Every call is in one place at most before it is posted, is posted at most once, under a number of its own.\<close>

definition rpc_spots :: "'s rpc \<Rightarrow> nat multiset" where
  "rpc_spots st = mset (map fst (rp_awaiting st)) + mset (map fst (rp_resumed st)) + mset (map fst (h_posted st))"

definition rpc_known :: "'s rpc \<Rightarrow> rpc_call set" where
  "rpc_known st = set (rp_awaiting st) \<union> set (rp_resumed st) \<union> (\<lambda>p. (fst p, rq_op (snd p), rq_args (snd p))) ` set (h_posted st)"

definition rpc_calls_ok :: "'s rpc \<Rightarrow> bool" where
  "rpc_calls_ok st \<longleftrightarrow> distinct (map fst (h_calls st)) \<and> rpc_spots st \<subseteq># mset (map fst (h_calls st)) \<and>
     rpc_known st \<subseteq> set (h_calls st)"

definition rpc_ids_ok :: "'s rpc \<Rightarrow> bool" where
  "rpc_ids_ok st \<longleftrightarrow> 0 < rp_nextRequestId st \<and> sorted_wrt (<) (map (\<lambda>p. rq_id (snd p)) (h_posted st)) \<and>
     (\<forall>p \<in> set (h_posted st). 0 < rq_id (snd p) \<and> rq_id (snd p) < rp_nextRequestId st) \<and>
     (\<forall>(i, c) \<in> set (rp_pending st). \<exists>req. (c, req) \<in> set (h_posted st) \<and> rq_id req = i)"

lemma calls_ok_keep:
  "rpc_calls_ok st \<Longrightarrow> h_calls st' = h_calls st \<Longrightarrow> rpc_spots st' \<subseteq># rpc_spots st \<Longrightarrow> rpc_known st' \<subseteq> rpc_known st \<Longrightarrow> rpc_calls_ok st'"
  unfolding rpc_calls_ok_def by (auto intro: subset_mset.order_trans)

lemma call_spots:
  "h_calls (rpc_call spawn c op args st) = h_calls st @ [(c, op, args)]"
  "rpc_spots (rpc_call spawn c op args st) \<subseteq># add_mset c (rpc_spots st)"
  "rpc_known (rpc_call spawn c op args st) \<subseteq> insert (c, op, args) (rpc_known st)"
  by (auto simp: rpc_call_def rpc_spots_def rpc_known_def Let_def split: ready_promise.splits)

lemma calls_ok_add:
  assumes "rpc_calls_ok st" and "fresh_call c st"
  shows "rpc_calls_ok (rpc_call spawn c op args st)"
proof -
  from assms(1) have "add_mset c (rpc_spots st) \<subseteq># mset (map fst (h_calls st @ [(c, op, args)]))"
    by (simp add: rpc_calls_ok_def)
  with assms call_spots [of spawn c op args st] show ?thesis
    unfolding rpc_calls_ok_def fresh_call_def by (auto intro: subset_mset.order_trans)
qed

lemma calls_ok_post:
  assumes "rpc_calls_ok st" and x: "x \<in> set (rp_resumed st)"
  shows "rpc_calls_ok (rpc_post x st)"
proof (rule calls_ok_keep [OF assms(1)])
  obtain c op args where c: "x = (c, op, args)" by (cases x)
  from x have "mset (rp_resumed st) = add_mset x (mset (remove1 x (rp_resumed st)))" by simp
  then have "mset (map fst (rp_resumed st)) = add_mset c (mset (map fst (remove1 x (rp_resumed st))))"
    unfolding mset_map by (metis c fst_conv image_mset_add_mset)
  then show "rpc_spots (rpc_post x st) \<subseteq># rpc_spots st"
    by (simp add: rpc_spots_def rpc_post_def Let_def c)
  show "rpc_known (rpc_post x st) \<subseteq> rpc_known st"
    using x set_remove1_subset [of x "rp_resumed st"] by (auto simp: rpc_known_def rpc_post_def Let_def c)
  show "h_calls (rpc_post x st) = h_calls st" by (simp add: rpc_post_def Let_def c)
qed

lemma calls_ok_first: "rpc_calls_ok st \<Longrightarrow> rpc_calls_ok (rpc_onFirst msg st)"
  by (rule calls_ok_keep [of st]) (auto simp: rpc_spots_def rpc_known_def rpc_onFirst_def Let_def split: worker_response.splits)

lemma spots_keep:
  "rp_awaiting st' = rp_awaiting st \<Longrightarrow> rp_resumed st' = rp_resumed st \<Longrightarrow> h_posted st' = h_posted st \<Longrightarrow> h_calls st' = h_calls st \<Longrightarrow>
    rpc_calls_ok st' = rpc_calls_ok st"
  by (simp add: rpc_calls_ok_def rpc_spots_def rpc_known_def)

text \<open>Two posted requests with one number are the same request of the same call.\<close>

lemma sorted_inj:
  "sorted_wrt (<) (map f xs) \<Longrightarrow> x \<in> set xs \<Longrightarrow> y \<in> set xs \<Longrightarrow> f x = (f y :: nat) \<Longrightarrow> x = y"
proof (induction xs)
  case (Cons z xs)
  then show ?case by fastforce
qed simp

lemma ids_unique: "rpc_ids_ok st \<Longrightarrow> p \<in> set (h_posted st) \<Longrightarrow> q \<in> set (h_posted st) \<Longrightarrow> rq_id (snd p) = rq_id (snd q) \<Longrightarrow> p = q"
  by (rule sorted_inj [of "\<lambda>p. rq_id (snd p)" "h_posted st"]) (simp_all add: rpc_ids_ok_def)

lemma ids_ok_keep:
  "rpc_ids_ok st \<Longrightarrow> h_posted st' = h_posted st \<Longrightarrow> rp_nextRequestId st' = rp_nextRequestId st \<Longrightarrow>
    set (rp_pending st') \<subseteq> set (rp_pending st) \<Longrightarrow> rpc_ids_ok st'"
  by (auto simp: rpc_ids_ok_def)

lemma ids_ok_post:
  assumes "rpc_ids_ok st"
  shows "rpc_ids_ok (rpc_post x st)"
proof -
  obtain c op args where c: "x = (c, op, args)" by (cases x)
  let ?n = "rp_nextRequestId st" and ?req = "\<lparr>rq_id = rp_nextRequestId st, rq_op = op, rq_args = args\<rparr>"
  have fields: "h_posted (rpc_post x st) = h_posted st @ [(c, ?req)]" "rp_nextRequestId (rpc_post x st) = ?n + 1"
    "rp_pending (rpc_post x st) = AList.update ?n c (rp_pending st)"
    by (simp_all add: rpc_post_def Let_def c)
  have "set (AList.update k v xs) \<subseteq> insert (k, v) (set xs)" for k v xs
    by (induction xs) auto
  then have "set (AList.update ?n c (rp_pending st)) \<subseteq> insert (?n, c) (set (rp_pending st))" .
  moreover have "sorted_wrt (<) (map (\<lambda>p. rq_id (snd p)) (h_posted st @ [(c, ?req)]))"
    using assms by (auto simp: rpc_ids_ok_def sorted_wrt_append)
  ultimately show ?thesis
    using assms unfolding rpc_ids_ok_def fields by fastforce
qed

lemma call_ids [simp]:
  "rp_nextRequestId (rpc_call spawn c op args st) = rp_nextRequestId st" "rp_pending (rpc_call spawn c op args st) = rp_pending st"
  "h_posted (rpc_call spawn c op args st) = h_posted st" "rp_db (rpc_call spawn c op args st) = rp_db st" "h_log (rpc_call spawn c op args st) = h_log st"
  by (simp_all add: rpc_call_def Let_def split: ready_promise.splits)

lemma pending_sub:
  "set (rp_pending (rpc_onMessage msg st)) \<subseteq> set (rp_pending st)" "set (rp_pending (rpc_onError e st)) \<subseteq> set (rp_pending st)"
  by (auto simp: rpc_onMessage_def rpc_onError_def AList.delete_eq split: option.splits)

section \<open>What the thread has done\<close>

text \<open>The history of the thread replayed on the database: the requests one at a time, each with the answer it had.\<close>

fun replay :: "'s sqlite_env \<Rightarrow> log_entry list \<Rightarrow> 's \<Rightarrow> 's option" where
  "replay E [] d = Some d"
| "replay E (Opened # es) d = replay E es (snd (se_start E d))"
| "replay E (Stopped # es) d = replay E es (snd (se_terminate E d))"
| "replay E (Ran now req resp # es) d =
     (case wk_onMessage (se_db E) now req d of (resp', d') \<Rightarrow> if resp' = resp then replay E es d' else None)"

fun executed :: "log_entry list \<Rightarrow> worker_request list" where
  "executed [] = []"
| "executed (Ran now req resp # es) = req # executed es"
| "executed (_ # es) = executed es"

lemma replay_append: "replay E (es @ es') d = Option.bind (replay E es d) (replay E es')"
  by (induction es arbitrary: d rule: executed.induct) (auto split: prod.splits)

lemma executed_append [simp]: "executed (es @ es') = executed es @ executed es'"
  by (induction es rule: executed.induct) simp_all

lemma executed_Ran: "Ran now req resp \<in> set es \<Longrightarrow> req \<in> set (executed es)"
  by (induction es rule: executed.induct) auto

lemma replay_ids: "replay E es d = Some d' \<Longrightarrow> Ran now req resp \<in> set es \<Longrightarrow> resp_id resp = rq_id req"
proof (induction es arbitrary: d rule: executed.induct)
  case (2 now' req' resp' es)
  obtain r d1 where w: "wk_onMessage (se_db E) now' req' d = (r, d1)" by fastforce
  with "2.prems"(1) have "r = resp'" and rest: "replay E es d1 = Some d'" by (auto split: if_splits)
  with wk_onMessage_id [of "se_db E" now' req' d] w have "resp_id resp' = rq_id req'" by simp
  with "2.prems"(2) "2.IH" [OF rest] show ?case by auto
qed auto

definition rpc_work_ok :: "'s sqlite_env \<Rightarrow> 's \<Rightarrow> 's rpc \<Rightarrow> bool" where
  "rpc_work_ok E d st \<longleftrightarrow> replay E (h_log st) d = Some (rp_db st) \<and>
     subseq (executed (h_log st) @ rp_inbox st) (map snd (h_posted st)) \<and>
     (\<forall>resp. Message resp \<in> set (rp_outbox st) \<longrightarrow> resp_id resp = 0 \<or> (\<exists>now req. Ran now req resp \<in> set (h_log st)))"

definition rpc_answers_ok :: "'s rpc \<Rightarrow> bool" where
  "rpc_answers_ok st \<longleftrightarrow> distinct (map fst (rp_settled st)) \<and> fst ` set (rp_settled st) \<subseteq> fst ` set (h_calls st) \<and>
     (\<forall>c result. (c, Inr result) \<in> set (rp_settled st) \<longrightarrow>
       (\<exists>now req. (c, req) \<in> set (h_posted st) \<and> Ran now req (RespOk (rq_id req) result) \<in> set (h_log st)))"

lemma subseq_front: "subseq (xs @ ys) zs \<Longrightarrow> subseq xs zs"
  by (rule subseq_order.trans [of xs "xs @ ys"]) (simp add: subseq_rev_drop_many)

lemma subseq_set: "subseq xs ys \<Longrightarrow> set xs \<subseteq> set ys"
  by (induction rule: list_emb.induct) auto

lemma work_ok_keep:
  assumes "rpc_work_ok E d st" and "rp_db st' = rp_db st" and "h_log st' = h_log st" and "rp_inbox st' = rp_inbox st \<or> rp_inbox st' = []"
    and "h_posted st' = h_posted st" and "set (rp_outbox st') \<subseteq> set (rp_outbox st) \<union> range ErrorEvent"
  shows "rpc_work_ok E d st'"
proof -
  from assms(1) have "subseq (executed (h_log st)) (map snd (h_posted st))"
    by (auto simp: rpc_work_ok_def dest: subseq_front)
  with assms show ?thesis by (auto simp: rpc_work_ok_def)
qed

lemma work_ok_post:
  assumes "rpc_work_ok E d st"
  shows "rpc_work_ok E d (rpc_post x st)"
proof -
  obtain c op args where c: "x = (c, op, args)" by (cases x)
  let ?req = "\<lparr>rq_id = rp_nextRequestId st, rq_op = op, rq_args = args\<rparr>"
  from assms have s: "subseq (executed (h_log st) @ rp_inbox st) (map snd (h_posted st))" by (simp add: rpc_work_ok_def)
  then have "subseq (executed (h_log st) @ rp_inbox st) (map snd (h_posted st) @ [?req])"
    "subseq ((executed (h_log st) @ rp_inbox st) @ [?req]) (map snd (h_posted st) @ [?req])"
    by (simp_all add: subseq_rev_drop_many del: append_assoc)
  with assms show ?thesis by (simp add: rpc_work_ok_def rpc_post_def Let_def c)
qed

lemma work_ok_log:
  assumes "rpc_work_ok E d st" and "replay E [en] (rp_db st) = Some (rp_db st')" and "h_log st' = h_log st @ [en]"
    and "executed [en] @ rest = rp_inbox st" and "rp_inbox st' = rest \<or> rp_inbox st' = []" and "h_posted st' = h_posted st"
    and "\<And>resp. Message resp \<in> set (rp_outbox st') \<Longrightarrow> Message resp \<in> set (rp_outbox st) \<or> resp_id resp = 0 \<or> (\<exists>now req. en = Ran now req resp)"
  shows "rpc_work_ok E d st'"
proof -
  from assms(1) have s: "subseq (executed (h_log st) @ rp_inbox st) (map snd (h_posted st))" by (simp add: rpc_work_ok_def)
  then have "subseq (executed (h_log st)) (map snd (h_posted st))" by (rule subseq_front)
  moreover have "subseq (executed (h_log st) @ executed [en]) (map snd (h_posted st))"
    by (rule subseq_front [of _ rest]) (use s assms(4) in simp)
  ultimately have "subseq (executed (h_log st') @ rp_inbox st') (map snd (h_posted st'))" using s assms(3-6) by auto
  moreover have "replay E (h_log st') d = Some (rp_db st')" using assms(1-3) by (simp add: rpc_work_ok_def replay_append)
  ultimately show ?thesis using assms(1,3,7) unfolding rpc_work_ok_def by fastforce
qed

lemma answers_ok_keep:
  assumes "rpc_answers_ok st" and "rp_settled st' = rp_settled st" and "set (h_calls st) \<subseteq> set (h_calls st')"
    and "set (h_posted st) \<subseteq> set (h_posted st')" and "set (h_log st) \<subseteq> set (h_log st')"
  shows "rpc_answers_ok st'"
proof -
  have "\<exists>now req. (c, req) \<in> set (h_posted st') \<and> Ran now req (RespOk (rq_id req) result) \<in> set (h_log st')"
    if "(c, Inr result) \<in> set (rp_settled st)" for c result
    using that assms(1,4,5) unfolding rpc_answers_ok_def by blast
  moreover have "fst ` set (rp_settled st) \<subseteq> fst ` set (h_calls st')" using assms(1,3) unfolding rpc_answers_ok_def by blast
  ultimately show ?thesis using assms(1) unfolding rpc_answers_ok_def assms(2) by blast
qed

lemma answers_ok_settle:
  assumes "rpc_answers_ok st" and "c \<in> fst ` set (h_calls st)"
    and "\<And>result. r = Inr result \<Longrightarrow> \<exists>now req. (c, req) \<in> set (h_posted st) \<and> Ran now req (RespOk (rq_id req) result) \<in> set (h_log st)"
  shows "rpc_answers_ok (settle c r st)"
proof (cases "c \<in> fst ` set (rp_settled st)")
  case True
  with assms(1) show ?thesis by (simp add: settle_def)
next
  case False
  then have s: "rp_settled (settle c r st) = rp_settled st @ [(c, r)]" by (simp add: settle_def)
  have "\<exists>now req. (c', req) \<in> set (h_posted st) \<and> Ran now req (RespOk (rq_id req) result) \<in> set (h_log st)"
    if "(c', Inr result) \<in> set (rp_settled st @ [(c, r)])" for c' result
    using that assms(1,3) by (auto simp: rpc_answers_ok_def)
  moreover have "distinct (map fst (rp_settled st @ [(c, r)]))" using assms(1) False by (simp add: rpc_answers_ok_def)
  moreover have "fst ` set (rp_settled st @ [(c, r)]) \<subseteq> fst ` set (h_calls st)" using assms(1,2) by (simp add: rpc_answers_ok_def)
  ultimately show ?thesis unfolding rpc_answers_ok_def s settle_keep by blast
qed

lemma answers_ok_error: "rpc_answers_ok st \<Longrightarrow> c \<in> fst ` set (h_calls st) \<Longrightarrow> rpc_answers_ok (settle c (Inl e) st)"
  by (rule answers_ok_settle) simp_all

lemma answers_ok_errors:
  "rpc_answers_ok st \<Longrightarrow> set cs \<subseteq> fst ` set (h_calls st) \<Longrightarrow> rpc_answers_ok (settle_all cs (Inl e) st)"
  by (induction cs arbitrary: st) (simp_all add: answers_ok_error)

text \<open>The answer a listener finds in \<open>pending\<close> is the one to the request of the call that waits.\<close>

lemma answers_ok_message:
  assumes "rpc_answers_ok st" and "rpc_ids_ok st" and "rpc_calls_ok st" and "replay E (h_log st) d = Some d'"
    and "subseq (executed (h_log st)) (map snd (h_posted st))"
    and "resp_id msg = 0 \<or> (\<exists>now req. Ran now req msg \<in> set (h_log st))"
  shows "rpc_answers_ok (rpc_onMessage msg st)"
proof (cases "resp_id msg = 0 \<or> map_of (rp_pending st) (resp_id msg) = None")
  case True
  then show ?thesis using assms(1) by (auto simp: rpc_onMessage_def)
next
  case False
  then obtain c where id: "resp_id msg \<noteq> 0" and c: "map_of (rp_pending st) (resp_id msg) = Some c" by auto
  from assms(6) id obtain now req where ran: "Ran now req msg \<in> set (h_log st)" by blast
  with replay_ids [OF assms(4)] have rid: "resp_id msg = rq_id req" by simp
  from executed_Ran [OF ran] subseq_set [OF assms(5)] have "req \<in> snd ` set (h_posted st)" by auto
  then obtain c' where c': "(c', req) \<in> set (h_posted st)" by auto
  from c assms(2) obtain req' where "(c, req') \<in> set (h_posted st)" "rq_id req' = resp_id msg"
    unfolding rpc_ids_ok_def by (fastforce dest: map_of_SomeD)
  with ids_unique [OF assms(2) c', of "(c, req')"] rid c' have post: "(c, req) \<in> set (h_posted st)" by auto
  then have "(c, rq_op req, rq_args req) \<in> set (h_calls st)" using assms(3) by (force simp: rpc_calls_ok_def rpc_known_def)
  then have call: "c \<in> fst ` set (h_calls st)" by force
  have settled: "\<exists>now req. (c, req) \<in> set (h_posted st) \<and> Ran now req (RespOk (rq_id req) result) \<in> set (h_log st)"
    if "sq_settle msg = Inr result" for result
    using that post ran rid by (cases msg) (auto simp: sq_settle_def)
  have "rpc_answers_ok (st\<lparr>rp_pending := AList.delete (resp_id msg) (rp_pending st)\<rparr>)"
    by (rule answers_ok_keep [OF assms(1)]) simp_all
  then have "rpc_answers_ok (settle c (sq_settle msg) (st\<lparr>rp_pending := AList.delete (resp_id msg) (rp_pending st)\<rparr>))"
    by (rule answers_ok_settle) (use call settled in simp_all)
  with id c show ?thesis by (simp add: rpc_onMessage_def)
qed

definition rpc_ok :: "'s sqlite_env \<Rightarrow> 's \<Rightarrow> 's rpc \<Rightarrow> bool" where
  "rpc_ok E d st \<longleftrightarrow> rpc_calls_ok st \<and> rpc_ids_ok st \<and> rpc_work_ok E d st \<and> rpc_answers_ok st"

lemma answers_ok_call:
  assumes "rpc_answers_ok st"
  shows "rpc_answers_ok (rpc_call spawn c op args st)"
proof -
  let ?st = "(rpc_ensureWorker spawn st)\<lparr>h_calls := h_calls st @ [(c, op, args)]\<rparr>"
  have a: "rpc_answers_ok ?st" by (rule answers_ok_keep [OF assms]) auto
  show ?thesis
  proof (cases "rp_ready ?st")
    case (StartFailed e)
    then have "rpc_call spawn c op args st = settle c (Inl e) ?st" by (simp add: rpc_call_def Let_def)
    with answers_ok_error [OF a, of c e] show ?thesis by simp
  qed (use a in \<open>simp_all add: rpc_call_def Let_def rpc_answers_ok_def\<close>)
qed

lemma ok_call:
  assumes "rpc_ok E d st" and "fresh_call c st"
  shows "rpc_ok E d (rpc_call spawn c op args st)"
proof -
  have w: "rpc_work_ok E d st" using assms(1) by (simp add: rpc_ok_def)
  have "set (rp_outbox (rpc_call spawn c op args st)) \<subseteq> set (rp_outbox st)"
    "rp_inbox (rpc_call spawn c op args st) = rp_inbox st \<or> rp_inbox (rpc_call spawn c op args st) = []"
    by (simp_all add: rpc_call_def rpc_ensureWorker_def Let_def split: ready_promise.splits option.splits)
  then have "rpc_work_ok E d (rpc_call spawn c op args st)" by (intro work_ok_keep [OF w]) auto
  then show ?thesis
    using assms calls_ok_add [OF _ assms(2)] ids_ok_keep [of st "rpc_call spawn c op args st"] answers_ok_call [of st]
    by (simp add: rpc_ok_def)
qed

lemma ok_post:
  assumes "rpc_ok E d st" and x: "x \<in> set (rp_resumed st)"
  shows "rpc_ok E d (rpc_post x st)"
proof -
  obtain c op args where c: "x = (c, op, args)" by (cases x)
  from assms have "x \<in> set (h_calls st)" by (auto simp: rpc_ok_def rpc_calls_ok_def rpc_known_def)
  then have call: "c \<in> fst ` set (h_calls st)" using c by (metis fst_conv imageI)
  let ?req = "\<lparr>rq_id = rp_nextRequestId st, rq_op = op, rq_args = args\<rparr>"
  let ?st = "st\<lparr>rp_resumed := remove1 x (rp_resumed st), rp_nextRequestId := rp_nextRequestId st + 1,
    rp_pending := AList.update (rp_nextRequestId st) c (rp_pending st), h_posted := h_posted st @ [(c, ?req)]\<rparr>"
  have "rpc_answers_ok st" using assms(1) by (simp add: rpc_ok_def)
  then have a: "rpc_answers_ok ?st" by (rule answers_ok_keep) auto
  have "rpc_answers_ok (settle c (Inl e) ?st)" for e by (rule answers_ok_error [OF a]) (use call in simp)
  moreover have "rpc_answers_ok (?st\<lparr>rp_inbox := i\<rparr>)" for i by (rule answers_ok_keep [OF a]) simp_all
  ultimately have "rpc_answers_ok (rpc_post x st)" using a by (simp add: rpc_post_def Let_def c)
  with assms show ?thesis by (simp add: rpc_ok_def calls_ok_post ids_ok_post work_ok_post)
qed

lemma ok_first:
  assumes "rpc_ok E d st"
  shows "rpc_ok E d (rpc_onFirst msg st)"
proof -
  let ?st = "st\<lparr>rp_once := False, rp_awaiting := []\<rparr>"
  have w: "rpc_work_ok E d st" and a: "rpc_answers_ok st" and c: "rpc_calls_ok st" using assms by (simp_all add: rpc_ok_def)
  have waiting: "set (map fst (rp_awaiting st)) \<subseteq> fst ` set (h_calls st)"
    using c by (auto simp: rpc_calls_ok_def rpc_known_def)
  have "rpc_answers_ok (settle_all (map fst (rp_awaiting st)) (Inl e) (?st\<lparr>rp_ready := q\<rparr>))" for e q
    by (rule answers_ok_errors [OF answers_ok_keep [OF a]]) (use waiting in simp_all)
  moreover have "rpc_answers_ok (?st\<lparr>rp_ready := q, rp_resumed := rs\<rparr>)" for q rs by (rule answers_ok_keep [OF a]) simp_all
  ultimately have "rpc_answers_ok (rpc_onFirst msg st)" using a by (simp add: rpc_onFirst_def Let_def split: worker_response.split)
  moreover have "rpc_work_ok E d (rpc_onFirst msg st)" by (rule work_ok_keep [OF w]) auto
  ultimately show ?thesis
    using assms calls_ok_first [OF c] ids_ok_keep [of st "rpc_onFirst msg st"] by (simp add: rpc_ok_def)
qed

lemma ok_keep:
  assumes "rpc_ok E d st" and "rp_awaiting st' = rp_awaiting st" "rp_resumed st' = rp_resumed st" "h_posted st' = h_posted st"
    "h_calls st' = h_calls st" "rp_nextRequestId st' = rp_nextRequestId st" "set (rp_pending st') \<subseteq> set (rp_pending st)"
    and "rpc_work_ok E d st'" and "rpc_answers_ok st'"
  shows "rpc_ok E d st'"
  using assms ids_ok_keep [of st st'] spots_keep [of st' st] by (simp add: rpc_ok_def)

lemma ok_message:
  assumes "rpc_ok E d st" and "resp_id msg = 0 \<or> (\<exists>now req. Ran now req msg \<in> set (h_log st))"
  shows "rpc_ok E d (rpc_onMessage msg st)"
proof (rule ok_keep [OF assms(1)])
  have w: "rpc_work_ok E d st" using assms(1) by (simp add: rpc_ok_def)
  show "rpc_work_ok E d (rpc_onMessage msg st)" by (rule work_ok_keep [OF w]) auto
  from w have r: "replay E (h_log st) d = Some (rp_db st)" "subseq (executed (h_log st)) (map snd (h_posted st))"
    by (auto simp: rpc_work_ok_def dest: subseq_front)
  show "rpc_answers_ok (rpc_onMessage msg st)" using assms answers_ok_message [OF _ _ _ r] by (simp add: rpc_ok_def)
qed (simp_all add: pending_sub)

lemma ok_error:
  assumes "rpc_ok E d st"
  shows "rpc_ok E d (rpc_onError e st)"
proof (rule ok_keep [OF assms])
  have w: "rpc_work_ok E d st" and a: "rpc_answers_ok st" and i: "rpc_ids_ok st" and c: "rpc_calls_ok st"
    using assms by (simp_all add: rpc_ok_def)
  show "rpc_work_ok E d (rpc_onError e st)" by (rule work_ok_keep [OF w]) auto
  have posted: "fst p \<in> fst ` set (h_calls st)" if "p \<in> set (h_posted st)" for p
  proof -
    from that c have "(fst p, rq_op (snd p), rq_args (snd p)) \<in> set (h_calls st)" by (auto simp: rpc_calls_ok_def rpc_known_def)
    then show ?thesis by (metis fst_conv imageI)
  qed
  have "set (map snd (rp_pending st)) \<subseteq> fst ` set (h_calls st)"
  proof
    fix x assume "x \<in> set (map snd (rp_pending st))"
    then obtain n where "(n, x) \<in> set (rp_pending st)" by auto
    with i obtain req where "(x, req) \<in> set (h_posted st)" unfolding rpc_ids_ok_def by blast
    with posted [of "(x, req)"] show "x \<in> fst ` set (h_calls st)" by simp
  qed
  then have "rpc_answers_ok (settle_all (map snd (rp_pending st)) (Inl e) st)" by (rule answers_ok_errors [OF a])
  then show "rpc_answers_ok (rpc_onError e st)" unfolding rpc_onError_def by (rule answers_ok_keep) simp_all
qed (simp_all add: pending_sub)

lemma ok_deliver:
  assumes "rpc_ok E d st"
  shows "rpc_ok E d (rpc_deliver st)"
proof (cases "rp_outbox st")
  case Nil
  with assms show ?thesis by (simp add: rpc_deliver_def)
next
  case (Cons ev evs)
  let ?st = "st\<lparr>rp_outbox := evs\<rparr>"
  have w: "rpc_work_ok E d st" and a: "rpc_answers_ok st" using assms by (simp_all add: rpc_ok_def)
  have "rpc_work_ok E d ?st" by (rule work_ok_keep [OF w]) (use Cons in auto)
  moreover have "rpc_answers_ok ?st" by (rule answers_ok_keep [OF a]) simp_all
  ultimately have ok: "rpc_ok E d ?st" by (intro ok_keep [OF assms]) simp_all
  show ?thesis
  proof (cases ev)
    case (ErrorEvent e)
    with ok_error [OF ok] Cons show ?thesis by (simp add: rpc_deliver_def)
  next
    case (Message msg)
    with w Cons have "resp_id msg = 0 \<or> (\<exists>now req. Ran now req msg \<in> set (h_log st))" by (simp add: rpc_work_ok_def)
    with ok_message [OF ok_first [OF ok]] have "rpc_ok E d (rpc_onMessage msg (rpc_onFirst msg ?st))" by simp
    with Message Cons show ?thesis by (simp add: rpc_deliver_def)
  qed
qed

lemma ok_log:
  assumes "rpc_ok E d st" and "rpc_work_ok E d st'" and "rp_awaiting st' = rp_awaiting st" "rp_resumed st' = rp_resumed st"
    "h_posted st' = h_posted st" "h_calls st' = h_calls st" "rp_nextRequestId st' = rp_nextRequestId st" "rp_pending st' = rp_pending st"
    "rp_settled st' = rp_settled st" "set (h_log st) \<subseteq> set (h_log st')"
  shows "rpc_ok E d st'"
proof (rule ok_keep [OF assms(1,3-7)])
  have "rpc_answers_ok st" using assms(1) by (simp add: rpc_ok_def)
  then show "rpc_answers_ok st'" by (rule answers_ok_keep) (simp_all add: assms)
qed (simp_all add: assms)

lemma ok_boot:
  assumes "rpc_ok E d st"
  shows "rpc_ok E d (rpc_boot E st)"
proof (rule ok_log [OF assms(1)])
  have w: "rpc_work_ok E d st" using assms(1) by (simp add: rpc_ok_def)
  show "rpc_work_ok E d (rpc_boot E st)"
    by (rule work_ok_log [OF w, where en = Opened and rest = "rp_inbox st"]) (auto simp: rpc_boot_def split: prod.splits sum.splits)
qed (auto simp: rpc_boot_def split: prod.split sum.split)

lemma ok_handle:
  assumes "rpc_ok E d st"
  shows "rpc_ok E d (rpc_handle E now st)"
proof (cases "rp_inbox st")
  case Nil
  with assms show ?thesis by (simp add: rpc_handle_def)
next
  case (Cons req reqs)
  obtain resp d1 where h: "wk_onMessage (se_db E) now req (rp_db st) = (resp, d1)" by fastforce
  have w: "rpc_work_ok E d st" using assms by (simp add: rpc_ok_def)
  have "rpc_work_ok E d (rpc_handle E now st)"
    by (rule work_ok_log [OF w, where en = "Ran now req resp" and rest = reqs]) (auto simp: rpc_handle_def Cons h)
  then show ?thesis by (rule ok_log [OF assms]) (auto simp: rpc_handle_def Cons h)
qed

lemma ok_terminate:
  assumes "rpc_ok E d st"
  shows "rpc_ok E d (rpc_terminate E n c st)"
proof (rule ok_log [OF assms])
  have w: "rpc_work_ok E d st" using assms by (simp add: rpc_ok_def)
  show "rpc_work_ok E d (rpc_terminate E n c st)"
  proof (cases "se_terminate E (rp_db st)")
    case (Pair r d1)
    then show ?thesis
      by (cases r; intro work_ok_log [OF w, where en = Stopped and rest = "rp_inbox st"]) (auto simp: rpc_terminate_def dest: in_set_takeD)
  qed
qed (auto simp: rpc_terminate_def split: prod.split sum.split)

lemma ok_fields:
  "rpc_ok E d (st\<lparr>rp_close := x\<rparr>) = rpc_ok E d st"
  "rpc_ok E d (st\<lparr>rp_worker := u, rp_ready := q\<rparr>) = rpc_ok E d st"
  by (simp_all add: rpc_ok_def rpc_calls_ok_def rpc_spots_def rpc_known_def rpc_ids_ok_def rpc_work_ok_def rpc_answers_ok_def)

lemma ok_close: "rpc_ok E d st \<Longrightarrow> fresh_call c st \<Longrightarrow> rpc_ok E d (rpc_close c st)"
  by (simp add: rpc_close_def ok_fields ok_call)

lemma ok_closed: "rpc_ok E d st \<Longrightarrow> rpc_ok E d (rpc_closed st)"
  by (simp add: rpc_closed_def ok_fields)

lemma ok_crash: "rpc_ok E d st \<Longrightarrow> rpc_ok E d (rpc_crash e st)"
  by (rule ok_log [of E d st], assumption, rule work_ok_keep [of E d st]) (simp_all add: rpc_crash_def rpc_ok_def)

lemma ok_crash_handling:
  assumes "rpc_ok E d st"
  shows "rpc_ok E d (rpc_crash_handling E now e st)"
proof (cases "rp_inbox st")
  case Nil
  with ok_crash [OF assms, of e] show ?thesis by (simp add: rpc_crash_handling_def rpc_handle_def)
next
  case (Cons req reqs)
  obtain resp d1 where h: "wk_onMessage (se_db E) now req (rp_db st) = (resp, d1)" by fastforce
  have w: "rpc_work_ok E d st" using assms by (simp add: rpc_ok_def)
  have "rpc_work_ok E d (rpc_crash_handling E now e st)"
    by (rule work_ok_log [OF w, where en = "Ran now req resp" and rest = reqs])
      (auto simp: rpc_crash_handling_def rpc_crash_def rpc_handle_def Cons h)
  then show ?thesis by (rule ok_log [OF assms]) (auto simp: rpc_crash_handling_def rpc_crash_def rpc_handle_def Cons h)
qed

text \<open>A thread that is neither starting nor serving has no requests, and without a worker there is nothing under way.\<close>

definition rpc_thread_ok :: "'s rpc \<Rightarrow> bool" where
  "rpc_thread_ok st \<longleftrightarrow> (rp_thread st \<noteq> Serving \<and> rp_thread st \<noteq> Booting \<longrightarrow> rp_inbox st = []) \<and>
     (rp_ready st = Starting \<or> rp_ready st = Started \<longrightarrow> rp_worker st) \<and>
     (rp_ready st = NotStarted \<longrightarrow> \<not> rp_worker st) \<and>
     (\<not> rp_worker st \<longrightarrow> rp_thread st \<noteq> Booting \<and> rp_thread st \<noteq> Serving \<and> rp_outbox st = [] \<and> rp_close st = NoClose) \<and>
     (\<forall>c. rp_close st = Terminating c \<longrightarrow> rp_thread st = Gone)"

lemma thread_ok_event:
  "rpc_thread_ok st \<Longrightarrow> rp_worker st \<Longrightarrow> rpc_thread_ok (rpc_onFirst msg st)"
  "rpc_thread_ok (rpc_onMessage msg st) = rpc_thread_ok st" "rpc_thread_ok (rpc_onError e st) = rpc_thread_ok st"
  by (auto simp: rpc_thread_ok_def rpc_onFirst_def rpc_onMessage_def rpc_onError_def Let_def split: worker_response.splits option.splits)

lemma thread_ok_deliver:
  assumes "rpc_thread_ok st"
  shows "rpc_thread_ok (rpc_deliver st)"
proof (cases "rp_outbox st")
  case Nil
  with assms show ?thesis by (simp add: rpc_deliver_def)
next
  case (Cons ev evs)
  with assms have "rp_worker st" and st: "rpc_thread_ok (st\<lparr>rp_outbox := evs\<rparr>)" by (auto simp: rpc_thread_ok_def)
  with thread_ok_event(1) [OF st] Cons show ?thesis
    by (simp add: rpc_deliver_def Let_def thread_ok_event(2,3) split: thread_event.split)
qed

lemma thread_ok_step: "rpc_step E st st' \<Longrightarrow> rpc_thread_ok st \<Longrightarrow> rpc_thread_ok st'"
proof (induction rule: rpc_step.induct)
  case (deliver st)
  then show ?case by (rule thread_ok_deliver)
qed (auto simp: rpc_thread_ok_def rpc_call_def rpc_ensureWorker_def rpc_post_def rpc_boot_def rpc_handle_def rpc_crash_def rpc_crash_handling_def rpc_close_def
    rpc_terminate_def rpc_closed_def Let_def split: option.splits ready_promise.splits prod.splits sum.splits list.splits)

lemma thread_ok_reach: "rpc_reach E d st \<Longrightarrow> rpc_thread_ok st"
proof (induction rule: rpc_reach_induct)
  case new
  show ?case by (simp add: rpc_thread_ok_def rpc_new_def)
qed (blast intro: thread_ok_step)

lemma ok_step: "rpc_step E st st' \<Longrightarrow> rpc_thread_ok st \<Longrightarrow> rpc_ok E d st \<Longrightarrow> rpc_ok E d st'"
  by (induction rule: rpc_step.induct)
    (simp_all add: ok_call ok_post ok_deliver ok_boot rpc_thread_ok_def ok_handle ok_crash ok_crash_handling ok_close ok_terminate ok_closed)

lemma rpc_ok_reach: "rpc_reach E d st \<Longrightarrow> rpc_ok E d st"
proof (induction rule: rpc_reach_induct)
  case new
  show ?case
    by (simp add: rpc_ok_def rpc_new_def rpc_calls_ok_def rpc_spots_def rpc_known_def rpc_ids_ok_def rpc_work_ok_def rpc_answers_ok_def)
next
  case (step st st')
  show ?case by (rule ok_step [OF step(2) thread_ok_reach [OF step(1)] step(3)])
qed

section \<open>Properties\<close>

lemma distinct_part:
  assumes "mset xs \<subseteq># mset ys" and "distinct ys"
  shows "distinct xs"
proof -
  have "count (mset xs) a = (if a \<in> set xs then 1 else 0)" for a
  proof -
    have "count (mset xs) a \<le> count (mset ys) a" using assms(1) by (rule mset_subset_eq_count)
    also have "\<dots> \<le> 1" using assms(2) by (simp add: distinct_count_atmost_1)
    finally show ?thesis by (cases "a \<in> set xs") (simp_all add: count_eq_zero_iff le_Suc_eq)
  qed
  then show ?thesis by (simp add: distinct_count_atmost_1)
qed

text \<open>C9. Overlapping calls are answered right: in every state any interleaving of calls, messages, crashes and
  restarts reaches, the database is the one the executed requests give when run one after the other, in
  the order they were posted and each at most once; a promise settles once; and a call that
  returned got the worker's answer to its own request, which carries its operation and arguments.\<close>

theorem sqlite_calls_serialized:
  assumes "rpc_reach E d st"
  shows "replay E (h_log st) d = Some (rp_db st) \<and> subseq (executed (h_log st)) (map snd (h_posted st)) \<and>
    distinct (map (\<lambda>p. rq_id (snd p)) (h_posted st)) \<and> distinct (map fst (h_posted st)) \<and> distinct (map fst (rp_settled st)) \<and>
    (\<forall>c result. (c, Inr result) \<in> set (rp_settled st) \<longrightarrow>
      (\<exists>now req. (c, req) \<in> set (h_posted st) \<and> (c, rq_op req, rq_args req) \<in> set (h_calls st) \<and>
        Ran now req (RespOk (rq_id req) result) \<in> set (h_log st)))"
proof -
  from rpc_ok_reach [OF assms] have calls: "rpc_calls_ok st" and ids: "rpc_ids_ok st" and work: "rpc_work_ok E d st"
    and answers: "rpc_answers_ok st" by (simp_all add: rpc_ok_def)
  from calls have "mset (map fst (h_posted st)) \<subseteq># mset (map fst (h_calls st))"
    unfolding rpc_calls_ok_def rpc_spots_def by (meson mset_subset_eq_add_right subset_mset.order_trans)
  moreover have "distinct (map fst (h_calls st))" using calls by (simp add: rpc_calls_ok_def)
  ultimately have once: "distinct (map fst (h_posted st))"
    by (rule distinct_part)
  have own: "(c, rq_op req, rq_args req) \<in> set (h_calls st)" if "(c, req) \<in> set (h_posted st)" for c req
    using that calls by (force simp: rpc_calls_ok_def rpc_known_def)
  have "distinct (map (\<lambda>p. rq_id (snd p)) (h_posted st))" using ids by (simp add: rpc_ids_ok_def strict_sorted_iff)
  with once own work answers show ?thesis
    unfolding rpc_work_ok_def rpc_answers_ok_def by (blast dest: subseq_front)
qed

section \<open>One call at a time\<close>

text \<open>Nothing under way: the state the sequential model of the adapter (\<open>sq_call\<close>) knows.\<close>

definition rpc_quiet :: "'s rpc \<Rightarrow> bool" where
  "rpc_quiet st \<longleftrightarrow> rp_awaiting st = [] \<and> rp_resumed st = [] \<and> rp_inbox st = [] \<and> rp_outbox st = [] \<and> rp_close st = NoClose \<and>
     rp_ready st \<noteq> Starting \<and> (rp_ready st = Started \<longrightarrow> rp_thread st = Serving \<and> \<not> rp_once st)"

definition rpc_view :: "'s rpc \<Rightarrow> 's sqlite" where
  "rpc_view st = \<lparr>sq_worker = rp_worker st,
     sq_ready = (case rp_ready st of Started \<Rightarrow> Some (Inr ()) | StartFailed e \<Rightarrow> Some (Inl e) | _ \<Rightarrow> None),
     sq_nextRequestId = rp_nextRequestId st, sq_db = rp_db st\<rparr>"

lemma settle_fresh: "c \<notin> fst ` set (rp_settled st) \<Longrightarrow> settle c r st = st\<lparr>rp_settled := rp_settled st @ [(c, r)]\<rparr>"
  by (simp add: settle_def)

text \<open>A call that may post: its request is sent, executed, and its answer delivered.\<close>

lemma post_alone:
  assumes "rp_thread st = Serving" and "rp_ready st = Started" and "rp_worker st" and "\<not> rp_once st" and "rp_awaiting st = []"
    and "rp_resumed st = [(c, op, args)]" and "rp_inbox st = []" and "rp_outbox st = []" and "rp_close st = NoClose"
    and "0 < rp_nextRequestId st" and "c \<notin> fst ` set (rp_settled st)"
    and "sq_post E now op args (rpc_view st) = (r, v')"
  shows "\<exists>st'. (rpc_step E)\<^sup>*\<^sup>* st st' \<and> rpc_quiet st' \<and> rpc_view st' = v' \<and> rp_settled st' = rp_settled st @ [(c, r)]"
proof -
  let ?req = "\<lparr>rq_id = rp_nextRequestId st, rq_op = op, rq_args = args\<rparr>"
  obtain resp d1 where h: "wk_onMessage (se_db E) now ?req (rp_db st) = (resp, d1)" by fastforce
  have id: "resp_id resp = rp_nextRequestId st" using wk_onMessage_id [of "se_db E" now ?req "rp_db st"] h by simp
  let ?st1 = "rpc_post (c, op, args) st"
  let ?st2 = "rpc_handle E now ?st1"
  let ?st3 = "rpc_deliver ?st2"
  have st1: "rp_inbox ?st1 = [?req]" "rp_thread ?st1 = Serving" "rp_db ?st1 = rp_db st" "rp_outbox ?st1 = []"
    using assms by (simp_all add: rpc_post_def Let_def)
  have st2: "?st2 = ?st1\<lparr>rp_inbox := [], rp_outbox := [Message resp], rp_db := d1, h_log := h_log ?st1 @ [Ran now ?req resp]\<rparr>"
    by (simp add: rpc_handle_def st1 h)
  have once: "rp_once ?st1 = rp_once st" using assms by (simp add: rpc_post_def Let_def)
  have st3: "?st3 = rpc_onMessage resp (?st2\<lparr>rp_outbox := []\<rparr>)"
    using once assms(4) by (simp add: rpc_deliver_def st2 rpc_onFirst_def)
  have "rpc_step E st ?st1" "rpc_step E ?st1 ?st2" "rpc_step E ?st2 ?st3"
    using assms(6) st1(2) by (auto intro: rpc_step.intros)
  then have steps: "(rpc_step E)\<^sup>*\<^sup>* st ?st3" by (meson r_into_rtranclp rtranclp_trans)
  have fields: "rp_pending ?st1 = AList.update (rp_nextRequestId st) c (rp_pending st)" "rp_settled ?st1 = rp_settled st"
    "rp_awaiting ?st1 = []" "rp_resumed ?st1 = []" "rp_close ?st1 = NoClose" "rp_ready ?st1 = Started" "rp_worker ?st1"
    "rp_nextRequestId ?st1 = rp_nextRequestId st + 1"
    using assms by (simp_all add: rpc_post_def Let_def)
  have fin: "?st3 = ?st2\<lparr>rp_outbox := [], rp_pending := AList.delete (resp_id resp) (rp_pending ?st1),
      rp_settled := rp_settled st @ [(c, sq_settle resp)]\<rparr>"
    using assms(10,11) unfolding st3 by (simp add: rpc_onMessage_def id st2 fields update_conv' settle_fresh)
  have r: "r = sq_settle resp" "v' = (rpc_view st)\<lparr>sq_nextRequestId := rp_nextRequestId st + 1, sq_db := d1\<rparr>"
    using assms(12) h by (simp_all add: sq_post_def rpc_view_def Let_def)
  have "rpc_quiet ?st3" using fields st1 once assms(4) unfolding fin unfolding st2 by (simp add: rpc_quiet_def)
  moreover have "rpc_view ?st3 = v'" using fields assms(2,3) unfolding fin unfolding st2 by (simp add: r rpc_view_def)
  moreover have "rp_settled ?st3 = rp_settled st @ [(c, r)]" unfolding fin by (simp add: r)
  ultimately show ?thesis using steps by blast
qed

text \<open>A call on a started worker; a call that starts the worker.\<close>

lemma call_alone_started:
  assumes "rp_ready st = Started" and "rpc_quiet st" and "rp_worker st" and "fresh_call c st" and "c \<notin> fst ` set (rp_settled st)"
    and "0 < rp_nextRequestId st" and "sq_call E now op args (rpc_view st) = (r, v')"
  shows "\<exists>st'. (rpc_step E)\<^sup>*\<^sup>* st st' \<and> rpc_quiet st' \<and> rpc_view st' = v' \<and> rp_settled st' = rp_settled st @ [(c, r)]"
proof -
  let ?st1 = "rpc_call None c op args st"
  have st1: "?st1 = st\<lparr>h_calls := h_calls st @ [(c, op, args)], rp_resumed := [(c, op, args)]\<rparr>"
    using assms(1,2) by (simp add: rpc_call_def rpc_ensureWorker_def rpc_quiet_def)
  have "sq_post E now op args (rpc_view ?st1) = (r, v')"
    using assms(1,7) by (simp add: st1 sq_call_def thenA_def bindA_def sq_ensureWorker_def rpc_view_def)
  from post_alone [OF _ _ _ _ _ _ _ _ _ _ _ this, of c] assms
  obtain st' where "(rpc_step E)\<^sup>*\<^sup>* ?st1 st'" "rpc_quiet st'" "rpc_view st' = v'" "rp_settled st' = rp_settled st @ [(c, r)]"
    by (auto simp: st1 rpc_quiet_def)
  moreover have "rpc_step E st ?st1" by (rule rpc_step.call [OF assms(4)])
  ultimately show ?thesis by (intro exI [of _ st']) (auto intro: converse_rtranclp_into_rtranclp)
qed

lemma call_alone_cold:
  assumes "rp_ready st = NotStarted" and "rpc_quiet st" and "fresh_call c st" and "c \<notin> fst ` set (rp_settled st)"
    and "0 < rp_nextRequestId st" and "sq_call E now op args (rpc_view st) = (r, v')"
    and "se_spawn E (rp_db st) = None" and "\<forall>s e s'. se_start E s = (Inl e, s') \<longrightarrow> (\<exists>m. e = WorkerFailed m)"
  shows "\<exists>st'. (rpc_step E)\<^sup>*\<^sup>* st st' \<and> rpc_quiet st' \<and> rpc_view st' = v' \<and> rp_settled st' = rp_settled st @ [(c, r)]"
proof -
  obtain q d1 where start: "se_start E (rp_db st) = (q, d1)" by fastforce
  let ?st1 = "rpc_call None c op args st"
  let ?st2 = "rpc_boot E ?st1"
  let ?st3 = "rpc_deliver ?st2"
  have st1: "?st1 = st\<lparr>rp_worker := True, rp_ready := Starting, rp_once := True, rp_thread := Booting, rp_inbox := [], rp_outbox := [],
      h_calls := h_calls st @ [(c, op, args)], rp_awaiting := [(c, op, args)]\<rparr>"
    using assms(1,2) by (simp add: rpc_call_def rpc_ensureWorker_def rpc_quiet_def)
  have "rpc_step E ?st1 ?st2" by (rule rpc_step.boot) (simp add: st1)
  with rpc_step.call [OF assms(3)] have steps: "(rpc_step E)\<^sup>*\<^sup>* st ?st3" by (meson r_into_rtranclp rtranclp_trans rpc_step.deliver)
  show ?thesis
  proof (cases q)
    case (Inl e)
    with assms(8) start obtain m where m: "e = WorkerFailed m" by blast
    have "?st3 = ?st2\<lparr>rp_outbox := [], rp_once := False, rp_awaiting := [], rp_ready := StartFailed e,
        rp_settled := rp_settled st @ [(c, Inl e)]\<rparr>"
      using assms(4) start Inl m by (simp add: rpc_deliver_def rpc_boot_def st1 rpc_onFirst_def rpc_onMessage_def settle_def)
    moreover have "r = Inl e \<and> v' = (rpc_view st)\<lparr>sq_worker := True, sq_ready := Some (Inl e), sq_db := d1\<rparr>"
      using assms(1,6,7) start Inl by (simp add: sq_call_def thenA_def bindA_def sq_ensureWorker_def rpc_view_def)
    ultimately show ?thesis using steps assms(2) start Inl
      by (intro exI [of _ ?st3]) (simp add: rpc_quiet_def rpc_view_def rpc_boot_def st1)
  next
    case (Inr u)
    have st3: "?st3 = ?st2\<lparr>rp_outbox := [], rp_once := False, rp_awaiting := [], rp_ready := Started, rp_resumed := [(c, op, args)]\<rparr>"
      using start Inr assms(2) by (simp add: rpc_deliver_def rpc_boot_def st1 rpc_onFirst_def rpc_onMessage_def rpc_quiet_def)
    have st2: "rp_thread ?st2 = Serving" "rp_worker ?st2" "rp_inbox ?st2 = []" "rp_close ?st2 = NoClose"
      "rp_nextRequestId ?st2 = rp_nextRequestId st" "rp_settled ?st2 = rp_settled st" "rp_db ?st2 = d1"
      using start Inr assms(2) by (simp_all add: rpc_boot_def st1 rpc_quiet_def)
    have "sq_post E now op args (rpc_view ?st3) = (r, v')"
      using assms(1,6,7) start Inr by (simp add: st3 st2 sq_call_def thenA_def bindA_def sq_ensureWorker_def rpc_view_def)
    from post_alone [OF _ _ _ _ _ _ _ _ _ _ _ this, of c] assms(4,5) st2
    obtain st' where "(rpc_step E)\<^sup>*\<^sup>* ?st3 st'" "rpc_quiet st'" "rpc_view st' = v'" "rp_settled st' = rp_settled st @ [(c, r)]"
      by (auto simp: st3)
    with steps show ?thesis by (intro exI [of _ st']) (auto intro: rtranclp_trans)
  qed
qed

text \<open>A call when \<open>new Worker\<close> throws, or when a start has failed before.\<close>

lemma call_alone_failed:
  assumes "rp_ready st = StartFailed e \<or> rp_ready st = NotStarted \<and> se_spawn E (rp_db st) = Some e" and "rpc_quiet st"
    and "fresh_call c st" and "c \<notin> fst ` set (rp_settled st)" and "sq_call E now op args (rpc_view st) = (r, v')"
  shows "\<exists>st'. (rpc_step E)\<^sup>*\<^sup>* st st' \<and> rpc_quiet st' \<and> rpc_view st' = v' \<and> rp_settled st' = rp_settled st @ [(c, r)]"
proof -
  let ?st1 = "rpc_call (se_spawn E (rp_db st)) c op args st"
  have "?st1 = st\<lparr>rp_ready := StartFailed e, h_calls := h_calls st @ [(c, op, args)], rp_settled := rp_settled st @ [(c, Inl e)]\<rparr>"
    using assms(1,4) by (auto simp: rpc_call_def rpc_ensureWorker_def settle_fresh Let_def)
  moreover have "r = Inl e \<and> v' = (rpc_view st)\<lparr>sq_ready := Some (Inl e)\<rparr>"
    using assms(1,5) by (auto simp: sq_call_def thenA_def bindA_def sq_ensureWorker_def rpc_view_def)
  moreover have "rpc_step E st ?st1" by (rule rpc_step.call [OF assms(3)])
  ultimately show ?thesis using assms(2)
    by (intro exI [of _ ?st1]) (auto simp: rpc_quiet_def rpc_view_def)
qed

text \<open>C32. The adapter is reentrant code around the sequential adapter: a call made while nothing else is under way
  settles, with exactly the result of \<open>sq_call\<close>, and leaves the state \<open>sq_call\<close> leaves, whether or not the worker has
  to be started first and whether or not that fails.\<close>

theorem sqlite_call_alone:
  assumes "rpc_reach E d st" and "rpc_quiet st" and "fresh_call c st"
    and "\<forall>s e s'. se_start E s = (Inl e, s') \<longrightarrow> (\<exists>m. e = WorkerFailed m)"
    and "sq_call E now op args (rpc_view st) = (r, v')"
  shows "\<exists>st'. (rpc_step E)\<^sup>*\<^sup>* st st' \<and> rpc_quiet st' \<and> rpc_view st' = v' \<and> rp_settled st' = rp_settled st @ [(c, r)]"
proof -
  from rpc_ok_reach [OF assms(1)] assms(3) have c: "c \<notin> fst ` set (rp_settled st)" and n: "0 < rp_nextRequestId st"
    by (auto simp: rpc_ok_def rpc_answers_ok_def rpc_ids_ok_def fresh_call_def)
  show ?thesis
  proof (cases "rp_ready st")
    case Starting
    with assms(2) show ?thesis by (simp add: rpc_quiet_def)
  next
    case (StartFailed e)
    with assms(2,3,5) c show ?thesis by (intro call_alone_failed [of st e]) simp_all
  next
    case Started
    with thread_ok_reach [OF assms(1)] have "rp_worker st" by (simp add: rpc_thread_ok_def)
    with Started assms(2,3,5) c n show ?thesis by (intro call_alone_started)
  next
    case NotStarted
    show ?thesis
    proof (cases "se_spawn E (rp_db st)")
      case None
      with NotStarted assms(2-5) c n show ?thesis by (intro call_alone_cold)
    next
      case (Some e)
      with NotStarted assms(2,3,5) c show ?thesis by (intro call_alone_failed [of st e]) simp_all
    qed
  qed
qed

section \<open>When the thread dies\<close>

text \<open>The thread is gone and nobody has noticed: the start succeeded or never ended, and nothing more will arrive.\<close>

definition rpc_dead :: "'s rpc \<Rightarrow> bool" where
  "rpc_dead st \<longleftrightarrow> rp_thread st = Gone \<and> (rp_ready st = Starting \<or> rp_ready st = Started) \<and> rp_outbox st = []"

lemma dead_step:
  assumes "rpc_step E st st'" and "rpc_dead st" and "rp_worker st" and "rp_close st = NoClose \<or> (\<exists>c. rp_close st = Calling c \<and> c \<notin> fst ` set (rp_settled st))"
    and "fst ` set (rp_settled st) \<subseteq> fst ` set (h_calls st)"
  shows "rpc_dead st' \<and> rp_worker st' \<and> rp_ready st' = rp_ready st \<and> rp_settled st' = rp_settled st \<and>
    (rp_close st' = NoClose \<or> (\<exists>c. rp_close st' = Calling c \<and> c \<notin> fst ` set (rp_settled st')))"
  using assms
proof (induction rule: rpc_step.induct)
  case (call c st op args)
  then show ?case
    by (auto simp: rpc_dead_def rpc_call_def rpc_ensureWorker_def Let_def)
next
  case (close c st)
  then have "c \<notin> fst ` set (rp_settled st)" by (auto simp: fresh_call_def)
  with close show ?case
    by (auto simp: rpc_dead_def rpc_close_def rpc_call_def rpc_ensureWorker_def Let_def)
qed (auto simp: rpc_dead_def rpc_post_def rpc_deliver_def Let_def)

text \<open>C24. A worker that dies is never replaced: once the thread has ended with an error that was not the answer to the
  start, every call under way or made later, \<open>close\<close> included, waits for ever: whatever happens from
  then on, no promise settles any more and no new worker is started.\<close>

theorem sqlite_crash_hangs:
  assumes "rpc_reach E d st" and "rp_thread st = Gone" and "rp_ready st = Starting \<or> rp_ready st = Started"
    and "rp_outbox st = []" and "rp_close st = NoClose" and "(rpc_step E)\<^sup>*\<^sup>* st st'"
  shows "rp_settled st' = rp_settled st \<and> rp_thread st' = Gone \<and> rp_ready st' = rp_ready st"
proof -
  have dead: "rpc_dead st" "rp_worker st"
    using assms(2-4) thread_ok_reach [OF assms(1)] by (auto simp: rpc_dead_def rpc_thread_ok_def)
  from assms(6) have "rpc_reach E d st' \<and> rpc_dead st' \<and> rp_worker st' \<and> rp_ready st' = rp_ready st \<and> rp_settled st' = rp_settled st \<and>
    (rp_close st' = NoClose \<or> (\<exists>c. rp_close st' = Calling c \<and> c \<notin> fst ` set (rp_settled st')))"
  proof (induction rule: rtranclp_induct)
    case base
    with dead assms(1,5) show ?case by simp
  next
    case (step st1 st2)
    then have reach: "rpc_reach E d st2" unfolding rpc_reach_def by (meson rtranclp.rtrancl_into_rtrancl)
    from step.IH have "rpc_reach E d st1" and d: "rpc_dead st1" "rp_worker st1" and same: "rp_ready st1 = rp_ready st" "rp_settled st1 = rp_settled st"
      and close: "rp_close st1 = NoClose \<or> (\<exists>c. rp_close st1 = Calling c \<and> c \<notin> fst ` set (rp_settled st1))" by blast+
    then have "fst ` set (rp_settled st1) \<subseteq> fst ` set (h_calls st1)"
      using rpc_ok_reach [of E d st1] by (simp add: rpc_ok_def rpc_answers_ok_def)
    from dead_step [OF step.hyps(2) d close this] reach same show ?case by auto
  qed
  then show ?thesis by (simp add: rpc_dead_def)
qed

section \<open>The properties at work\<close>

text \<open>A read that starts the worker; a second one the worker dies on; the events delivered.\<close>

abbreviation demo_call :: rpc_call where
  "demo_call \<equiv> (0, ''get'', [AStr ''bot'', AStr ''creds''])"

abbreviation demo_db :: mem_server where
  "demo_db \<equiv> \<lparr>ms_rows = [], ms_faults = []\<rparr>"

definition demo_started :: "mem_server rpc" where
  "demo_started = rpc_deliver (rpc_boot mem_sqlite (rpc_call None 0 ''get'' [AStr ''bot'', AStr ''creds''] (rpc_new demo_db)))"

definition demo_get :: "mem_server rpc" where
  "demo_get = rpc_deliver (rpc_handle mem_sqlite 7 (rpc_post demo_call demo_started))"

definition demo_dead :: "mem_server rpc" where
  "demo_dead = rpc_deliver (rpc_crash (WorkerFailed ''out of memory'') (rpc_post demo_call demo_started))"

lemma rpc_reach_step: "rpc_reach E d st \<Longrightarrow> rpc_step E st st' \<Longrightarrow> rpc_reach E d st'"
  by (simp add: rpc_reach_def rtranclp.rtrancl_into_rtrancl)

lemma demo_started_reach: "rpc_reach mem_sqlite demo_db demo_started"
proof -
  have "rpc_reach mem_sqlite demo_db (rpc_new demo_db)" by (simp add: rpc_reach_def)
  moreover have "fresh_call 0 (rpc_new demo_db)" by (simp add: fresh_call_def rpc_new_def)
  ultimately have "rpc_reach mem_sqlite demo_db (rpc_call None 0 ''get'' [AStr ''bot'', AStr ''creds''] (rpc_new demo_db))"
    by (rule rpc_reach_step [OF _ rpc_step.call])
  moreover have "rp_thread (rpc_call None 0 ''get'' [AStr ''bot'', AStr ''creds''] (rpc_new demo_db)) = Booting" by code_simp
  ultimately have "rpc_reach mem_sqlite demo_db (rpc_boot mem_sqlite (rpc_call None 0 ''get'' [AStr ''bot'', AStr ''creds''] (rpc_new demo_db)))"
    by (rule rpc_reach_step [OF _ rpc_step.boot])
  then show ?thesis unfolding demo_started_def by (rule rpc_reach_step [OF _ rpc_step.deliver])
qed

lemma demo_posted_reach: "rpc_reach mem_sqlite demo_db (rpc_post demo_call demo_started)"
proof -
  have "demo_call \<in> set (rp_resumed demo_started)" by code_simp
  with demo_started_reach show ?thesis by (rule rpc_reach_step [OF _ rpc_step.post])
qed

lemma demo_serving: "rp_thread (rpc_post demo_call demo_started) = Serving"
  by code_simp

lemma demo_get_reach: "rpc_reach mem_sqlite demo_db demo_get"
  unfolding demo_get_def
  by (rule rpc_reach_step [OF rpc_reach_step [OF demo_posted_reach rpc_step.handle [OF demo_serving]] rpc_step.deliver])

lemma demo_dead_reach: "rpc_reach mem_sqlite demo_db demo_dead"
  unfolding demo_dead_def
  by (rule rpc_reach_step [OF rpc_reach_step [OF demo_posted_reach rpc_step.crash [OF disjI2 [OF demo_serving]]] rpc_step.deliver])

theorem sqlite_calls_serialized_witness:
  "rp_settled demo_get = [(0, Inr (WRow None))] \<and>
   (\<exists>now req. (0, req) \<in> set (h_posted demo_get) \<and> Ran now req (RespOk (rq_id req) (WRow None)) \<in> set (h_log demo_get))"
proof -
  have "rp_settled demo_get = [(0, Inr (WRow None))]" by code_simp
  with sqlite_calls_serialized [OF demo_get_reach] show ?thesis by auto
qed

theorem sqlite_call_alone_witness:
  "\<exists>st'. (rpc_step mem_sqlite)\<^sup>*\<^sup>* (rpc_new demo_db) st' \<and> rp_settled st' = [(0, Inr (WStrs []))]"
proof -
  have new: "rpc_reach mem_sqlite demo_db (rpc_new demo_db)" by (simp add: rpc_reach_def)
  have q: "rpc_quiet (rpc_new demo_db)" and f: "fresh_call 0 (rpc_new demo_db)" and s: "rp_settled (rpc_new demo_db) = []"
    by (simp_all add: rpc_quiet_def fresh_call_def rpc_new_def)
  have ok: "\<forall>s e s'. se_start mem_sqlite s = (Inl e, s') \<longrightarrow> (\<exists>m. e = WorkerFailed m)" by (simp add: mem_sqlite_def)
  have "fst (sq_call mem_sqlite 0 ''listSessions'' [] (rpc_view (rpc_new demo_db))) = Inr (WStrs [])" by code_simp
  then obtain v where "sq_call mem_sqlite 0 ''listSessions'' [] (rpc_view (rpc_new demo_db)) = (Inr (WStrs []), v)"
    by (metis prod.collapse)
  from sqlite_call_alone [OF new q f ok this] s show ?thesis by auto
qed

theorem sqlite_crash_hangs_witness:
  "{rp_settled st |st. (rpc_step mem_sqlite)\<^sup>*\<^sup>* (rpc_call None 1 ''listSessions'' [] demo_dead) st} =
     {[(0, Inl (WorkerFailed ''out of memory''))]}"
proof -
  let ?st0 = "rpc_call None 1 ''listSessions'' [] demo_dead"
  have dead: "rp_thread demo_dead = Gone" "rp_ready demo_dead = Started" "rp_outbox demo_dead = []" "rp_close demo_dead = NoClose"
    "rp_settled demo_dead = [(0, Inl (WorkerFailed ''out of memory''))]" by code_simp+
  have "fresh_call 1 demo_dead" unfolding fresh_call_def by code_simp
  then have call: "rpc_step mem_sqlite demo_dead ?st0" by (rule rpc_step.call)
  have stuck: "rp_settled st = [(0, Inl (WorkerFailed ''out of memory''))]" if "(rpc_step mem_sqlite)\<^sup>*\<^sup>* ?st0 st" for st
    using sqlite_crash_hangs [OF demo_dead_reach dead(1) disjI2 [OF dead(2)] dead(3,4) converse_rtranclp_into_rtranclp [OF call that]] dead(5) by simp
  moreover from stuck [of ?st0] have "rp_settled ?st0 = [(0, Inl (WorkerFailed ''out of memory''))]" by simp
  ultimately show ?thesis by (auto intro!: exI [of _ ?st0])
qed

end
