(* ===== verification/DocAdapter.thy ===== *)
theory DocAdapter
  imports SqlMemory
begin

text \<open>
  What the adapters of document databases share (\<^verbatim>\<open>firebase-realtime-adapter.ts\<close>,
  \<^verbatim>\<open>firestore-adapter.ts\<close>, \<^verbatim>\<open>mongodb-adapter.ts\<close>): the client field that is null until \<open>init\<close> (the
  \<open>pooled\<close> state of the SQL adapters), \<open>getMany\<close> as one \<open>get\<close> per key, and the way the contracts of
  queries and updates pass through the client getter, the retry wrapper and a sequence of calls.
\<close>

text \<open>The client getter throws inside the function given to \<open>withRetry\<close> as long as there is no client.\<close>

definition doc_client :: "string \<Rightarrow> ('s, 'a) io \<Rightarrow> (('s, 'z) pooled_scheme, 'a) io" where
  "doc_client name m p = (if po_open p then po_lift m p else (Inl (NotInitialised name), p))"

text \<open>\<open>init\<close> of the two Firebase adapters: import the library, find or create the app, keep the database.\<close>

definition doc_init :: "('s, unit) io \<Rightarrow> ('s pooled, unit) io" where
  "doc_init open_app = thenA (po_lift open_app) (\<lambda>p. (Inr (), p\<lparr>po_open := True\<rparr>))"

text \<open>\<open>Promise.all(keys.map(async key => ...))\<close>, the keys in order: a record that is there is put
  into the map.\<close>

fun getEach ::
  "(string \<Rightarrow> ('s, session_record option) io) \<Rightarrow> string list \<Rightarrow> (string \<times> session_record) list \<Rightarrow>
    ('s, (string \<times> session_record) list) io" where
  "getEach get [] m = ret m"
| "getEach get (key # keys) m =
     bindA (get key) (\<lambda>record. getEach get keys (case record of None \<Rightarrow> m | Some r \<Rightarrow> AList.update key r m))"

section \<open>Contracts of sequences of calls\<close>

lemma query_ok_bind:
  assumes "query_ok view ivr up m d P"
    and "\<And>x d'. P x \<Longrightarrow> ivr d' \<Longrightarrow> view d' = view d \<Longrightarrow> query_ok view ivr up (f x) d' Q"
  shows "query_ok view ivr up (bindA m f) d Q"
proof (rule query_okI)
  fix r d'
  assume run: "bindA m f d = (r, d')"
  obtain r1 d1 where m: "m d = (r1, d1)" by fastforce
  note c = query_okD [OF assms(1) m]
  show "ivr d' \<and> view d' = view d \<and> (\<forall>x. r = Inr x \<longrightarrow> Q x)"
  proof (cases r1)
    case (Inl e)
    with run m c show ?thesis by (simp add: bindA_def) blast
  next
    case (Inr x)
    with run m have "f x d1 = (r, d')" by (simp add: bindA_def)
    from query_okD [OF assms(2) [OF c(3) [OF Inr] c(1,2)] this] c show ?thesis by simp
  qed
next
  assume "up d"
  from query_ok_up [OF assms(1) this] obtain x d1 where m: "m d = (Inr x, d1)" "up d1" "P x" by blast
  note c = query_okD [OF assms(1) m(1)]
  from query_ok_up [OF assms(2) [OF m(3) c(1,2)] m(2)] m
  show "\<exists>x d'. bindA m f d = (Inr x, d') \<and> up d'" by (auto simp: bindA_def)
qed

lemma update_ok_bind:
  assumes "query_ok view ivr up m d P"
    and "\<And>x d'. P x \<Longrightarrow> ivr d' \<Longrightarrow> view d' = view d \<Longrightarrow> update_ok view ivr up can (f x) d' Q"
  shows "update_ok view ivr up can (bindA m f) d Q"
  unfolding update_ok_def
proof (intro conjI allI impI)
  fix r d'
  assume run: "bindA m f d = (r, d')"
  obtain r1 d1 where m: "m d = (r1, d1)" by fastforce
  note c = query_okD [OF assms(1) m]
  have "ivr d' \<and> (case r of Inr _ \<Rightarrow> Q (view d') | Inl _ \<Rightarrow> view d' = view d \<or> Q (view d'))"
  proof (cases r1)
    case (Inl e)
    with run m c show ?thesis by (auto simp: bindA_def)
  next
    case (Inr x)
    with run m have "f x d1 = (r, d')" by (simp add: bindA_def)
    from update_okD [OF assms(2) [OF c(3) [OF Inr] c(1,2)] this] c show ?thesis by (simp split: sum.splits)
  qed
  then show "ivr d'" and "case r of Inl _ \<Rightarrow> view d' = view d \<or> Q (view d') | Inr _ \<Rightarrow> Q (view d')" by simp_all
next
  assume u: "up d \<and> can"
  from query_ok_up [OF assms(1)] u obtain x d1 where m: "m d = (Inr x, d1)" "up d1" "P x" by blast
  note c = query_okD [OF assms(1) m(1)]
  from update_ok_up [OF assms(2) [OF m(3) c(1,2)] m(2)] m u
  show "\<exists>x d'. bindA m f d = (Inr x, d') \<and> up d'" by (auto simp: bindA_def)
qed

lemma query_ok_client:
  fixes p :: "('s, 'z) pooled_scheme"
  assumes "query_ok view ivr up m (po_db p) P" and "ivr (po_db p)"
  shows "query_ok (\<lambda>p :: ('s, 'z) pooled_scheme. view (po_db p)) (\<lambda>p. ivr (po_db p)) (\<lambda>p. po_open p \<and> up (po_db p)) (doc_client name m) p P"
  using assms unfolding query_ok_def doc_client_def
  by (auto simp: po_lift_eq)

lemma update_ok_client:
  fixes p :: "('s, 'z) pooled_scheme"
  assumes "update_ok view ivr up can m (po_db p) Q" and "ivr (po_db p)"
  shows "update_ok (\<lambda>p :: ('s, 'z) pooled_scheme. view (po_db p)) (\<lambda>p. ivr (po_db p)) (\<lambda>p. po_open p \<and> up (po_db p)) can (doc_client name m) p Q"
proof (cases "po_open p")
  case True
  obtain r d' where m: "m (po_db p) = (r, d')" by fastforce
  with True have c: "doc_client name m p = (r, p\<lparr>po_db := d'\<rparr>)" by (simp add: doc_client_def po_lift_eq)
  from assms(1) m True show ?thesis by (simp add: update_ok_def c split: sum.splits)
next
  case False
  then have "doc_client name m p = (Inl (NotInitialised name), p)" by (simp add: doc_client_def)
  with assms(2) False show ?thesis by (simp add: update_ok_def)
qed

lemma query_ok_mono:
  "query_ok view ivr up m d P \<Longrightarrow> (\<And>x. P x \<Longrightarrow> Q x) \<Longrightarrow> query_ok view ivr up m d Q"
  by (auto simp: query_ok_def)

lemma getEach_ok:
  assumes "\<And>k d. k \<in> set ks \<Longrightarrow> ivr d \<Longrightarrow> view d = v \<Longrightarrow> query_ok view ivr up (get k) d (\<lambda>r. r = v s k)"
    and "ivr d" and "view d = v" and "distinct (keys_of m)"
  shows "query_ok view ivr up (getEach get ks m) d
    (\<lambda>m'. distinct (keys_of m') \<and> (\<forall>k. map_of m' k = (if k \<in> set ks \<and> v s k \<noteq> None then v s k else map_of m k)))"
  using assms
proof (induction ks arbitrary: d m)
  case Nil
  then show ?case unfolding getEach.simps by (intro query_ok_return) simp_all
next
  case (Cons k ks)
  note get = Cons.prems(1)
  show ?case unfolding getEach.simps
  proof (rule query_ok_bind [OF get [OF _ Cons.prems(2,3)]])
    fix r d'
    assume r: "r = v s k" and d': "ivr d'" "view d' = view d"
    let ?m = "case r of None \<Rightarrow> m | Some r \<Rightarrow> AList.update k r m"
    from d'(2) Cons.prems(3) have v: "view d' = v" by (rule trans)
    have m: "distinct (keys_of ?m)" "map_of ?m x = (if x = k \<and> v s k \<noteq> None then v s k else map_of m x)" for x
      using Cons.prems(4) r by (simp_all add: jmap_simps split: option.split)
    have "query_ok view ivr up (getEach get ks ?m) d'
      (\<lambda>m'. distinct (keys_of m') \<and> (\<forall>k. map_of m' k = (if k \<in> set ks \<and> v s k \<noteq> None then v s k else map_of ?m k)))"
      by (rule Cons.IH [OF get d'(1) v m(1)]) simp_all
    then show "query_ok view ivr up (getEach get ks ?m) d' (\<lambda>m'. distinct (keys_of m') \<and>
        (\<forall>ka. map_of m' ka = (if ka \<in> set (k # ks) \<and> v s ka \<noteq> None then v s ka else map_of m ka)))"
      by (rule query_ok_mono) (auto simp: m(2))
  qed simp
qed

lemma getEach_store:
  assumes "\<And>k d. k \<in> set ks \<Longrightarrow> ivr d \<Longrightarrow> view d = v \<Longrightarrow> query_ok view ivr up (get k) d (\<lambda>r. r = v s k)"
    and "ivr d" and "view d = v"
  shows "query_ok view ivr up (getEach get ks []) d
    (\<lambda>m. distinct (keys_of m) \<and> map_of m = (\<lambda>k. if k \<in> set ks then v s k else None))"
  by (rule query_ok_mono [OF getEach_ok [where m = "[]", OF assms]]) auto

section \<open>A call through the client getter and the retry wrapper\<close>

abbreviation pl_view :: "('s \<Rightarrow> db_view) \<Rightarrow> ('s, 'z) pooled_scheme \<Rightarrow> db_view" where
  "pl_view view \<equiv> \<lambda>p. view (po_db p)"

abbreviation pl_ok :: "('s \<Rightarrow> bool) \<Rightarrow> ('s, 'z) pooled_scheme \<Rightarrow> bool" where
  "pl_ok ivr \<equiv> \<lambda>p. ivr (po_db p)"

abbreviation pl_up :: "('s \<Rightarrow> bool) \<Rightarrow> ('s, 'z) pooled_scheme \<Rightarrow> bool" where
  "pl_up up \<equiv> \<lambda>p. po_open p \<and> up (po_db p)"

lemma doc_query:
  fixes p :: "('s, 'z) pooled_scheme"
  assumes "\<And>d. ivr d \<Longrightarrow> query_ok view ivr up m d (P (view d))" and "pl_ok ivr p" and "may_retry opts"
  shows "query_ok (pl_view view) (pl_ok ivr) (pl_up up) (base_withRetry name opts (doc_client drv m) label) p (P (pl_view view p))"
  unfolding base_withRetry_def
proof (rule query_ok_retry [where view = "pl_view view" and ivr = "pl_ok ivr", OF _ assms(2) refl assms(3)])
  fix q :: "('s, 'z) pooled_scheme"
  assume q: "pl_ok ivr q" and v: "pl_view view q = pl_view view p"
  have "query_ok (pl_view view) (pl_ok ivr) (pl_up up) (doc_client drv m) q (P (pl_view view q))"
    by (rule query_ok_client [OF assms(1)]) (rule q)+
  then show "query_ok (pl_view view) (pl_ok ivr) (pl_up up) (doc_client drv m) q (P (pl_view view p))"
    unfolding v .
qed

text \<open>A write whose effect on the rows is a function that may be applied twice may be retried.\<close>

lemma doc_update:
  fixes p :: "('s, 'z) pooled_scheme"
  assumes "\<And>d. ivr d \<Longrightarrow> update_ok view ivr up can m d (\<lambda>w. w = F (view d))" and "pl_ok ivr p" and "may_retry opts"
    and "\<And>v. F (F v) = F v"
  shows "update_ok (pl_view view) (pl_ok ivr) (pl_up up) can (base_withRetry name opts (doc_client drv m) label) p
    (\<lambda>w. w = F (pl_view view p))"
  unfolding base_withRetry_def
proof (rule update_ok_retry [where v = "pl_view view p" and Q' = "\<lambda>v w. w = F v"])
  fix q :: "('s, 'z) pooled_scheme"
  assume q: "pl_ok ivr q"
  show "update_ok (pl_view view) (pl_ok ivr) (pl_up up) can (doc_client drv m) q (\<lambda>w. w = F (pl_view view q))"
    by (rule update_ok_client [OF assms(1)]) (rule q)+
qed (use assms in simp_all)

text \<open>The effects that may be applied twice.\<close>

definition put_rows :: "string \<Rightarrow> string set \<Rightarrow> (string \<Rightarrow> session_record) \<Rightarrow> db_view \<Rightarrow> db_view" where
  "put_rows sid K f v = (\<lambda>s k. if s = sid \<and> k \<in> K then Some (f k) else v s k)"

definition drop_rows :: "string \<Rightarrow> string set \<Rightarrow> db_view \<Rightarrow> db_view" where
  "drop_rows sid K v = (\<lambda>s k. if s = sid \<and> k \<in> K then None else v s k)"

lemma put_rows_idem: "put_rows sid K f (put_rows sid K f v) = put_rows sid K f v"
  by (auto simp: put_rows_def fun_eq_iff)

lemma drop_rows_idem: "drop_rows sid K (drop_rows sid K v) = drop_rows sid K v"
  by (auto simp: drop_rows_def fun_eq_iff)

lemma drop_rows_all: "drop_rows s {k. v s k \<noteq> None} v = drop_rows s UNIV v"
  by (auto simp: drop_rows_def fun_eq_iff)

lemma removed_eq: "removed sid ks v = (\<lambda>w. w = drop_rows sid (set ks) v)"
  by (simp add: removed_def drop_rows_def fun_eq_iff)

lemma wiped_eq: "wiped sid v = (\<lambda>w. w = drop_rows sid UNIV v)"
  by (auto simp: wiped_def drop_rows_def fun_eq_iff)

lemma upserted_put:
  assumes "\<And>k. k \<in> fst ` set es \<Longrightarrow> sr_sessionId (f k) = sid \<and> sr_key (f k) = k \<and>
      Some (sr_value (f k)) = store_all es Map.empty k \<and> sr_updatedAt (f k) = now"
  shows "upserted sid es now v (put_rows sid (fst ` set es) f v)"
  using assms by (auto simp: upserted_def put_rows_def)

text \<open>The same for a write that no longer asks the getter, such as the commit of a batch.\<close>

lemma update_ok_lift:
  fixes p :: "('s, 'z) pooled_scheme"
  assumes "update_ok view ivr up can m (po_db p) Q"
  shows "update_ok (pl_view view) (pl_ok ivr) (pl_up up) can (po_lift m) p Q"
proof -
  obtain r d' where m: "m (po_db p) = (r, d')" by fastforce
  then have c: "po_lift m p = (r, p\<lparr>po_db := d'\<rparr>)" by (simp add: po_lift_eq)
  from assms m show ?thesis by (simp add: update_ok_def c split: sum.splits)
qed

lemma lift_update:
  fixes p :: "('s, 'z) pooled_scheme"
  assumes "\<And>d. ivr d \<Longrightarrow> update_ok view ivr up can m d (\<lambda>w. w = F (view d))" and "pl_ok ivr p" and "may_retry opts"
    and "\<And>v. F (F v) = F v"
  shows "update_ok (pl_view view) (pl_ok ivr) (pl_up up) can (base_withRetry name opts (po_lift m) label) p
    (\<lambda>w. w = F (pl_view view p))"
  unfolding base_withRetry_def
proof (rule update_ok_retry [where v = "pl_view view p" and Q' = "\<lambda>v w. w = F v"])
  fix q :: "('s, 'z) pooled_scheme"
  assume q: "pl_ok ivr q"
  show "update_ok (pl_view view) (pl_ok ivr) (pl_up up) can (po_lift m) q (\<lambda>w. w = F (pl_view view q))"
    by (rule update_ok_lift [OF assms(1)]) (rule q)
qed (use assms in simp_all)

section \<open>A server in memory with a script of faults\<close>

record 'a scripted =
  sc_data :: 'a
  sc_faults :: "fault list"

definition sc_call :: "('a \<Rightarrow> 'a) \<Rightarrow> ('a \<Rightarrow> 'b) \<Rightarrow> ('a scripted, 'b) io" where
  "sc_call f g d =
     (let d1 = d\<lparr>sc_faults := tl (sc_faults d)\<rparr>; d2 = d1\<lparr>sc_data := f (sc_data d)\<rparr> in
      case sc_faults d of
        [] \<Rightarrow> (Inr (g (sc_data d)), d2)
      | Healthy # _ \<Rightarrow> (Inr (g (sc_data d)), d2)
      | LostBefore # _ \<Rightarrow> (Inl (DriverError ''connection lost''), d1)
      | LostAfter # _ \<Rightarrow> (Inl (DriverError ''connection lost''), d2))"

lemma sc_call_law: "sc_call f g d = (r, d') \<Longrightarrow>
    (sc_data d' = f (sc_data d) \<or> (\<exists>e. r = Inl e) \<and> sc_data d' = sc_data d) \<and> (\<forall>x. r = Inr x \<longrightarrow> x = g (sc_data d))"
  by (auto simp: sc_call_def Let_def split: list.splits fault.splits)

lemma sc_call_up: "sc_faults d = [] \<Longrightarrow> \<exists>x d'. sc_call f g d = (Inr x, d') \<and> sc_faults d' = []"
  by (simp add: sc_call_def Let_def)

lemma sc_call_done: "sc_faults d = [] \<Longrightarrow> \<exists>d'. sc_call f (\<lambda>_. ()) d = (Inr (), d') \<and> sc_faults d' = []"
  by (simp add: sc_call_def Let_def)

end
