(* ===== verification/RtdbAdapter.thy ===== *)
theory RtdbAdapter
  imports DocAdapter
begin

text \<open>
  \<^verbatim>\<open>src/adapters/firebase-realtime-adapter.ts\<close>. The database is a tree whose inner nodes are path
  segments; a row is stored at \<open>baileys_sessions/session/key\<close>. The client (\<open>ref(path)\<close> with \<open>once\<close>,
  \<open>update\<close>, \<open>remove\<close>) is a parameter; \<open>db\<close> is null until \<open>init\<close>, as the pools of the SQL adapters are.
  The names the tree cannot hold are escaped on the way in and not on the way out: for names without
  such characters the adapter is a store of records, for the others its key lists are wrong. What a
  read of a node that is not a row returns is a field of the client: the type assertion of \<open>get\<close>
  does not check it.
\<close>

record stored_value =
  sv_value :: jstr
  sv_updatedAt :: int
  sv_version :: int

text \<open>A snapshot: no node (\<open>exists()\<close> is false), a stored row, or a node with the children named.\<close>

datatype snapshot = Absent | Leaf stored_value | Children "string list"

record 's rtdb =
  rt_cast :: "string list \<Rightarrow> stored_value"
  rt_once :: "string \<Rightarrow> ('s, snapshot) io"
  rt_update :: "(string \<times> stored_value option) list \<Rightarrow> ('s, unit) io"
  rt_remove :: "string \<Rightarrow> ('s, unit) io"

definition special :: "char \<Rightarrow> bool" where
  "special c \<longleftrightarrow> c \<in> set ''.#$[]/''"

definition dec2 :: "nat \<Rightarrow> string" where
  "dec2 n = [''0123456789'' ! (n div 10), ''0123456789'' ! (n mod 10)]"

text \<open>Every character replaced has a two-digit code.\<close>

definition escapeSegment :: "string \<Rightarrow> string" where
  "escapeSegment segment = concat (map (\<lambda>c. if special c then ''~'' @ dec2 (of_char c) @ ''~'' else [c]) segment)"

definition fb_path :: "string \<Rightarrow> string option \<Rightarrow> string" where
  "fb_path sessionId key =
     (let base = ''baileys_sessions/'' @ escapeSegment sessionId in
      case key of None \<Rightarrow> base | Some k \<Rightarrow> if k = [] then base else base @ ''/'' @ escapeSegment k)"

definition fb_withRetry :: "retry_options option \<Rightarrow> ('s, 'a) io \<Rightarrow> string \<Rightarrow> ('s, 'a) io" where
  "fb_withRetry opts fn label = base_withRetry ''firebase-realtime-database'' opts fn label"

definition fb_client :: "('s, 'a) io \<Rightarrow> ('s pooled, 'a) io" where
  "fb_client m = doc_client ''FirebaseRealtimeAdapter'' m"

definition fb_record :: "string \<Rightarrow> string \<Rightarrow> stored_value \<Rightarrow> session_record" where
  "fb_record sessionId key sv =
     \<lparr>sr_sessionId = sessionId, sr_key = key, sr_value = sv_value sv, sr_updatedAt = sv_updatedAt sv, sr_version = sv_version sv\<rparr>"

definition fb_get :: "retry_options option \<Rightarrow> 's rtdb \<Rightarrow> string \<Rightarrow> string \<Rightarrow> ('s pooled, session_record option) io" where
  "fb_get opts D sessionId key =
     bindA (fb_withRetry opts (fb_client (rt_once D (fb_path sessionId (Some key)))) ''get'')
       (\<lambda>snapshot. ret (case snapshot of
           Absent \<Rightarrow> None
         | Leaf sv \<Rightarrow> Some (fb_record sessionId key sv)
         | Children ks \<Rightarrow> Some (fb_record sessionId key (rt_cast D ks))))"

definition fb_getMany ::
  "retry_options option \<Rightarrow> 's rtdb \<Rightarrow> string \<Rightarrow> string list \<Rightarrow> ('s pooled, (string \<times> session_record) list) io" where
  "fb_getMany opts D sessionId keys = getEach (fb_get opts D sessionId) keys []"

definition fb_entry ::
  "string \<Rightarrow> int \<Rightarrow> (string \<times> session_record) list \<Rightarrow> string \<times> jstr \<Rightarrow> (string \<times> stored_value option) list \<Rightarrow>
    (string \<times> stored_value option) list" where
  "fb_entry sessionId now existingVersions kv update =
     (case kv of (key, value) \<Rightarrow>
       let currentVersion = (case map_of existingVersions key of None \<Rightarrow> 0 | Some r \<Rightarrow> sr_version r) in
       AList.update (fb_path sessionId (Some key))
         (Some \<lparr>sv_value = value, sv_updatedAt = now, sv_version = currentVersion + 1\<rparr>) update)"

definition fb_setMany ::
  "retry_options option \<Rightarrow> 's rtdb \<Rightarrow> string \<Rightarrow> (string \<times> jstr) list \<Rightarrow> int \<Rightarrow> ('s pooled, unit) io" where
  "fb_setMany opts D sessionId entries now =
     (if entries = [] then ret ()
      else bindA (fb_getMany opts D sessionId (keys_of entries)) (\<lambda>existingVersions.
        let update = fold (fb_entry sessionId now existingVersions) entries [] in
        fb_withRetry opts (fb_client (rt_update D update)) ''setMany''))"

definition fb_set :: "retry_options option \<Rightarrow> 's rtdb \<Rightarrow> string \<Rightarrow> string \<Rightarrow> jstr \<Rightarrow> int \<Rightarrow> ('s pooled, unit) io" where
  "fb_set opts D sessionId key value now = fb_setMany opts D sessionId [(key, value)] now"

definition fb_delete :: "retry_options option \<Rightarrow> 's rtdb \<Rightarrow> string \<Rightarrow> string \<Rightarrow> ('s pooled, unit) io" where
  "fb_delete opts D sessionId key =
     fb_withRetry opts (fb_client (rt_remove D (fb_path sessionId (Some key)))) ''delete''"

definition fb_deleteMany :: "retry_options option \<Rightarrow> 's rtdb \<Rightarrow> string \<Rightarrow> string list \<Rightarrow> ('s pooled, unit) io" where
  "fb_deleteMany opts D sessionId keys =
     (if keys = [] then ret ()
      else let update = fold (\<lambda>key. AList.update (fb_path sessionId (Some key)) None) keys [] in
        fb_withRetry opts (fb_client (rt_update D update)) ''deleteMany'')"

text \<open>\<open>Object.keys(snapshot.val())\<close>\<close>

definition object_keys :: "snapshot \<Rightarrow> string list" where
  "object_keys snapshot = (case snapshot of
     Absent \<Rightarrow> [] | Children ks \<Rightarrow> ks | Leaf _ \<Rightarrow> [''updatedAt'', ''value'', ''version''])"

definition fb_getAllKeys :: "retry_options option \<Rightarrow> 's rtdb \<Rightarrow> string \<Rightarrow> ('s pooled, string list) io" where
  "fb_getAllKeys opts D sessionId =
     bindA (fb_withRetry opts (fb_client (rt_once D (fb_path sessionId None))) ''getAllKeys'') (\<lambda>snapshot. ret (object_keys snapshot))"

definition fb_deleteSession :: "retry_options option \<Rightarrow> 's rtdb \<Rightarrow> string \<Rightarrow> ('s pooled, unit) io" where
  "fb_deleteSession opts D sessionId =
     fb_withRetry opts (fb_client (rt_remove D (fb_path sessionId None))) ''deleteSession''"

definition fb_listSessions :: "retry_options option \<Rightarrow> 's rtdb \<Rightarrow> ('s pooled, string list) io" where
  "fb_listSessions opts D =
     bindA (fb_withRetry opts (fb_client (rt_once D ''baileys_sessions'')) ''listSessions'') (\<lambda>snapshot. ret (object_keys snapshot))"

definition fb_sessionExists :: "retry_options option \<Rightarrow> 's rtdb \<Rightarrow> string \<Rightarrow> ('s pooled, bool) io" where
  "fb_sessionExists opts D sessionId =
     bindA (fb_withRetry opts (fb_client (rt_once D (fb_path sessionId None))) ''sessionExists'') (\<lambda>snapshot. ret (snapshot \<noteq> Absent))"

text \<open>\<open>init\<close> loads \<open>firebase-admin\<close>, finds or creates the app, and opens the database.\<close>

definition fb_init :: "('s, unit) io \<Rightarrow> ('s pooled, unit) io" where
  "fb_init open_app = doc_init open_app"

definition fb_close :: "('s pooled, unit) io" where
  "fb_close = ret ()"

definition fb_adapter :: "retry_options option \<Rightarrow> 's rtdb \<Rightarrow> ('s, unit) io \<Rightarrow> 's pooled adapter" where
  "fb_adapter opts D open_app =
     \<lparr>ad_name = ''firebase-realtime-database'', ad_init = fb_init open_app,
      ad_get = fb_get opts D, ad_getMany = fb_getMany opts D,
      ad_set = fb_set opts D, ad_setMany = fb_setMany opts D,
      ad_delete = fb_delete opts D, ad_deleteMany = fb_deleteMany opts D,
      ad_getAllKeys = fb_getAllKeys opts D, ad_deleteSession = fb_deleteSession opts D,
      ad_listSessions = fb_listSessions opts D, ad_sessionExists = fb_sessionExists opts D,
      ad_close = fb_close\<rparr>"

section \<open>Names and paths\<close>

text \<open>The names that need no escaping.\<close>

definition plain :: "string \<Rightarrow> bool" where
  "plain s \<longleftrightarrow> s \<noteq> [] \<and> list_all (\<lambda>c. \<not> special c) s"

text \<open>The control characters, which the database refuses and the adapter does not escape; the names and paths without them.\<close>

definition control :: "char \<Rightarrow> bool" where
  "control c \<longleftrightarrow> of_char c < (32 :: nat) \<or> of_char c = (127 :: nat)"

definition legal :: "string \<Rightarrow> bool" where
  "legal s \<longleftrightarrow> plain s \<and> list_all (\<lambda>c. \<not> control c) s"

definition legal_path :: "string \<Rightarrow> bool" where
  "legal_path p \<longleftrightarrow> list_all (\<lambda>c. \<not> control c \<and> c \<notin> set ''.#$[]'') p"

lemma escape_plain: "list_all (\<lambda>c. \<not> special c) s \<Longrightarrow> escapeSegment s = s"
  by (induction s) (simp_all add: escapeSegment_def)

lemma escape_no_special: "list_all (\<lambda>c. \<not> special c) (escapeSegment s)"
proof (induction s)
  case (Cons c s)
  have "special c \<Longrightarrow> list_all (\<lambda>d. \<not> special d) (dec2 (of_char c))"
    by (auto simp: special_def dec2_def)
  moreover have "\<not> special (CHR ''~'')" by (simp add: special_def)
  ultimately show ?case using Cons by (simp add: escapeSegment_def)
qed (simp add: escapeSegment_def)

lemma escape_idem: "escapeSegment (escapeSegment s) = escapeSegment s"
  by (rule escape_plain [OF escape_no_special])

lemma plain_no_slash: "legal s \<Longrightarrow> CHR ''/'' \<notin> set s"
  by (auto simp: legal_def plain_def list_all_iff special_def)

lemma path_plain:
  "legal s \<Longrightarrow> legal k \<Longrightarrow> fb_path s (Some k) = ''baileys_sessions/'' @ s @ ''/'' @ k"
  "legal s \<Longrightarrow> fb_path s None = ''baileys_sessions/'' @ s"
  by (auto simp: fb_path_def legal_def plain_def escape_plain)

lemma split_slash:
  "CHR ''/'' \<notin> set s \<Longrightarrow> CHR ''/'' \<notin> set s' \<Longrightarrow> s @ CHR ''/'' # x = s' @ CHR ''/'' # x' \<longleftrightarrow> s = s' \<and> x = x'"
  by (auto simp: append_eq_append_conv2 append_eq_Cons_conv Cons_eq_append_conv)

lemma path_inject:
  "legal s \<Longrightarrow> legal k \<Longrightarrow> legal s' \<Longrightarrow> legal k' \<Longrightarrow> fb_path s (Some k) = fb_path s' (Some k') \<longleftrightarrow> s = s' \<and> k = k'"
  using split_slash [OF plain_no_slash plain_no_slash, of s s' k k'] by (simp add: path_plain)

section \<open>What is assumed of the database\<close>

type_synonym row_tree = "string \<Rightarrow> string \<Rightarrow> stored_value option"

definition node :: "string \<Rightarrow> string \<Rightarrow> string" where
  "node s k = ''baileys_sessions/'' @ s @ ''/'' @ k"

definition branch :: "string \<Rightarrow> string" where
  "branch s = ''baileys_sessions/'' @ s"

lemma legal_path_append: "legal_path (p @ q) \<longleftrightarrow> legal_path p \<and> legal_path q"
  by (simp add: legal_path_def)

lemma legal_segment: "legal s \<Longrightarrow> legal_path s"
  by (auto simp: legal_def plain_def legal_path_def list_all_iff special_def)

lemma legal_prefix: "legal_path ''baileys_sessions/''" "legal_path ''/''" "legal_path ''baileys_sessions''"
  by code_simp+

lemma legal_paths: "legal s \<Longrightarrow> legal k \<Longrightarrow> legal_path (node s k)" "legal s \<Longrightarrow> legal_path (branch s)"
  by (simp_all only: node_def branch_def legal_path_append legal_prefix legal_segment simp_thms)

lemma row_paths_legal: "\<forall>p \<in> P. \<exists>s k. legal s \<and> legal k \<and> p = node s k \<Longrightarrow> \<forall>p \<in> P. legal_path p"
  by (metis legal_paths(1))

definition tree_ok :: "row_tree \<Rightarrow> bool" where
  "tree_ok t \<longleftrightarrow> (\<forall>s k. t s k \<noteq> None \<longrightarrow> legal s \<and> legal k)"

definition row_snapshot :: "stored_value option \<Rightarrow> snapshot" where
  "row_snapshot r = (case r of None \<Rightarrow> Absent | Some sv \<Rightarrow> Leaf sv)"

definition children_snapshot :: "string set \<Rightarrow> snapshot \<Rightarrow> bool" where
  "children_snapshot K x \<longleftrightarrow> (if K = {} then x = Absent else \<exists>ks. x = Children ks \<and> distinct ks \<and> set ks = K)"

definition tree_update :: "(string \<times> stored_value option) list \<Rightarrow> row_tree \<Rightarrow> row_tree" where
  "tree_update u t = (\<lambda>s k. if legal s \<and> legal k then (case map_of u (node s k) of Some x \<Rightarrow> x | None \<Rightarrow> t s k) else None)"

lemma tree_update_plain:
  "legal s \<Longrightarrow> legal k \<Longrightarrow> tree_update u t s k = (case map_of u (node s k) of Some x \<Rightarrow> x | None \<Rightarrow> t s k)"
  by (simp add: tree_update_def)

lemma tree_update_other: "\<not> (legal s \<and> legal k) \<Longrightarrow> tree_update u t s k = None"
  unfolding tree_update_def by (rule if_not_P)

text \<open>The documented behaviour of the database: \<open>once\<close> reads a node, \<open>update\<close> of row paths is one atomic write,
  \<open>remove\<close> cuts a subtree off, a node without children is gone, a call that throws did all or nothing, and
  a path with a forbidden character is refused.\<close>

locale rtdb_server =
  fixes D :: "'s rtdb"
    and tree :: "'s \<Rightarrow> row_tree"
    and sup :: "'s \<Rightarrow> bool"
  assumes once_same: "rt_once D p d = (g, d') \<Longrightarrow> tree d' = tree d"
    and once_row: "tree_ok (tree d) \<Longrightarrow> legal s \<Longrightarrow> legal k \<Longrightarrow> rt_once D (node s k) d = (Inr x, d') \<Longrightarrow>
      x = row_snapshot (tree d s k)"
    and once_session: "tree_ok (tree d) \<Longrightarrow> legal s \<Longrightarrow> rt_once D (branch s) d = (Inr x, d') \<Longrightarrow>
      children_snapshot {k. tree d s k \<noteq> None} x"
    and once_root: "tree_ok (tree d) \<Longrightarrow> rt_once D ''baileys_sessions'' d = (Inr x, d') \<Longrightarrow>
      children_snapshot {s. \<exists>k. tree d s k \<noteq> None} x"
    and update_law: "tree_ok (tree d) \<Longrightarrow> distinct (keys_of u) \<Longrightarrow>
      \<forall>p \<in> fst ` set u. \<exists>s k. legal s \<and> legal k \<and> p = node s k \<Longrightarrow> rt_update D u d = (r, d') \<Longrightarrow>
      tree d' = tree_update u (tree d) \<or> (\<exists>e. r = Inl e) \<and> tree d' = tree d"
    and remove_row: "tree_ok (tree d) \<Longrightarrow> legal s \<Longrightarrow> legal k \<Longrightarrow> rt_remove D (node s k) d = (r, d') \<Longrightarrow>
      tree d' = (tree d)(s := (tree d s)(k := None)) \<or> (\<exists>e. r = Inl e) \<and> tree d' = tree d"
    and remove_session: "tree_ok (tree d) \<Longrightarrow> legal s \<Longrightarrow> rt_remove D (branch s) d = (r, d') \<Longrightarrow>
      tree d' = (tree d)(s := Map.empty) \<or> (\<exists>e. r = Inl e) \<and> tree d' = tree d"
    and once_legal: "rt_once D p d = (Inr x, d') \<Longrightarrow> legal_path p"
    and once_up: "sup d \<Longrightarrow> legal_path p \<Longrightarrow> \<exists>x d'. rt_once D p d = (Inr x, d') \<and> sup d'"
    and update_up: "sup d \<Longrightarrow> \<forall>p \<in> fst ` set u. legal_path p \<Longrightarrow> \<exists>d'. rt_update D u d = (Inr (), d') \<and> sup d'"
    and remove_up: "sup d \<Longrightarrow> legal_path p \<Longrightarrow> \<exists>d'. rt_remove D p d = (Inr (), d') \<and> sup d'"

text \<open>The rows of the tree as a store of records.\<close>

definition rt_view :: "('s \<Rightarrow> row_tree) \<Rightarrow> 's \<Rightarrow> db_view" where
  "rt_view tree d = (\<lambda>s k. map_option (fb_record s k) (tree d s k))"

definition rt_ok :: "('s \<Rightarrow> row_tree) \<Rightarrow> 's \<Rightarrow> bool" where
  "rt_ok tree d \<longleftrightarrow> tree_ok (tree d)"

lemma fb_path_row: "legal s \<Longrightarrow> legal k \<Longrightarrow> fb_path s (Some k) = node s k"
  by (simp add: path_plain node_def)

lemma fb_path_session: "legal s \<Longrightarrow> fb_path s None = branch s"
  by (simp add: path_plain branch_def)

lemma node_inject: "legal s \<Longrightarrow> legal k \<Longrightarrow> legal s' \<Longrightarrow> legal k' \<Longrightarrow> node s k = node s' k' \<longleftrightarrow> s = s' \<and> k = k'"
  by (metis fb_path_row path_inject)

text \<open>The update \<open>setMany\<close> sends, looked up by path.\<close>

definition new_row :: "int \<Rightarrow> (string \<rightharpoonup> session_record) \<Rightarrow> string \<Rightarrow> jstr \<Rightarrow> stored_value" where
  "new_row now ev k x = \<lparr>sv_value = x, sv_updatedAt = now,
     sv_version = (case ev k of None \<Rightarrow> 0 | Some r \<Rightarrow> sr_version r) + 1\<rparr>"

lemma fb_entry_eq: "fb_entry s now ev (k, x) u = AList.update (fb_path s (Some k)) (Some (new_row now (map_of ev) k x)) u"
  by (simp add: fb_entry_def new_row_def)

lemma entries_step:
  "legal s \<Longrightarrow> legal k \<Longrightarrow> fold (fb_entry s now ev) ((k, x) # es) u =
    fold (fb_entry s now ev) es (AList.update (node s k) (Some (new_row now (map_of ev) k x)) u)"
  by (simp add: fb_entry_eq fb_path_row)

lemma entries_distinct: "distinct (keys_of u) \<Longrightarrow> distinct (keys_of (fold (fb_entry s now ev) es u))"
  by (induction es arbitrary: u) (auto simp: fb_entry_eq jmap_simps)

lemma entries_paths:
  assumes "legal s" and "\<forall>e \<in> set es. legal (fst e)"
  shows "fst ` set (fold (fb_entry s now ev) es u) = fst ` set u \<union> node s ` fst ` set es"
  using assms
proof (induction es arbitrary: u)
  case (Cons e es)
  then show ?case by (cases e) (auto simp add: fb_entry_eq fb_path_row AList.dom_update)
qed simp

lemma entries_update:
  assumes "legal s" and "\<forall>e \<in> set es. legal (fst e)" and "legal s'" and "legal k'"
  shows "map_of (fold (fb_entry s now ev) es u) (node s' k') =
    (case (if s' = s then map_of (rev es) k' else None) of
       Some x \<Rightarrow> Some (Some (new_row now (map_of ev) k' x)) | None \<Rightarrow> map_of u (node s' k'))"
  using assms
proof (induction es arbitrary: u)
  case (Cons e es)
  obtain k x where e: "e = (k, x)" by fastforce
  let ?u = "AList.update (node s k) (Some (new_row now (map_of ev) k x)) u"
  have k: "legal k" and es: "\<forall>e \<in> set es. legal (fst e)" using Cons.prems e by auto
  have u: "map_of ?u (node s' k') = (if s' = s \<and> k' = k then Some (Some (new_row now (map_of ev) k x)) else map_of u (node s' k'))"
    using node_inject [OF Cons.prems(1) k Cons.prems(3,4)] by (simp add: jmap_simps eq_commute)
  have r: "map_of (rev ((k, x) # es)) k' = (case map_of (rev es) k' of Some y \<Rightarrow> Some y | None \<Rightarrow> if k' = k then Some x else None)"
    by (auto simp: map_add_def split: option.split)
  note IH = Cons.IH [OF Cons.prems(1) es Cons.prems(3,4), of ?u]
  show ?case unfolding e entries_step [OF Cons.prems(1) k] IH u r by (auto split: option.split)
qed simp

lemma deletions_update:
  assumes "legal s" and "\<forall>k \<in> set ks. legal k" and "legal s'" and "legal k'"
  shows "map_of (fold (\<lambda>key. AList.update (fb_path s (Some key)) None) ks u) (node s' k') =
    (if s' = s \<and> k' \<in> set ks then Some None else map_of u (node s' k'))"
  using assms
proof (induction ks arbitrary: u)
  case (Cons k ks)
  then show ?case using node_inject [of s k s' k'] by (auto simp: fb_path_row jmap_simps)
qed simp

lemma deletions_distinct:
  "distinct (keys_of u) \<Longrightarrow> distinct (keys_of (fold (\<lambda>key. AList.update (fb_path s (Some key)) None) ks u))"
  by (induction ks arbitrary: u) (auto simp: jmap_simps)

lemma deletions_paths:
  assumes "legal s" and "\<forall>k \<in> set ks. legal k"
  shows "fst ` set (fold (\<lambda>key. AList.update (fb_path s (Some key)) None) ks u) = fst ` set u \<union> node s ` set ks"
  using assms by (induction ks arbitrary: u) (auto simp: fb_path_row AList.dom_update)

section \<open>The calls of the client, as queries and updates of the rows\<close>

context rtdb_server
begin

abbreviation "view \<equiv> rt_view tree"
abbreviation "ok \<equiv> rt_ok tree"

lemma view_None: "view d s k \<noteq> None \<longleftrightarrow> tree d s k \<noteq> None"
  by (simp add: rt_view_def)

lemma same_view: "tree d' = tree d \<Longrightarrow> view d' = view d \<and> ok d' = ok d"
  by (simp add: rt_view_def rt_ok_def)

lemma once_query:
  assumes "ok d" and "legal_path p" and "\<And>x d'. rt_once D p d = (Inr x, d') \<Longrightarrow> P x"
  shows "query_ok view ok sup (rt_once D p) d P"
proof (rule query_okI)
  fix r d'
  assume run: "rt_once D p d = (r, d')"
  from same_view [OF once_same [OF run]] assms(1,3) run
  show "ok d' \<and> view d' = view d \<and> (\<forall>x. r = Inr x \<longrightarrow> P x)" by blast
next
  assume "sup d"
  then show "\<exists>x d'. rt_once D p d = (Inr x, d') \<and> sup d'" using assms(2) by (rule once_up)
qed

lemma row_query:
  assumes "ok d" and "legal s" and "legal k"
  shows "query_ok view ok sup (rt_once D (node s k)) d (\<lambda>x. x = Absent \<and> view d s k = None \<or>
    (\<exists>sv. x = Leaf sv \<and> view d s k = Some (fb_record s k sv)))"
  by (rule once_query [OF assms(1) legal_paths(1) [OF assms(2,3)]], drule once_row [OF assms(1) [unfolded rt_ok_def] assms(2,3)])
    (auto simp: rt_view_def row_snapshot_def split: option.split)

lemma session_query:
  assumes "ok d" and "legal s"
  shows "query_ok view ok sup (rt_once D (branch s)) d (children_snapshot {k. view d s k \<noteq> None})"
  by (rule once_query [OF assms(1) legal_paths(2) [OF assms(2)]], drule once_session [OF assms(1) [unfolded rt_ok_def] assms(2)])
    (simp add: rt_view_def)

lemma root_query:
  assumes "ok d"
  shows "query_ok view ok sup (rt_once D ''baileys_sessions'') d (children_snapshot {s. \<exists>k. view d s k \<noteq> None})"
  by (rule once_query [OF assms(1) legal_prefix(3)], drule once_root [OF assms(1) [unfolded rt_ok_def]])
    (simp add: rt_view_def)

text \<open>A write with a law of the form the locale gives is an update of the rows.\<close>

lemma write_update:
  assumes "ok d" and "\<And>r d'. m d = (r, d') \<Longrightarrow> tree d' = G (tree d) \<or> (\<exists>e. r = Inl e) \<and> tree d' = tree d"
    and "sup d \<Longrightarrow> \<exists>d'. m d = (Inr (), d') \<and> sup d'"
    and "tree_ok (G (tree d))" and "(\<lambda>s k. map_option (fb_record s k) (G (tree d) s k)) = F (view d)"
  shows "update_ok view ok sup True m d (\<lambda>w. w = F (view d))"
  unfolding update_ok_def
proof (intro conjI allI impI)
  fix r d'
  assume run: "m d = (r, d')"
  have F: "view d' = F (view d) \<and> ok d'" if "tree d' = G (tree d)"
  proof
    show "view d' = F (view d)" unfolding assms(5) [symmetric] by (simp add: that rt_view_def)
    show "ok d'" using assms(4) by (simp add: that rt_ok_def)
  qed
  from assms(2) [OF run]
  show "ok d'" and "case r of Inl _ \<Rightarrow> view d' = view d \<or> view d' = F (view d) | Inr _ \<Rightarrow> view d' = F (view d)"
  proof (atomize (full), elim disjE)
    assume "tree d' = G (tree d)"
    from F [OF this] show "ok d' \<and> (case r of Inl _ \<Rightarrow> view d' = view d \<or> view d' = F (view d) | Inr _ \<Rightarrow> view d' = F (view d))"
      by (cases r) simp_all
  next
    assume "(\<exists>e. r = Inl e) \<and> tree d' = tree d"
    with same_view [of d' d] assms(1)
    show "ok d' \<and> (case r of Inl _ \<Rightarrow> view d' = view d \<or> view d' = F (view d) | Inr _ \<Rightarrow> view d' = F (view d))" by auto
  qed
qed (use assms(3) in auto)

lemma rows_update:
  assumes "ok d" and "legal s" and "\<forall>e \<in> set es. legal (fst e)"
    and "\<And>k. map_of ev k = (if k \<in> fst ` set es then v s k else None)"
  shows "update_ok view ok sup True (rt_update D (fold (fb_entry s now ev) es [])) d
    (\<lambda>w. w = put_rows s (fst ` set es)
      (\<lambda>k. fb_record s k (new_row now (v s) k (the (store_all es Map.empty k)))) (view d))"
proof (rule write_update [OF assms(1)])
  let ?u = "fold (fb_entry s now ev) es []"
  have u: "distinct (keys_of ?u)" "\<forall>p \<in> fst ` set ?u. \<exists>s k. legal s \<and> legal k \<and> p = node s k"
    using assms(2,3) by (simp_all add: entries_distinct entries_paths [OF assms(2,3)]) blast
  show "tree d' = tree_update ?u (tree d) \<or> (\<exists>e. r = Inl e) \<and> tree d' = tree d" if "rt_update D ?u d = (r, d')" for r d'
    by (rule update_law [OF assms(1) [unfolded rt_ok_def] u that])
  show "\<exists>d'. rt_update D ?u d = (Inr (), d') \<and> sup d'" if "sup d"
    by (rule update_up [OF that row_paths_legal [OF u(2)]])
  show "tree_ok (tree_update ?u (tree d))" by (simp add: tree_ok_def tree_update_def)
  have t: "tree d s' k' \<noteq> None \<Longrightarrow> legal s' \<and> legal k'" for s' k'
    using assms(1) unfolding rt_ok_def tree_ok_def by blast
  show "(\<lambda>s' k. map_option (fb_record s' k) (tree_update ?u (tree d) s' k)) = put_rows s (fst ` set es)
      (\<lambda>k. fb_record s k (new_row now (v s) k (the (store_all es Map.empty k)))) (view d)"
  proof (intro ext)
    fix s' k'
    show "map_option (fb_record s' k') (tree_update ?u (tree d) s' k') = put_rows s (fst ` set es)
      (\<lambda>k. fb_record s k (new_row now (v s) k (the (store_all es Map.empty k)))) (view d) s' k'"
    proof (cases "legal s' \<and> legal k'")
      case True
      then have p: "legal s'" "legal k'" by simp_all
      show ?thesis
      proof (cases "s' = s \<and> k' \<in> fst ` set es")
        case True
        then obtain x where x: "map_of (rev es) k' = Some x" "store_all es Map.empty k' = Some x"
          using store_all_present_Some [of k' es Map.empty] by (auto simp: store_all_apply split: option.splits)
        have "new_row now (map_of ev) k' x = new_row now (v s) k' x" using True assms(4) by (simp add: new_row_def)
        with True x show ?thesis
          by (simp add: tree_update_plain [OF assms(2) p(2)] entries_update [OF assms(2,3) assms(2) p(2)] put_rows_def)
      next
        case False
        then have "(if s' = s then map_of (rev es) k' else None) = None" by (auto simp: map_of_eq_None_iff)
        with False show ?thesis
          by (auto simp add: tree_update_plain [OF p] entries_update [OF assms(2,3) p] put_rows_def rt_view_def)
      qed
    next
      case False
      then have "tree d s' k' = None" using t [of s' k'] by blast
      with False assms(2,3) show ?thesis
        by (auto simp: tree_update_other [OF False] put_rows_def rt_view_def)
    qed
  qed
qed

lemma rows_remove:
  assumes "ok d" and "legal s" and "\<forall>k \<in> set ks. legal k"
  shows "update_ok view ok sup True (rt_update D (fold (\<lambda>key. AList.update (fb_path s (Some key)) None) ks [])) d
    (\<lambda>w. w = drop_rows s (set ks) (view d))"
proof (rule write_update [OF assms(1)])
  let ?u = "fold (\<lambda>key. AList.update (fb_path s (Some key)) None) ks [] :: (string \<times> stored_value option) list"
  have u: "distinct (keys_of ?u)" "\<forall>p \<in> fst ` set ?u. \<exists>s k. legal s \<and> legal k \<and> p = node s k"
    using assms(2,3) by (simp_all add: deletions_distinct deletions_paths [OF assms(2,3)]) blast
  show "tree d' = tree_update ?u (tree d) \<or> (\<exists>e. r = Inl e) \<and> tree d' = tree d" if "rt_update D ?u d = (r, d')" for r d'
    by (rule update_law [OF assms(1) [unfolded rt_ok_def] u that])
  show "\<exists>d'. rt_update D ?u d = (Inr (), d') \<and> sup d'" if "sup d"
    by (rule update_up [OF that row_paths_legal [OF u(2)]])
  show "tree_ok (tree_update ?u (tree d))" by (simp add: tree_ok_def tree_update_def)
  have t: "tree d s' k' \<noteq> None \<Longrightarrow> legal s' \<and> legal k'" for s' k'
    using assms(1) unfolding rt_ok_def tree_ok_def by blast
  show "(\<lambda>s' k. map_option (fb_record s' k) (tree_update ?u (tree d) s' k)) = drop_rows s (set ks) (view d)"
  proof (intro ext)
    fix s' k'
    show "map_option (fb_record s' k') (tree_update ?u (tree d) s' k') = drop_rows s (set ks) (view d) s' k'"
    proof (cases "legal s' \<and> legal k'")
      case True
      then have p: "legal s'" "legal k'" by simp_all
      show ?thesis by (simp add: tree_update_plain [OF p] deletions_update [OF assms(2,3) p] drop_rows_def rt_view_def)
    next
      case False
      with t [of s' k'] have "tree d s' k' = None" by blast
      with False show ?thesis by (simp add: tree_update_other [OF False] drop_rows_def rt_view_def)
    qed
  qed
qed

lemma row_remove:
  assumes "ok d" and "legal s" and "legal k"
  shows "update_ok view ok sup True (rt_remove D (node s k)) d (\<lambda>w. w = drop_rows s {k} (view d))"
  using remove_row [OF assms(1) [unfolded rt_ok_def] assms(2,3)] assms(1) remove_up [OF _ legal_paths(1) [OF assms(2,3)]]
  by (intro write_update [where G = "\<lambda>t. t(s := (t s)(k := None))"])
    (auto simp: rt_ok_def tree_ok_def drop_rows_def rt_view_def fun_eq_iff)

lemma session_remove:
  assumes "ok d" and "legal s"
  shows "update_ok view ok sup True (rt_remove D (branch s)) d (\<lambda>w. w = drop_rows s UNIV (view d))"
  using remove_session [OF assms(1) [unfolded rt_ok_def] assms(2)] assms(1) remove_up [OF _ legal_paths(2) [OF assms(2)]]
  by (intro write_update [where G = "\<lambda>t. t(s := Map.empty)"])
    (auto simp: rt_ok_def tree_ok_def drop_rows_def rt_view_def fun_eq_iff)

end

section \<open>The adapter is a store of records\<close>

locale rtdb_adapter = rtdb_server D tree sup
  for D :: "'s rtdb" and tree :: "'s \<Rightarrow> row_tree" and sup :: "'s \<Rightarrow> bool" +
  fixes opts :: "retry_options option"
    and open_app :: "('s, unit) io"
  assumes retries: "may_retry opts"
begin

abbreviation "A \<equiv> fb_adapter opts D open_app"
abbreviation aview :: "'s pooled \<Rightarrow> db_view" where "aview \<equiv> pl_view view"
abbreviation aok :: "'s pooled \<Rightarrow> bool" where "aok \<equiv> pl_ok ok"
abbreviation aup :: "'s pooled \<Rightarrow> bool" where "aup \<equiv> pl_up sup"

lemma fb_get_ok:
  assumes "aok p" and "legal s" and "legal k"
  shows "query_ok aview aok aup (fb_get opts D s k) p (\<lambda>r. r = aview p s k)"
  unfolding fb_get_def fb_withRetry_def fb_client_def fb_path_row [OF assms(2,3)]
  by (rule query_ok_map [OF doc_query [where P = "\<lambda>v x. x = Absent \<and> v s k = None \<or> (\<exists>sv. x = Leaf sv \<and> v s k = Some (fb_record s k sv))",
        OF row_query [OF _ assms(2,3)] assms(1) retries]]) auto

lemma fb_getMany_ok:
  assumes "aok p" and "legal s" and "\<forall>k \<in> set ks. legal k"
  shows "query_ok aview aok aup (fb_getMany opts D s ks) p
    (\<lambda>m. distinct (keys_of m) \<and> map_of m = (\<lambda>k. if k \<in> set ks then aview p s k else None))"
  unfolding fb_getMany_def
proof (rule getEach_store [where view = aview and ivr = aok, OF _ assms(1) refl])
  fix k q
  assume "k \<in> set ks" and q: "aok q" and v: "aview q = aview p"
  with assms(3) have "legal k" by blast
  from fb_get_ok [OF q assms(2) this] show "query_ok aview aok aup (fb_get opts D s k) q (\<lambda>r. r = aview p s k)"
    unfolding v .
qed

lemma fb_setMany_stored:
  assumes "aok p" and "legal s" and "\<forall>e \<in> set es. legal (fst e)"
  shows "update_ok aview aok aup True (fb_setMany opts D s es now) p (stored s es now (aview p))"
proof (cases "es = []")
  case True
  have "stored s es now (aview p) (aview p)" by (simp add: True stored_def bumped_def)
  with assms(1) True show ?thesis by (simp add: fb_setMany_def update_ok_return del: ret_apply)
next
  case False
  have ks: "\<forall>k \<in> set (keys_of es). legal k" using assms(3) by auto
  let ?f = "\<lambda>k. fb_record s k (new_row now (aview p s) k (the (store_all es Map.empty k)))"
  have put: "stored s es now (aview p) (put_rows s (fst ` set es) ?f (aview p))"
    unfolding stored_def
  proof
    show "upserted s es now (aview p) (put_rows s (fst ` set es) ?f (aview p))"
      by (rule upserted_put) (use store_all_present_Some in \<open>force simp: fb_record_def new_row_def\<close>)
    show "bumped s es (aview p) (put_rows s (fst ` set es) ?f (aview p))"
      by (auto simp: bumped_def put_rows_def fb_record_def new_row_def split: option.split)
  qed
  show ?thesis unfolding fb_setMany_def if_not_P [OF False] Let_def
  proof (rule update_ok_bind [OF fb_getMany_ok [OF assms(1,2) ks]])
    fix ev q
    assume ev: "distinct (keys_of ev) \<and> map_of ev = (\<lambda>k. if k \<in> set (keys_of es) then aview p s k else None)"
      and q: "aok q" and v: "aview q = aview p"
    have m: "map_of ev k = (if k \<in> fst ` set es then aview p s k else None)" for k using ev by simp
    have "update_ok aview aok aup True
        (base_withRetry ''firebase-realtime-database'' opts
          (doc_client ''FirebaseRealtimeAdapter'' (rt_update D (fold (fb_entry s now ev) es []))) ''setMany'') q
        (\<lambda>w. w = put_rows s (fst ` set es) ?f (aview q))"
      by (rule doc_update [OF rows_update [where v = "aview p", OF _ assms(2,3) m] q retries put_rows_idem])
    then show "update_ok aview aok aup True
        (fb_withRetry opts (fb_client (rt_update D (fold (fb_entry s now ev) es []))) ''setMany'') q (stored s es now (aview p))"
      unfolding fb_withRetry_def fb_client_def v by (rule update_ok_weaken) (simp_all add: put)
  qed
qed

lemma fb_delete_ok:
  assumes "aok p" and "legal s" and "legal k"
  shows "update_ok aview aok aup True (fb_delete opts D s k) p (removed s [k] (aview p))"
  using doc_update [where F = "drop_rows s {k}", OF row_remove [OF _ assms(2,3)] assms(1) retries drop_rows_idem]
  by (simp add: fb_delete_def fb_withRetry_def fb_client_def fb_path_row [OF assms(2,3)] removed_eq)

lemma fb_deleteMany_ok:
  assumes "aok p" and "legal s" and "\<forall>k \<in> set ks. legal k"
  shows "update_ok aview aok aup True (fb_deleteMany opts D s ks) p (removed s ks (aview p))"
proof (cases "ks = []")
  case True
  with assms(1) show ?thesis by (simp add: fb_deleteMany_def update_ok_return removed_def del: ret_apply)
next
  case False
  from doc_update [where F = "drop_rows s (set ks)", OF rows_remove [OF _ assms(2,3)] assms(1) retries drop_rows_idem] False
  show ?thesis by (simp add: fb_deleteMany_def Let_def fb_withRetry_def fb_client_def removed_eq)
qed

lemma object_keys_children: "children_snapshot K x \<Longrightarrow> distinct (object_keys x) \<and> set (object_keys x) = K"
  by (auto simp: children_snapshot_def object_keys_def split: if_splits)

lemma fb_getAllKeys_ok:
  assumes "aok p" and "legal s"
  shows "query_ok aview aok aup (fb_getAllKeys opts D s) p (\<lambda>ks. distinct ks \<and> set ks = {k. aview p s k \<noteq> None})"
  unfolding fb_getAllKeys_def fb_withRetry_def fb_client_def fb_path_session [OF assms(2)]
  by (rule query_ok_map [OF doc_query [where P = "\<lambda>v. children_snapshot {k. v s k \<noteq> None}",
        OF session_query [OF _ assms(2)] assms(1) retries]]) (assumption, erule object_keys_children)

lemma fb_listSessions_ok:
  assumes "aok p"
  shows "query_ok aview aok aup (fb_listSessions opts D) p
    (\<lambda>sids. distinct sids \<and> set sids = {s. \<exists>k. aview p s k \<noteq> None})"
  unfolding fb_listSessions_def fb_withRetry_def fb_client_def
  by (rule query_ok_map [OF doc_query [where P = "\<lambda>v. children_snapshot {s. \<exists>k. v s k \<noteq> None}",
        OF root_query assms(1) retries]]) (assumption, erule object_keys_children)

lemma fb_sessionExists_ok:
  assumes "aok p" and "legal s"
  shows "query_ok aview aok aup (fb_sessionExists opts D s) p (\<lambda>b. b \<longleftrightarrow> (\<exists>k. aview p s k \<noteq> None))"
  unfolding fb_sessionExists_def fb_withRetry_def fb_client_def fb_path_session [OF assms(2)]
  by (rule query_ok_map [OF doc_query [where P = "\<lambda>v. children_snapshot {k. v s k \<noteq> None}",
        OF session_query [OF _ assms(2)] assms(1) retries]]) (auto simp: children_snapshot_def split: if_splits)

lemma fb_deleteSession_ok:
  assumes "aok p" and "legal s"
  shows "update_ok aview aok aup True (fb_deleteSession opts D s) p (wiped s (aview p))"
  using doc_update [where F = "drop_rows s UNIV", OF session_remove [OF _ assms(2)] assms(1) retries drop_rows_idem]
  by (simp add: fb_deleteSession_def fb_withRetry_def fb_client_def fb_path_session [OF assms(2)] wiped_eq)

lemma rt_view_legal: "ok d \<Longrightarrow> view d s k \<noteq> None \<Longrightarrow> legal s \<and> legal k"
  unfolding view_None by (simp add: rt_ok_def tree_ok_def)

lemma rt_view_record: "view d s k = Some r \<Longrightarrow> sr_sessionId r = s \<and> sr_key r = k"
  by (auto simp: rt_view_def fb_record_def)

end

sublocale rtdb_adapter \<subseteq> versioned_store "fb_adapter opts D open_app" "pl_view (rt_view tree)" "pl_ok (rt_ok tree)" "pl_up sup" legal legal
proof unfold_locales
  fix p s k x now
  assume a: "aok p" "legal s" "legal k"
  show "query_ok aview aok aup (ad_get A s k) p (\<lambda>r. r = aview p s k)"
    unfolding fb_adapter_def adapter.simps using a by (rule fb_get_ok)
  show "update_ok aview aok aup True (ad_set A s k x now) p (upserted s [(k, x)] now (aview p))"
    unfolding fb_adapter_def adapter.simps fb_set_def
    by (rule update_ok_weaken [OF fb_setMany_stored [OF a(1,2)]]) (simp_all add: a(3) stored_def)
  show "update_ok aview aok aup True (ad_delete A s k) p (removed s [k] (aview p))"
    unfolding fb_adapter_def adapter.simps using a by (rule fb_delete_ok)
next
  fix p s now p' and es :: "(string \<times> jstr) list"
  assume a: "aok p" "legal s" "\<forall>e \<in> set es. legal (fst e)"
  show "update_ok aview aok aup (distinct (keys_of es)) (ad_setMany A s es now) p (upserted s es now (aview p))"
    unfolding fb_adapter_def adapter.simps
    by (rule update_ok_weaken [OF fb_setMany_stored [OF a]]) (simp_all add: stored_def)
  assume run: "ad_setMany A s es now p = (Inr (), p')"
  then have "fb_setMany opts D s es now p = (Inr (), p')" by (simp add: fb_adapter_def)
  from update_okD(2) [OF fb_setMany_stored [OF a] this refl] show "bumped s es (aview p) (aview p')"
    by (simp add: stored_def)
next
  fix p s and ks :: "string list"
  assume a: "aok p" "legal s" "\<forall>k \<in> set ks. legal k"
  show "query_ok aview aok aup (ad_getMany A s ks) p
    (\<lambda>m. distinct (keys_of m) \<and> map_of m = (\<lambda>k. if k \<in> set ks then aview p s k else None))"
    unfolding fb_adapter_def adapter.simps using a by (rule fb_getMany_ok)
  show "update_ok aview aok aup True (ad_deleteMany A s ks) p (removed s ks (aview p))"
    unfolding fb_adapter_def adapter.simps using a by (rule fb_deleteMany_ok)
next
  fix p s
  assume a: "aok p" "legal s"
  show "query_ok aview aok aup (ad_getAllKeys A s) p (\<lambda>ks. distinct ks \<and> set ks = {k. aview p s k \<noteq> None})"
    unfolding fb_adapter_def adapter.simps using a by (rule fb_getAllKeys_ok)
  show "update_ok aview aok aup True (ad_deleteSession A s) p (wiped s (aview p))"
    unfolding fb_adapter_def adapter.simps using a by (rule fb_deleteSession_ok)
  show "query_ok aview aok aup (ad_sessionExists A s) p (\<lambda>b. b \<longleftrightarrow> (\<exists>k. aview p s k \<noteq> None))"
    unfolding fb_adapter_def adapter.simps using a by (rule fb_sessionExists_ok)
next
  fix p
  assume a: "aok p"
  show "query_ok aview aok aup (ad_listSessions A) p (\<lambda>sids. distinct sids \<and> set sids = {s. \<exists>k. aview p s k \<noteq> None})"
    unfolding fb_adapter_def adapter.simps using a by (rule fb_listSessions_ok)
next
  fix p s k
  assume "aok p" and "aview p s k \<noteq> None"
  then show "legal s \<and> legal k" by (rule rt_view_legal)
next
  fix p s k r
  assume "aview p s k = Some r"
  then show "sr_sessionId r = s \<and> sr_key r = k" by (rule rt_view_record)
qed

context rtdb_adapter
begin

lemma is_store: "versioned_store A aview aok aup legal legal"
  by (rule versioned_store_axioms)

end

section \<open>A database that keeps the rows in memory\<close>

fun segs :: "string \<Rightarrow> string list" where
  "segs [] = [[]]"
| "segs (c # cs) = (if c = CHR ''/'' then [] # segs cs else (case segs cs of [] \<Rightarrow> [[c]] | w # ws \<Rightarrow> (c # w) # ws))"

lemma segs_word: "CHR ''/'' \<notin> set s \<Longrightarrow> segs s = [s]"
  by (induction s) auto

lemma segs_append: "CHR ''/'' \<notin> set s \<Longrightarrow> segs (s @ CHR ''/'' # x) = s # segs x"
  by (induction s) auto

lemma segs_node: "legal s \<Longrightarrow> legal k \<Longrightarrow> segs (node s k) = [''baileys_sessions'', s, k]"
  using segs_append [of "''baileys_sessions''" "s @ CHR ''/'' # k"] segs_append [of s k] segs_word [of k] plain_no_slash [of s] plain_no_slash [of k]
  by (simp add: node_def del: segs.simps)

lemma segs_branch: "legal s \<Longrightarrow> segs (branch s) = [''baileys_sessions'', s]"
  using segs_append [of "''baileys_sessions''" s] segs_word [of s] plain_no_slash [of s]
  by (simp add: branch_def del: segs.simps)

lemma segs_root: "segs ''baileys_sessions'' = [''baileys_sessions'']"
  by (rule segs_word) simp

type_synonym mem_rows = "((string \<times> string) \<times> stored_value) list"

definition children_of :: "string list \<Rightarrow> snapshot" where
  "children_of ks = (if ks = [] then Absent else Children (remdups ks))"

definition mt_read :: "string \<Rightarrow> mem_rows \<Rightarrow> snapshot" where
  "mt_read p rows = (case segs p of
     [_, s, k] \<Rightarrow> row_snapshot (map_of rows (s, k))
   | [_, s] \<Rightarrow> children_of (map (snd \<circ> fst) (filter (\<lambda>row. fst (fst row) = s) rows))
   | _ \<Rightarrow> children_of (map (fst \<circ> fst) rows))"

definition mt_put :: "string \<times> stored_value option \<Rightarrow> mem_rows \<Rightarrow> mem_rows" where
  "mt_put u rows = (case segs (fst u) of
     [_, s, k] \<Rightarrow> (case snd u of None \<Rightarrow> AList.delete (s, k) rows | Some sv \<Rightarrow> AList.update (s, k) sv rows)
   | _ \<Rightarrow> rows)"

definition mt_cut :: "string \<Rightarrow> mem_rows \<Rightarrow> mem_rows" where
  "mt_cut p rows = (case segs p of
     [_, s, k] \<Rightarrow> AList.delete (s, k) rows | [_, s] \<Rightarrow> filter (\<lambda>row. fst (fst row) \<noteq> s) rows | _ \<Rightarrow> [])"

abbreviation refused :: "('s, 'a) io" where
  "refused \<equiv> raise (DriverError ''invalid path'')"

definition mem_rtdb :: "mem_rows scripted rtdb" where
  "mem_rtdb = \<lparr>rt_cast = (\<lambda>_. \<lparr>sv_value = [], sv_updatedAt = 0, sv_version = 0\<rparr>),
     rt_once = (\<lambda>p. if legal_path p then sc_call (\<lambda>rows. rows) (mt_read p) else refused),
     rt_update = (\<lambda>u. if list_all (\<lambda>x. legal_path (fst x)) u then sc_call (fold mt_put u) (\<lambda>_. ()) else refused),
     rt_remove = (\<lambda>p. if legal_path p then sc_call (mt_cut p) (\<lambda>_. ()) else refused)\<rparr>"

definition rows_tree :: "mem_rows \<Rightarrow> row_tree" where
  "rows_tree rows = (\<lambda>s k. map_of rows (s, k))"

lemma rows_tree_put:
  assumes "legal s" and "legal k"
  shows "rows_tree (mt_put (node s k, x) rows) = (rows_tree rows)(s := (rows_tree rows s)(k := x))"
  by (auto simp: mt_put_def segs_node [OF assms] rows_tree_def fun_eq_iff jmap_simps split: option.split)

lemma rows_tree_cut_row:
  assumes "legal s" and "legal k"
  shows "rows_tree (mt_cut (node s k) rows) = (rows_tree rows)(s := (rows_tree rows s)(k := None))"
  by (auto simp: mt_cut_def segs_node [OF assms] rows_tree_def fun_eq_iff jmap_simps)

lemma rows_tree_cut_session:
  assumes "legal s"
  shows "rows_tree (mt_cut (branch s) rows) = (rows_tree rows)(s := Map.empty)"
proof (intro ext)
  fix s' k'
  have "map_of (filter (\<lambda>row. fst (fst row) \<noteq> s) rows) (s', k') = (if s' \<noteq> s then map_of rows (s', k') else None)"
    using map_of_filter_key [of "\<lambda>p. fst p \<noteq> s" rows "(s', k')"] by simp
  then show "rows_tree (mt_cut (branch s) rows) s' k' = ((rows_tree rows)(s := Map.empty)) s' k'"
    by (simp add: mt_cut_def segs_branch [OF assms] rows_tree_def)
qed

lemma rows_tree_puts:
  assumes "distinct (keys_of u)" and "\<forall>p \<in> fst ` set u. \<exists>s k. legal s \<and> legal k \<and> p = node s k"
    and "tree_ok (rows_tree rows)"
  shows "rows_tree (fold mt_put u rows) = tree_update u (rows_tree rows)"
  using assms
proof (induction u arbitrary: rows)
  case Nil
  then have "legal s \<and> legal k \<or> rows_tree rows s k = None" for s k unfolding tree_ok_def by blast
  then have "rows_tree rows s k = tree_update [] (rows_tree rows) s k" for s k
    unfolding tree_update_def map_of.simps option.case by (rule disjE [of "legal s \<and> legal k" "rows_tree rows s k = None"]) simp_all
  then have "rows_tree rows = tree_update [] (rows_tree rows)" by (intro ext)
  then show ?case unfolding fold.simps id_apply .
next
  case (Cons e u)
  obtain s k x where e: "e = (node s k, x)" and p: "legal s" "legal k"
    using Cons.prems(2) by (cases e) auto
  let ?t = "(rows_tree rows)(s := (rows_tree rows s)(k := x))"
  have t: "rows_tree (mt_put e rows) = ?t" unfolding e by (rule rows_tree_put [OF p])
  have ok: "tree_ok ?t" using Cons.prems(3) p by (simp add: tree_ok_def)
  have "rows_tree (fold mt_put (e # u) rows) = tree_update u ?t"
    unfolding fold_simps by (rule Cons.IH [of "mt_put e rows", unfolded t, OF _ _ ok]) (use Cons.prems(1,2) in simp_all)
  also have "\<dots> = tree_update (e # u) (rows_tree rows)"
  proof (intro ext)
    fix s' k'
    show "tree_update u ?t s' k' = tree_update (e # u) (rows_tree rows) s' k'"
    proof (cases "legal s' \<and> legal k'")
      case True
      then have q: "legal s'" "legal k'" by simp_all
      have "map_of u (node s k) = None" using Cons.prems(1) by (auto simp: e map_of_eq_None_iff)
      then show ?thesis using node_inject [OF p q]
        by (auto simp: tree_update_plain [OF q] e split: option.split)
    qed (simp add: tree_update_other)
  qed
  finally show ?case .
qed

lemma children_of_snapshot: "set ks = K \<Longrightarrow> children_snapshot K (children_of ks)"
  by (auto simp: children_snapshot_def children_of_def)

lemma mem_once:
  "rt_once mem_rtdb p d = (g, d') \<Longrightarrow> sc_data d' = sc_data d \<and> (\<forall>x. g = Inr x \<longrightarrow> legal_path p \<and> x = mt_read p (sc_data d))"
  using sc_call_law [of "\<lambda>rows. rows" "mt_read p" d g d'] by (auto simp: mem_rtdb_def split: if_splits)

lemma mem_update:
  "rt_update mem_rtdb u d = (r, d') \<Longrightarrow> sc_data d' = fold mt_put u (sc_data d) \<or> (\<exists>e. r = Inl e) \<and> sc_data d' = sc_data d"
  using sc_call_law [of "fold mt_put u" "\<lambda>_. ()" d r d'] by (auto simp: mem_rtdb_def split: if_splits)

lemma mem_remove:
  "rt_remove mem_rtdb p d = (r, d') \<Longrightarrow> sc_data d' = mt_cut p (sc_data d) \<or> (\<exists>e. r = Inl e) \<and> sc_data d' = sc_data d"
  using sc_call_law [of "mt_cut p" "\<lambda>_. ()" d r d'] by (auto simp: mem_rtdb_def split: if_splits)

lemma mem_rtdb_server: "rtdb_server mem_rtdb (\<lambda>d. rows_tree (sc_data d)) (\<lambda>d. sc_faults d = [])"
proof
  fix d d' g p and x :: snapshot and s k
  show "rows_tree (sc_data d') = rows_tree (sc_data d)" if "rt_once mem_rtdb p d = (g, d')"
    using mem_once [OF that] by simp
  show "legal_path p" if "rt_once mem_rtdb p d = (Inr x, d')"
    using mem_once [OF that] by simp
  assume ok: "tree_ok (rows_tree (sc_data d))"
  show "x = row_snapshot (rows_tree (sc_data d) s k)" if "legal s" "legal k" "rt_once mem_rtdb (node s k) d = (Inr x, d')"
    using mem_once [OF that(3)] that(1,2) by (simp add: mt_read_def segs_node rows_tree_def)
  show "children_snapshot {k. rows_tree (sc_data d) s k \<noteq> None} x" if "legal s" "rt_once mem_rtdb (branch s) d = (Inr x, d')"
  proof -
    have "x = children_of (map (snd \<circ> fst) (filter (\<lambda>row. fst (fst row) = s) (sc_data d)))"
      using mem_once [OF that(2)] that(1) by (simp add: mt_read_def segs_branch)
    then show ?thesis
      by (simp only:) (rule children_of_snapshot, force simp: rows_tree_def map_of_eq_None_iff image_iff)
  qed
  show "children_snapshot {s. \<exists>k. rows_tree (sc_data d) s k \<noteq> None} x" if "rt_once mem_rtdb ''baileys_sessions'' d = (Inr x, d')"
  proof -
    have "x = children_of (map (fst \<circ> fst) (sc_data d))"
      using mem_once [OF that] by (simp add: mt_read_def segs_root del: segs.simps)
    then show ?thesis
      by (simp only:) (rule children_of_snapshot, force simp: rows_tree_def map_of_eq_None_iff image_iff)
  qed
next
  fix d d' :: "mem_rows scripted" and r s k u p
  assume ok: "tree_ok (rows_tree (sc_data d))"
  show "rows_tree (sc_data d') = tree_update u (rows_tree (sc_data d)) \<or> (\<exists>e. r = Inl e) \<and> rows_tree (sc_data d') = rows_tree (sc_data d)"
    if "distinct (keys_of u)" "\<forall>p \<in> fst ` set u. \<exists>s k. legal s \<and> legal k \<and> p = node s k" "rt_update mem_rtdb u d = (r, d')"
    using mem_update [OF that(3)] rows_tree_puts [OF that(1,2) ok] by metis
  show "rows_tree (sc_data d') = (rows_tree (sc_data d))(s := (rows_tree (sc_data d) s)(k := None)) \<or>
      (\<exists>e. r = Inl e) \<and> rows_tree (sc_data d') = rows_tree (sc_data d)"
    if "legal s" "legal k" "rt_remove mem_rtdb (node s k) d = (r, d')"
    using mem_remove [OF that(3)] rows_tree_cut_row [OF that(1,2)] by metis
  show "rows_tree (sc_data d') = (rows_tree (sc_data d))(s := Map.empty) \<or>
      (\<exists>e. r = Inl e) \<and> rows_tree (sc_data d') = rows_tree (sc_data d)"
    if "legal s" "rt_remove mem_rtdb (branch s) d = (r, d')"
    using mem_remove [OF that(2)] rows_tree_cut_session [OF that(1)] by metis
qed (auto simp: mem_rtdb_def sc_call_up sc_call_done list_all_iff)

interpretation mem_tree_db: rtdb_server mem_rtdb "\<lambda>d. rows_tree (sc_data d)" "\<lambda>d. sc_faults d = []"
  by (rule mem_rtdb_server)

interpretation rtdb_mem: rtdb_adapter mem_rtdb "\<lambda>d. rows_tree (sc_data d)" "\<lambda>d. sc_faults d = []" None "ret ()"
  by unfold_locales (rule may_retry_None)

section \<open>Names that need escaping\<close>

lemma escape_Nil: "escapeSegment k = [] \<longleftrightarrow> k = []"
  by (cases k) (simp_all add: escapeSegment_def)

lemma plain_escape: "k \<noteq> [] \<Longrightarrow> plain (escapeSegment k)"
  by (simp add: plain_def escape_no_special escape_Nil)

lemma escape_path: "fb_path s (Some (escapeSegment k)) = fb_path s (Some k)"
  by (simp add: fb_path_def escape_idem escape_Nil Let_def)

text \<open>A name and its escaped form are the same row: writing one is writing the other.\<close>

lemma set_escaped: "fb_set opts D s k x now = fb_set opts D s (escapeSegment k) x now"
proof -
  have "(case (case sn of Absent \<Rightarrow> None | Leaf sv \<Rightarrow> Some (fb_record s k sv) | Children ks \<Rightarrow> Some (fb_record s k (rt_cast D ks))) of
        None \<Rightarrow> (0 :: int) | Some r \<Rightarrow> sr_version r) =
      (case (case sn of Absent \<Rightarrow> None | Leaf sv \<Rightarrow> Some (fb_record s k' sv) | Children ks \<Rightarrow> Some (fb_record s k' (rt_cast D ks))) of
        None \<Rightarrow> 0 | Some r \<Rightarrow> sr_version r)" for sn k'
    by (cases sn) (simp_all add: fb_record_def)
  then show ?thesis
    by (simp add: fb_set_def fb_setMany_def fb_getMany_def fb_get_def escape_path bindA_assoc bindA_ret fb_entry_def
        split: option.split cong: if_cong)
      (auto simp: fun_eq_iff bindA_def fb_record_def split: prod.splits sum.splits snapshot.splits)
qed

context rtdb_adapter
begin

text \<open>A read that returns has asked for a path the database accepts.\<close>

lemma get_legal:
  assumes "fb_get opts D s k p = (Inr x, p')"
  shows "legal_path (fb_path s (Some k))"
proof -
  let ?m = "doc_client ''FirebaseRealtimeAdapter'' (rt_once D (fb_path s (Some k)))"
  from assms obtain y p1 where run: "with_retry opts (retry_label ''firebase-realtime-database'' ''get'') ?m p = (Inr y, p1)"
    by (auto simp: fb_get_def fb_withRetry_def fb_client_def base_withRetry_def bindA_eq_Inr)
  have "case (Inr y :: error + snapshot) of Inl e \<Rightarrow> True | Inr y \<Rightarrow> legal_path (fb_path s (Some k))"
  proof (rule with_retry_rule [where I = "\<lambda>_. True", OF _ TrueI run])
    fix q r q'
    assume "?m q = (r, q')"
    then show "case r of Inl e \<Rightarrow> True | Inr y \<Rightarrow> legal_path (fb_path s (Some k))"
      by (auto simp: doc_client_def po_lift_eq split: sum.split if_splits dest: once_legal)
  qed
  then show ?thesis by simp
qed

lemma escaped_listing:
  assumes "aok p" and "plain s" and "k \<noteq> []" and "\<not> plain k"
    and "fb_set opts D s k x now p = (Inr (), p1)" and "fb_getAllKeys opts D s p1 = (Inr ks, p2)"
  shows "k \<notin> set ks \<and> escapeSegment k \<in> set ks"
proof -
  let ?k = "escapeSegment k"
  from assms(5) obtain y q where "fb_get opts D s k p = (Inr y, q)"
    by (auto simp: fb_set_def fb_setMany_def fb_getMany_def bindA_eq_Inr)
  from get_legal [OF this] have "legal_path (''baileys_sessions/'' @ s @ ''/'' @ ?k)"
    using assms(2,3) by (simp add: fb_path_def plain_def escape_plain del: append.simps)
  then have "legal_path s" "legal_path ?k" by (simp_all only: legal_path_append)
  then have legal: "legal s" "legal ?k" using assms(2) plain_escape [OF assms(3)] by (auto simp: legal_def legal_path_def list_all_iff)
  have w: "fb_setMany opts D s [(?k, x)] now p = (Inr (), p1)" using assms(5) unfolding set_escaped [of opts D s k] by (simp add: fb_set_def)
  have u: "update_ok aview aok aup True (fb_setMany opts D s [(?k, x)] now) p (stored s [(?k, x)] now (aview p))"
    by (rule fb_setMany_stored [OF assms(1) legal(1)]) (simp add: legal)
  note p1 = update_okD(1,2) [OF u w, simplified]
  have "aview p1 s ?k \<noteq> None" using upserted_there [of s "[(?k, x)]" now "aview p" "aview p1" ?k] p1(2)
    by (auto simp: stored_def)
  moreover have "set ks = {k. aview p1 s k \<noteq> None}"
    using query_okD(3) [OF fb_getAllKeys_ok [OF p1(1) legal(1)] assms(6) refl] by simp
  moreover have "aview p1 s k = None" using rt_view_legal [OF p1(1), of s k] assms(4) unfolding legal_def by blast
  ultimately show ?thesis by simp
qed

end

section \<open>Properties\<close>

text \<open>C33. Over any Realtime Database that reads, writes and cuts its tree as documented, the adapter is a
  versioned store of records for names without the escaped characters and without control characters (which it refuses): every read returns what is
  stored, every write that returns has stored its entries, the last one winning where a key occurs
  twice, with the time given and a higher version, and a write that throws did all or nothing.\<close>

theorem rtdb_refines_store:
  assumes "rtdb_server D tree up" and "may_retry opts"
  shows "versioned_store (fb_adapter opts D open_app) (pl_view (rt_view tree)) (pl_ok (rt_ok tree)) (pl_up up) legal legal"
proof -
  have "rtdb_adapter D tree up opts" using assms by (simp add: rtdb_adapter_def rtdb_adapter_axioms_def)
  then show ?thesis by (rule rtdb_adapter.is_store)
qed

theorem rtdb_refines_store_witness:
  "versioned_store (fb_adapter None mem_rtdb (ret ())) (pl_view (rt_view (\<lambda>d. rows_tree (sc_data d))))
    (pl_ok (rt_ok (\<lambda>d. rows_tree (sc_data d)))) (pl_up (\<lambda>d. sc_faults d = [])) legal legal"
  by (rule rtdb_refines_store [OF mem_rtdb_server may_retry_None])

text \<open>C37. A key with one of the escaped characters does not come back: after it has been written,
  \<open>getAllKeys\<close> lists its escaped form instead, whatever faults the retries hide. (\<open>pruneKeys\<close> and
  \<open>exportSession\<close>, which read the rows \<open>getAllKeys\<close> lists, then work on that name.)\<close>

theorem rtdb_names_escaped:
  assumes "rtdb_server D tree up" and "may_retry opts" and "rt_ok tree (po_db p)" and "plain s" and "k \<noteq> []" and "\<not> plain k"
    and "fb_set opts D s k x now p = (Inr (), p1)" and "fb_getAllKeys opts D s p1 = (Inr ks, p2)"
  shows "k \<notin> set ks \<and> escapeSegment k \<in> set ks"
proof -
  have "rtdb_adapter D tree up opts" using assms(1,2) by (simp add: rtdb_adapter_def rtdb_adapter_axioms_def)
  then show ?thesis by (rule rtdb_adapter.escaped_listing [OF _ assms(3-8)])
qed

theorem rtdb_names_escaped_witness:
  "''a.b'' \<notin> set [''a~46~b''] \<and> escapeSegment ''a.b'' \<in> set [''a~46~b'']"
proof (rule rtdb_names_escaped [OF mem_rtdb_server may_retry_None])
  let ?p = "\<lparr>po_open = True, po_db = \<lparr>sc_data = [], sc_faults = []\<rparr>\<rparr>"
  let ?p1 = "\<lparr>po_open = True, po_db = \<lparr>sc_data = [((''bot'', ''a~46~b''), \<lparr>sv_value = [1], sv_updatedAt = 5, sv_version = 1\<rparr>)], sc_faults = []\<rparr>\<rparr>"
  show "fb_set None mem_rtdb ''bot'' ''a.b'' [1] 5 ?p = (Inr (), ?p1)" by code_simp
  show "fb_getAllKeys None mem_rtdb ''bot'' ?p1 = (Inr [''a~46~b''], ?p1)" by code_simp
qed (simp_all add: rt_ok_def tree_ok_def rows_tree_def plain_def special_def)

end
