(* ===== verification/FirestoreAdapter.thy ===== *)
theory FirestoreAdapter
  imports DocAdapter
begin

text \<open>
  \<^verbatim>\<open>src/adapters/firestore-adapter.ts\<close>. One collection, one document per row, under an id made of the
  session and the key. The client (document reads and deletes, queries, batches) is a parameter. Ids are
  not injective: slashes become underscores, and the separator may occur in the parts. For names that
  stay apart the adapter is a store of records, but not a versioned one: every write stores version 1.
\<close>

record firestore_doc =
  fd_sessionId :: string
  fd_key :: string
  fd_value :: jstr
  fd_updatedAt :: int
  fd_version :: int

definition fs_toRecord :: "firestore_doc \<Rightarrow> session_record" where
  "fs_toRecord doc =
     \<lparr>sr_sessionId = fd_sessionId doc, sr_key = fd_key doc, sr_value = fd_value doc,
      sr_updatedAt = fd_updatedAt doc, sr_version = fd_version doc\<rparr>"

datatype batch_op = BatchSet string firestore_doc | BatchDelete string

text \<open>\<open>doc(id).get()\<close>, \<open>doc(id).delete()\<close>, \<open>where('sessionId', '==', s).get()\<close>, \<open>get()\<close> of the collection, and
  \<open>commit()\<close> of a batch.\<close>

record 's firestore =
  fs_doc_get :: "string \<Rightarrow> ('s, firestore_doc option) io"
  fs_doc_delete :: "string \<Rightarrow> ('s, unit) io"
  fs_where_session :: "string \<Rightarrow> ('s, (string \<times> firestore_doc) list) io"
  fs_all_docs :: "('s, (string \<times> firestore_doc) list) io"
  fs_commit :: "batch_op list \<Rightarrow> ('s, unit) io"

definition no_slash :: "string \<Rightarrow> string" where
  "no_slash s = map (\<lambda>c. if c = CHR ''/'' then CHR ''_'' else c) s"

definition docId :: "string \<Rightarrow> string \<Rightarrow> string" where
  "docId sessionId key = no_slash sessionId @ ''__'' @ no_slash key"

definition fs_withRetry :: "retry_options option \<Rightarrow> ('s pooled, 'a) io \<Rightarrow> string \<Rightarrow> ('s pooled, 'a) io" where
  "fs_withRetry opts fn label = base_withRetry ''firestore'' opts fn label"

text \<open>The getters \<open>client\<close> and \<open>collection\<close>, inside a retried function.\<close>

definition fs_client :: "('s, 'a) io \<Rightarrow> ('s pooled, 'a) io" where
  "fs_client m = doc_client ''FirestoreAdapter'' m"

text \<open>The methods that build a batch call the getter before \<open>withRetry\<close>; the batch then commits without it.\<close>

definition fs_batch :: "('s pooled, unit) io \<Rightarrow> ('s pooled, unit) io" where
  "fs_batch m p = (if po_open p then m p else (Inl (NotInitialised ''FirestoreAdapter''), p))"

definition fs_get :: "retry_options option \<Rightarrow> 's firestore \<Rightarrow> string \<Rightarrow> string \<Rightarrow> ('s pooled, session_record option) io" where
  "fs_get opts D sessionId key =
     bindA (fs_withRetry opts (fs_client (fs_doc_get D (docId sessionId key))) ''get'')
       (\<lambda>snap. ret (case snap of None \<Rightarrow> None | Some doc \<Rightarrow> Some (fs_toRecord doc)))"

definition fs_getMany ::
  "retry_options option \<Rightarrow> 's firestore \<Rightarrow> string \<Rightarrow> string list \<Rightarrow> ('s pooled, (string \<times> session_record) list) io" where
  "fs_getMany opts D sessionId keys = (if keys = [] then ret [] else getEach (fs_get opts D sessionId) keys [])"

definition fs_entry :: "string \<Rightarrow> int \<Rightarrow> string \<times> jstr \<Rightarrow> batch_op" where
  "fs_entry sessionId now kv = (case kv of (key, value) \<Rightarrow>
     BatchSet (docId sessionId key)
       \<lparr>fd_sessionId = sessionId, fd_key = key, fd_value = value, fd_updatedAt = now, fd_version = 1\<rparr>)"

definition fs_setMany ::
  "retry_options option \<Rightarrow> 's firestore \<Rightarrow> string \<Rightarrow> (string \<times> jstr) list \<Rightarrow> int \<Rightarrow> ('s pooled, unit) io" where
  "fs_setMany opts D sessionId entries now =
     (if entries = [] then ret ()
      else fs_batch (fs_withRetry opts (po_lift (fs_commit D (map (fs_entry sessionId now) entries))) ''setMany''))"

definition fs_set :: "retry_options option \<Rightarrow> 's firestore \<Rightarrow> string \<Rightarrow> string \<Rightarrow> jstr \<Rightarrow> int \<Rightarrow> ('s pooled, unit) io" where
  "fs_set opts D sessionId key value now = fs_setMany opts D sessionId [(key, value)] now"

definition fs_delete :: "retry_options option \<Rightarrow> 's firestore \<Rightarrow> string \<Rightarrow> string \<Rightarrow> ('s pooled, unit) io" where
  "fs_delete opts D sessionId key =
     fs_withRetry opts (fs_client (fs_doc_delete D (docId sessionId key))) ''delete''"

definition fs_deleteMany :: "retry_options option \<Rightarrow> 's firestore \<Rightarrow> string \<Rightarrow> string list \<Rightarrow> ('s pooled, unit) io" where
  "fs_deleteMany opts D sessionId keys =
     (if keys = [] then ret ()
      else fs_batch (fs_withRetry opts
        (po_lift (fs_commit D (map (\<lambda>key. BatchDelete (docId sessionId key)) keys))) ''deleteMany''))"

definition fs_getAllKeys :: "retry_options option \<Rightarrow> 's firestore \<Rightarrow> string \<Rightarrow> ('s pooled, string list) io" where
  "fs_getAllKeys opts D sessionId =
     bindA (fs_withRetry opts (fs_client (fs_where_session D sessionId)) ''getAllKeys'')
       (\<lambda>docs. ret (map (\<lambda>d. fd_key (snd d)) docs))"

definition fs_deleteSession :: "retry_options option \<Rightarrow> 's firestore \<Rightarrow> string \<Rightarrow> ('s pooled, unit) io" where
  "fs_deleteSession opts D sessionId =
     bindA (fs_withRetry opts (fs_client (fs_where_session D sessionId)) ''deleteSession'') (\<lambda>docs.
       if docs = [] then ret ()
       else fs_batch (fs_withRetry opts
         (po_lift (fs_commit D (map (\<lambda>d. BatchDelete (fst d)) docs))) ''deleteSession''))"

text \<open>\<open>Set.add\<close>: a JavaScript \<open>Set\<close> keeps the order of insertion.\<close>

definition set_add :: "string \<Rightarrow> string list \<Rightarrow> string list" where
  "set_add x xs = (if x \<in> set xs then xs else xs @ [x])"

definition fs_listSessions :: "retry_options option \<Rightarrow> 's firestore \<Rightarrow> ('s pooled, string list) io" where
  "fs_listSessions opts D =
     bindA (fs_withRetry opts (fs_client (fs_all_docs D)) ''listSessions'') (\<lambda>docs.
       ret (fold (\<lambda>d. set_add (fd_sessionId (snd d))) docs []))"

definition fs_sessionExists :: "retry_options option \<Rightarrow> 's firestore \<Rightarrow> string \<Rightarrow> ('s pooled, bool) io" where
  "fs_sessionExists opts D sessionId =
     bindA (fs_withRetry opts (fs_client (fs_where_session D sessionId)) ''sessionExists'') (\<lambda>docs. ret (docs \<noteq> []))"

definition fs_init :: "('s, unit) io \<Rightarrow> ('s pooled, unit) io" where
  "fs_init open_app = doc_init open_app"

definition fs_close :: "('s pooled, unit) io" where
  "fs_close = ret ()"

definition fs_adapter :: "retry_options option \<Rightarrow> 's firestore \<Rightarrow> ('s, unit) io \<Rightarrow> 's pooled adapter" where
  "fs_adapter opts D open_app =
     \<lparr>ad_name = ''firestore'', ad_init = fs_init open_app,
      ad_get = fs_get opts D, ad_getMany = fs_getMany opts D,
      ad_set = fs_set opts D, ad_setMany = fs_setMany opts D,
      ad_delete = fs_delete opts D, ad_deleteMany = fs_deleteMany opts D,
      ad_getAllKeys = fs_getAllKeys opts D, ad_deleteSession = fs_deleteSession opts D,
      ad_listSessions = fs_listSessions opts D, ad_sessionExists = fs_sessionExists opts D,
      ad_close = fs_close\<rparr>"

section \<open>Names whose documents stay apart\<close>

definition fs_sid :: "string \<Rightarrow> bool" where
  "fs_sid s \<longleftrightarrow> s \<noteq> [] \<and> CHR ''/'' \<notin> set s \<and> \<not> sublist ''__'' s \<and> last s \<noteq> CHR ''_''"

definition fs_key :: "string \<Rightarrow> bool" where
  "fs_key k \<longleftrightarrow> CHR ''/'' \<notin> set k"

lemma no_slash_same: "CHR ''/'' \<notin> set s \<Longrightarrow> no_slash s = s"
  by (induction s) (auto simp: no_slash_def)

lemma docId_legal: "fs_sid s \<Longrightarrow> fs_key k \<Longrightarrow> docId s k = s @ ''__'' @ k"
  by (simp add: docId_def fs_sid_def fs_key_def no_slash_same)

lemma separator_prefix:
  assumes "fs_sid s'" and "s @ ''__'' @ k = s' @ ''__'' @ k'" and "length s < length s'"
  shows False
proof -
  from assms(2,3) obtain t where t: "s' = s @ t" "''__'' @ k = t @ ''__'' @ k'"
    by (auto simp: append_eq_append_conv2)
  from t(1) assms(3) have "t \<noteq> []" by auto
  with t(2) obtain u where u: "t = CHR ''_'' # u" by (cases t) auto
  show False
  proof (cases u)
    case Nil
    with t u assms(1) show False by (simp add: fs_sid_def)
  next
    case (Cons c v)
    with t(2) u have "t = ''__'' @ v" by simp
    with t(1) assms(1) show False unfolding fs_sid_def sublist_def by blast
  qed
qed

lemma docId_inject:
  assumes "fs_sid s" and "fs_key k" and "fs_sid s'" and "fs_key k'"
  shows "docId s k = docId s' k' \<longleftrightarrow> s = s' \<and> k = k'"
proof
  assume "docId s k = docId s' k'"
  then have e: "s @ ''__'' @ k = s' @ ''__'' @ k'" by (simp add: docId_legal assms)
  have "length s = length s'"
    using separator_prefix [OF assms(3) e] separator_prefix [OF assms(1) e [symmetric]] by (meson linorder_neqE_nat)
  with e show "s = s' \<and> k = k'" by simp
qed simp

section \<open>What is assumed of the database\<close>

type_synonym doc_map = "string \<Rightarrow> firestore_doc option"

text \<open>The collection holds the documents this adapter writes.\<close>

definition docs_ok :: "doc_map \<Rightarrow> bool" where
  "docs_ok m \<longleftrightarrow> (\<forall>i x. m i = Some x \<longrightarrow>
     fs_sid (fd_sessionId x) \<and> fs_key (fd_key x) \<and> i = docId (fd_sessionId x) (fd_key x))"

fun batch_step :: "batch_op \<Rightarrow> doc_map \<Rightarrow> doc_map" where
  "batch_step (BatchSet i x) m = m(i \<mapsto> x)"
| "batch_step (BatchDelete i) m = m(i := None)"

text \<open>The documented behaviour of the service: a read of a document or a query returns the documents that
  match, a batch is one atomic write of its operations in order, and a call that throws did all or nothing.\<close>

locale firestore_server =
  fixes D :: "'s firestore"
    and docs :: "'s \<Rightarrow> doc_map"
    and dup :: "'s \<Rightarrow> bool"
  assumes doc_get: "fs_doc_get D i d = (g, d') \<Longrightarrow> docs d' = docs d \<and> (\<forall>x. g = Inr x \<longrightarrow> x = docs d i)"
    and where_session: "fs_where_session D s d = (q, d') \<Longrightarrow> docs d' = docs d \<and>
      (\<forall>xs. q = Inr xs \<longrightarrow> distinct (keys_of xs) \<and> set xs = {(i, x). docs d i = Some x \<and> fd_sessionId x = s})"
    and all_docs: "fs_all_docs D d = (q, d') \<Longrightarrow> docs d' = docs d \<and>
      (\<forall>xs. q = Inr xs \<longrightarrow> set xs = {(i, x). docs d i = Some x})"
    and commit: "fs_commit D ops d = (r, d') \<Longrightarrow>
      docs d' = fold batch_step ops (docs d) \<or> (\<exists>e. r = Inl e) \<and> docs d' = docs d"
    and doc_delete: "fs_doc_delete D i d = (r, d') \<Longrightarrow>
      docs d' = (docs d)(i := None) \<or> (\<exists>e. r = Inl e) \<and> docs d' = docs d"
    and get_up: "dup d \<Longrightarrow> \<exists>x d'. fs_doc_get D i d = (Inr x, d') \<and> dup d'"
    and where_up: "dup d \<Longrightarrow> \<exists>xs d'. fs_where_session D s d = (Inr xs, d') \<and> dup d'"
    and all_up: "dup d \<Longrightarrow> \<exists>xs d'. fs_all_docs D d = (Inr xs, d') \<and> dup d'"
    and commit_up: "dup d \<Longrightarrow> \<exists>d'. fs_commit D ops d = (Inr (), d') \<and> dup d'"
    and delete_up: "dup d \<Longrightarrow> \<exists>d'. fs_doc_delete D i d = (Inr (), d') \<and> dup d'"

section \<open>The rows in the documents\<close>

definition fs_rows :: "doc_map \<Rightarrow> db_view" where
  "fs_rows m = (\<lambda>s k. if fs_sid s \<and> fs_key k then map_option fs_toRecord (m (docId s k)) else None)"

definition fs_view :: "('s \<Rightarrow> doc_map) \<Rightarrow> 's \<Rightarrow> db_view" where
  "fs_view docs d = fs_rows (docs d)"

definition fs_ok :: "('s \<Rightarrow> doc_map) \<Rightarrow> 's \<Rightarrow> bool" where
  "fs_ok docs d \<longleftrightarrow> docs_ok (docs d)"

lemma fs_rows_legal: "fs_sid s \<Longrightarrow> fs_key k \<Longrightarrow> fs_rows m s k = map_option fs_toRecord (m (docId s k))"
  by (simp add: fs_rows_def)

lemma fs_rows_illegal: "\<not> (fs_sid s \<and> fs_key k) \<Longrightarrow> fs_rows m s k = None"
  unfolding fs_rows_def by (rule if_not_P)

lemma docs_okD: "docs_ok m \<Longrightarrow> m i = Some x \<Longrightarrow>
    fs_sid (fd_sessionId x) \<and> fs_key (fd_key x) \<and> i = docId (fd_sessionId x) (fd_key x)"
  by (simp add: docs_ok_def)

text \<open>Every document is the row its fields name.\<close>

lemma doc_is_row: "docs_ok m \<Longrightarrow> m i = Some x \<Longrightarrow> fs_rows m (fd_sessionId x) (fd_key x) = Some (fs_toRecord x)"
  using docs_okD [of m i x] by (simp add: fs_rows_legal)

lemma row_is_doc:
  assumes "docs_ok m" and "fs_rows m s k = Some r"
  shows "\<exists>x. m (docId s k) = Some x \<and> fd_sessionId x = s \<and> fd_key x = k \<and> r = fs_toRecord x"
proof -
  from assms(2) have l: "fs_sid s" "fs_key k" by (auto simp: fs_rows_def split: if_splits)
  with assms(2) obtain x where x: "m (docId s k) = Some x" "r = fs_toRecord x" by (auto simp: fs_rows_legal)
  from docs_okD [OF assms(1) x(1)] docId_inject [of s k "fd_sessionId x" "fd_key x"] l x show ?thesis by auto
qed

lemma rows_put:
  assumes "fs_sid s" and "fs_key k"
  shows "fs_rows (m(docId s k := x)) = (fs_rows m)(s := (fs_rows m s)(k := map_option fs_toRecord x))"
proof (intro ext)
  fix s' k'
  show "fs_rows (m(docId s k := x)) s' k' = ((fs_rows m)(s := (fs_rows m s)(k := map_option fs_toRecord x))) s' k'"
  proof (cases "fs_sid s' \<and> fs_key k'")
    case True
    then show ?thesis using docId_inject [of s' k' s k] assms by (auto simp: fs_rows_legal)
  next
    case False
    then have "\<not> (s' = s \<and> k' = k)" using assms by blast
    then show ?thesis using False by (auto simp: fs_rows_illegal)
  qed
qed

lemma docs_ok_put:
  "docs_ok m \<Longrightarrow> fs_sid s \<Longrightarrow> fs_key k \<Longrightarrow> fd_sessionId x = s \<Longrightarrow> fd_key x = k \<Longrightarrow> docs_ok (m(docId s k \<mapsto> x))"
  by (simp add: docs_ok_def)

lemma docs_ok_delete: "docs_ok m \<Longrightarrow> docs_ok (m(i := None))"
  by (simp add: docs_ok_def)

lemma docs_ok_deletes: "docs_ok m \<Longrightarrow> docs_ok (fold batch_step (map (\<lambda>x. BatchDelete (f x)) xs) m)"
  by (induction xs arbitrary: m) (simp_all add: docs_ok_delete)

definition fs_new :: "string \<Rightarrow> int \<Rightarrow> string \<Rightarrow> jstr \<Rightarrow> session_record" where
  "fs_new s now k x = \<lparr>sr_sessionId = s, sr_key = k, sr_value = x, sr_updatedAt = now, sr_version = 1\<rparr>"

lemma rows_sets:
  assumes "fs_sid s" and "\<forall>e \<in> set es. fs_key (fst e)"
  shows "fs_rows (fold batch_step (map (fs_entry s now) es) m) s' k' =
    (case (if s' = s then map_of (rev es) k' else None) of Some x \<Rightarrow> Some (fs_new s now k' x) | None \<Rightarrow> fs_rows m s' k')"
  using assms
proof (induction es arbitrary: m)
  case (Cons e es)
  obtain k x where e: "e = (k, x)" by fastforce
  then have k: "fs_key k" and es: "\<forall>e \<in> set es. fs_key (fst e)" using Cons.prems by auto
  let ?x = "\<lparr>fd_sessionId = s, fd_key = k, fd_value = x, fd_updatedAt = now, fd_version = 1\<rparr>"
  have r: "map_of (rev ((k, x) # es)) k' = (case map_of (rev es) k' of Some y \<Rightarrow> Some y | None \<Rightarrow> if k' = k then Some x else None)"
    by (auto simp: map_add_def split: option.split)
  note IH = Cons.IH [OF Cons.prems(1) es, of "m(docId s k \<mapsto> ?x)"]
  have one: "fs_rows (m(docId s k \<mapsto> ?x)) s' k' = (if s' = s \<and> k' = k then Some (fs_new s now k x) else fs_rows m s' k')"
    unfolding rows_put [OF Cons.prems(1) k] by (simp add: fs_toRecord_def fs_new_def)
  have step: "batch_step (fs_entry s now (k, x)) m = m(docId s k \<mapsto> ?x)" by (simp add: fs_entry_def)
  show ?case unfolding e list.map fold_simps step IH one r by (auto split: option.split)
qed simp

lemma docs_ok_sets:
  "fs_sid s \<Longrightarrow> \<forall>e \<in> set es. fs_key (fst e) \<Longrightarrow> docs_ok m \<Longrightarrow> docs_ok (fold batch_step (map (fs_entry s now) es) m)"
  by (induction es arbitrary: m) (auto simp: fs_entry_def docs_ok_put split: prod.split)

lemma deletes_apply:
  "fold batch_step (map (\<lambda>x. BatchDelete (f x)) xs) m i = (if i \<in> f ` set xs then None else m i)"
  by (induction xs arbitrary: m) auto

section \<open>The calls of the client, as queries and updates of the rows\<close>

context firestore_server
begin

abbreviation "view \<equiv> fs_view docs"
abbreviation "ok \<equiv> fs_ok docs"

lemma same_view: "docs d' = docs d \<Longrightarrow> view d' = view d \<and> ok d' = ok d"
  by (simp add: fs_view_def fs_ok_def)

lemma read_query:
  assumes "ok d" and "\<And>r d'. m d = (r, d') \<Longrightarrow> docs d' = docs d \<and> (\<forall>x. r = Inr x \<longrightarrow> P x)"
    and "dup d \<Longrightarrow> \<exists>x d'. m d = (Inr x, d') \<and> dup d'"
  shows "query_ok view ok dup m d P"
  using assms same_view by (intro query_okI) blast+

lemma get_query:
  assumes "ok d" and "fs_sid s" and "fs_key k"
  shows "query_ok view ok dup (fs_doc_get D (docId s k)) d (\<lambda>x. view d s k = map_option fs_toRecord x)"
  by (rule read_query [OF assms(1) _ get_up]) (use doc_get assms in \<open>fastforce simp: fs_view_def fs_rows_legal\<close>)

lemma where_query:
  assumes "ok d"
  shows "query_ok view ok dup (fs_where_session D s) d
    (\<lambda>xs. distinct (map (\<lambda>x. fd_key (snd x)) xs) \<and> (\<lambda>x. fd_key (snd x)) ` set xs = {k. view d s k \<noteq> None} \<and>
      (\<forall>x \<in> set xs. fs_sid s \<and> fs_key (fd_key (snd x)) \<and> fst x = docId s (fd_key (snd x))))"
proof (rule read_query [OF assms _ where_up])
  fix r d'
  assume run: "fs_where_session D s d = (r, d')"
  note ok = assms [unfolded fs_ok_def]
  have "distinct (map (\<lambda>x. fd_key (snd x)) xs) \<and> (\<lambda>x. fd_key (snd x)) ` set xs = {k. view d s k \<noteq> None} \<and>
      (\<forall>x \<in> set xs. fs_sid s \<and> fs_key (fd_key (snd x)) \<and> fst x = docId s (fd_key (snd x)))" if "r = Inr xs" for xs
  proof -
    from where_session [OF run] that have xs: "distinct (keys_of xs)"
      "set xs = {(i, x). docs d i = Some x \<and> fd_sessionId x = s}" by auto
    have legal: "fs_sid s \<and> fs_key (fd_key (snd x)) \<and> fst x = docId s (fd_key (snd x))" if "x \<in> set xs" for x
      using docs_okD [OF ok, of "fst x" "snd x"] that by (auto simp: xs(2))
    have "inj_on (\<lambda>x. fd_key (snd x)) (set xs)"
    proof (rule inj_onI)
      fix x y
      assume "x \<in> set xs" "y \<in> set xs" "fd_key (snd x) = fd_key (snd y)"
      with legal have "fst x = fst y" by metis
      with \<open>x \<in> set xs\<close> \<open>y \<in> set xs\<close> show "x = y" by (auto simp: xs(2))
    qed
    then have "distinct (map (\<lambda>x. fd_key (snd x)) xs)"
      using xs(1) by (simp add: distinct_map)
    moreover have "(\<lambda>x. fd_key (snd x)) ` set xs = {k. view d s k \<noteq> None}"
    proof
      show "(\<lambda>x. fd_key (snd x)) ` set xs \<subseteq> {k. view d s k \<noteq> None}"
        using doc_is_row [OF ok] by (force simp: xs(2) fs_view_def)
      show "{k. view d s k \<noteq> None} \<subseteq> (\<lambda>x. fd_key (snd x)) ` set xs"
        using row_is_doc [OF ok] by (force simp: xs(2) fs_view_def)
    qed
    ultimately show ?thesis using legal by blast
  qed
  with where_session [OF run] show "docs d' = docs d \<and> (\<forall>x. r = Inr x \<longrightarrow>
      distinct (map (\<lambda>x. fd_key (snd x)) x) \<and> (\<lambda>x. fd_key (snd x)) ` set x = {k. view d s k \<noteq> None} \<and>
      (\<forall>y \<in> set x. fs_sid s \<and> fs_key (fd_key (snd y)) \<and> fst y = docId s (fd_key (snd y))))" by blast
qed

lemma all_query:
  assumes "ok d"
  shows "query_ok view ok dup (fs_all_docs D) d
    (\<lambda>xs. (\<lambda>x. fd_sessionId (snd x)) ` set xs = {s. \<exists>k. view d s k \<noteq> None})"
proof (rule read_query [OF assms _ all_up])
  fix r d'
  assume run: "fs_all_docs D d = (r, d')"
  note ok = assms [unfolded fs_ok_def]
  have "(\<lambda>x. fd_sessionId (snd x)) ` set xs = {s. \<exists>k. view d s k \<noteq> None}" if "r = Inr xs" for xs
  proof -
    from all_docs [OF run] that have xs: "set xs = {(i, x). docs d i = Some x}" by auto
    show ?thesis
    proof
      show "(\<lambda>x. fd_sessionId (snd x)) ` set xs \<subseteq> {s. \<exists>k. view d s k \<noteq> None}"
        using doc_is_row [OF ok] by (force simp: xs fs_view_def)
      show "{s. \<exists>k. view d s k \<noteq> None} \<subseteq> (\<lambda>x. fd_sessionId (snd x)) ` set xs"
        using row_is_doc [OF ok] by (force simp: xs fs_view_def)
    qed
  qed
  with all_docs [OF run] show "docs d' = docs d \<and> (\<forall>x. r = Inr x \<longrightarrow>
      (\<lambda>x. fd_sessionId (snd x)) ` set x = {s. \<exists>k. view d s k \<noteq> None})" by blast
qed

lemma write_update:
  assumes "ok d" and "\<And>r d'. m d = (r, d') \<Longrightarrow> docs d' = G (docs d) \<or> (\<exists>e. r = Inl e) \<and> docs d' = docs d"
    and "dup d \<Longrightarrow> \<exists>d'. m d = (Inr (), d') \<and> dup d'"
    and "docs_ok (G (docs d))" and "fs_rows (G (docs d)) = F (view d)"
  shows "update_ok view ok dup True m d (\<lambda>w. w = F (view d))"
  unfolding update_ok_def
proof (intro conjI allI impI)
  fix r d'
  assume run: "m d = (r, d')"
  have F: "view d' = F (view d) \<and> ok d'" if "docs d' = G (docs d)"
    using assms(4) by (simp add: fs_view_def fs_ok_def that assms(5) [unfolded fs_view_def])
  have "ok d' \<and> (case r of Inl _ \<Rightarrow> view d' = view d \<or> view d' = F (view d) | Inr _ \<Rightarrow> view d' = F (view d))"
    using assms(2) [OF run]
  proof (elim disjE)
    assume "docs d' = G (docs d)"
    from F [OF this] show ?thesis by (cases r) simp_all
  next
    assume "(\<exists>e. r = Inl e) \<and> docs d' = docs d"
    with same_view [of d' d] assms(1) show ?thesis by auto
  qed
  then show "ok d'" and "case r of Inl _ \<Rightarrow> view d' = view d \<or> view d' = F (view d) | Inr _ \<Rightarrow> view d' = F (view d)"
    by simp_all
qed (use assms(3) in auto)

lemma sets_update:
  assumes "ok d" and "fs_sid s" and "\<forall>e \<in> set es. fs_key (fst e)"
  shows "update_ok view ok dup True (fs_commit D (map (fs_entry s now) es)) d
    (\<lambda>w. w = put_rows s (fst ` set es) (\<lambda>k. fs_new s now k (the (store_all es Map.empty k))) (view d))"
proof (rule write_update [where G = "fold batch_step (map (fs_entry s now) es)", OF assms(1)])
  show "docs_ok (fold batch_step (map (fs_entry s now) es) (docs d))"
    by (rule docs_ok_sets [OF assms(2,3) assms(1) [unfolded fs_ok_def]])
  show "fs_rows (fold batch_step (map (fs_entry s now) es) (docs d)) =
      put_rows s (fst ` set es) (\<lambda>k. fs_new s now k (the (store_all es Map.empty k))) (view d)"
  proof (intro ext)
    fix s' k'
    show "fs_rows (fold batch_step (map (fs_entry s now) es) (docs d)) s' k' =
      put_rows s (fst ` set es) (\<lambda>k. fs_new s now k (the (store_all es Map.empty k))) (view d) s' k'"
    proof (cases "map_of (rev es) k'")
      case None
      then have "k' \<notin> fst ` set es" by (simp add: map_of_eq_None_iff)
      with None show ?thesis unfolding rows_sets [OF assms(2,3)] put_rows_def fs_view_def by simp
    next
      case (Some x)
      then have "k' \<in> fst ` set es" "store_all es Map.empty k' = Some x"
        by (force dest: map_of_SomeD, simp add: store_all_apply)
      with Some show ?thesis unfolding rows_sets [OF assms(2,3)] put_rows_def fs_view_def by simp
    qed
  qed
qed (erule commit commit_up)+

lemma deletes_update:
  assumes "ok d" and "\<And>x. x \<in> set xs \<Longrightarrow> fs_sid s \<and> fs_key (g x) \<and> f x = docId s (g x)"
  shows "update_ok view ok dup True (fs_commit D (map (\<lambda>x. BatchDelete (f x)) xs)) d
    (\<lambda>w. w = drop_rows s (g ` set xs) (view d))"
proof (rule write_update [where G = "fold batch_step (map (\<lambda>x. BatchDelete (f x)) xs)", OF assms(1)])
  show "docs_ok (fold batch_step (map (\<lambda>x. BatchDelete (f x)) xs) (docs d))"
    by (rule docs_ok_deletes [OF assms(1) [unfolded fs_ok_def]])
  show "fs_rows (fold batch_step (map (\<lambda>x. BatchDelete (f x)) xs) (docs d)) = drop_rows s (g ` set xs) (view d)"
  proof (intro ext)
    fix s' k'
    show "fs_rows (fold batch_step (map (\<lambda>x. BatchDelete (f x)) xs) (docs d)) s' k' = drop_rows s (g ` set xs) (view d) s' k'"
    proof (cases "fs_sid s' \<and> fs_key k'")
      case True
      then have l: "fs_sid s'" "fs_key k'" by simp_all
      have "docId s' k' \<in> f ` set xs \<longleftrightarrow> s' = s \<and> k' \<in> g ` set xs"
      proof
        assume "docId s' k' \<in> f ` set xs"
        then obtain x where "x \<in> set xs" "docId s' k' = f x" by auto
        with assms(2) [of x] docId_inject [OF l] show "s' = s \<and> k' \<in> g ` set xs" by auto
      next
        assume "s' = s \<and> k' \<in> g ` set xs"
        with assms(2) show "docId s' k' \<in> f ` set xs" by force
      qed
      then show ?thesis by (auto simp: fs_rows_legal [OF l] deletes_apply drop_rows_def fs_view_def)
    next
      case False
      then show ?thesis by (auto simp: fs_rows_illegal [OF False] drop_rows_def fs_view_def)
    qed
  qed
qed (erule commit commit_up)+

lemma delete_update:
  assumes "ok d" and "fs_sid s" and "fs_key k"
  shows "update_ok view ok dup True (fs_doc_delete D (docId s k)) d (\<lambda>w. w = drop_rows s {k} (view d))"
proof (rule write_update [where G = "\<lambda>m. m(docId s k := None)", OF assms(1)])
  show "docs_ok ((docs d)(docId s k := None))" by (rule docs_ok_delete [OF assms(1) [unfolded fs_ok_def]])
  show "fs_rows ((docs d)(docId s k := None)) = drop_rows s {k} (view d)"
    using rows_put [OF assms(2,3), of "docs d" None] by (auto simp: fun_eq_iff drop_rows_def fs_view_def)
qed (erule doc_delete delete_up)+

lemma fs_view_legal: "view d s k \<noteq> None \<Longrightarrow> fs_sid s \<and> fs_key k"
  by (auto simp: fs_view_def fs_rows_def split: if_splits)

lemma fs_view_record: "ok d \<Longrightarrow> view d s k = Some r \<Longrightarrow> sr_sessionId r = s \<and> sr_key r = k"
  using row_is_doc [of "docs d" s k r] by (auto simp: fs_view_def fs_ok_def fs_toRecord_def)

end

section \<open>The adapter is a store of records\<close>

locale firestore_adapter = firestore_server D docs dup
  for D :: "'s firestore" and docs :: "'s \<Rightarrow> doc_map" and dup :: "'s \<Rightarrow> bool" +
  fixes opts :: "retry_options option"
    and open_app :: "('s, unit) io"
  assumes retries: "may_retry opts"
begin

abbreviation "A \<equiv> fs_adapter opts D open_app"
abbreviation aview :: "'s pooled \<Rightarrow> db_view" where "aview \<equiv> pl_view view"
abbreviation aok :: "'s pooled \<Rightarrow> bool" where "aok \<equiv> pl_ok ok"
abbreviation aup :: "'s pooled \<Rightarrow> bool" where "aup \<equiv> pl_up dup"

lemma batch_ok:
  assumes "aok p" and "update_ok aview aok aup can m p Q"
  shows "update_ok aview aok aup can (fs_batch m) p Q"
  using assms by (auto simp: fs_batch_def update_ok_def)

lemma fs_get_ok:
  assumes "aok p" and "fs_sid s" and "fs_key k"
  shows "query_ok aview aok aup (fs_get opts D s k) p (\<lambda>r. r = aview p s k)"
  unfolding fs_get_def fs_withRetry_def fs_client_def
  by (rule query_ok_map [OF doc_query [where P = "\<lambda>v x. v s k = map_option fs_toRecord x",
        OF get_query [OF _ assms(2,3)] assms(1) retries]]) (simp_all split: option.split)

lemma fs_getMany_ok:
  assumes "aok p" and "fs_sid s" and "\<forall>k \<in> set ks. fs_key k"
  shows "query_ok aview aok aup (fs_getMany opts D s ks) p
    (\<lambda>m. distinct (keys_of m) \<and> map_of m = (\<lambda>k. if k \<in> set ks then aview p s k else None))"
proof (cases "ks = []")
  case True
  then show ?thesis unfolding fs_getMany_def if_P [OF True] by (intro query_ok_return assms(1)) simp
next
  case False
  show ?thesis unfolding fs_getMany_def if_not_P [OF False]
  proof (rule getEach_store [where view = aview and ivr = aok, OF _ assms(1) refl])
    fix k q
    assume "k \<in> set ks" and q: "aok q" and v: "aview q = aview p"
    with assms(3) have "fs_key k" by blast
    from fs_get_ok [OF q assms(2) this] show "query_ok aview aok aup (fs_get opts D s k) q (\<lambda>r. r = aview p s k)"
      unfolding v .
  qed
qed

lemma fs_setMany_ok:
  assumes "aok p" and "fs_sid s" and "\<forall>e \<in> set es. fs_key (fst e)"
  shows "update_ok aview aok aup True (fs_setMany opts D s es now) p (upserted s es now (aview p))"
proof (cases "es = []")
  case True
  show ?thesis unfolding fs_setMany_def if_P [OF True] by (rule update_ok_return) (simp_all add: assms(1) True)
next
  case False
  let ?f = "\<lambda>k. fs_new s now k (the (store_all es Map.empty k))"
  have put: "upserted s es now (aview p) (put_rows s (fst ` set es) ?f (aview p))"
    by (rule upserted_put) (use store_all_present_Some in \<open>force simp: fs_new_def\<close>)
  have "update_ok aview aok aup True
      (base_withRetry ''firestore'' opts (po_lift (fs_commit D (map (fs_entry s now) es))) ''setMany'') p
      (\<lambda>w. w = put_rows s (fst ` set es) ?f (aview p))"
    by (rule lift_update [OF sets_update [OF _ assms(2,3)] assms(1) retries put_rows_idem])
  then have "update_ok aview aok aup True
      (base_withRetry ''firestore'' opts (po_lift (fs_commit D (map (fs_entry s now) es))) ''setMany'') p
      (upserted s es now (aview p))"
    by (rule update_ok_weaken) (simp_all add: put)
  then show ?thesis unfolding fs_setMany_def if_not_P [OF False] fs_withRetry_def by (rule batch_ok [OF assms(1)])
qed

lemma fs_delete_ok:
  assumes "aok p" and "fs_sid s" and "fs_key k"
  shows "update_ok aview aok aup True (fs_delete opts D s k) p (removed s [k] (aview p))"
  using doc_update [where F = "drop_rows s {k}", OF delete_update [OF _ assms(2,3)] assms(1) retries drop_rows_idem]
  by (simp add: fs_delete_def fs_withRetry_def fs_client_def removed_eq)

lemma fs_deleteMany_ok:
  assumes "aok p" and "fs_sid s" and "\<forall>k \<in> set ks. fs_key k"
  shows "update_ok aview aok aup True (fs_deleteMany opts D s ks) p (removed s ks (aview p))"
proof (cases "ks = []")
  case True
  show ?thesis unfolding fs_deleteMany_def if_P [OF True] by (rule update_ok_return) (simp_all add: assms(1) True)
next
  case False
  have u: "update_ok view ok dup True (fs_commit D (map (\<lambda>k. BatchDelete (docId s k)) ks)) d
      (\<lambda>w. w = drop_rows s ((\<lambda>k. k) ` set ks) (view d))" if "ok d" for d
    by (rule deletes_update [OF that]) (simp add: assms(2,3))
  from lift_update [where F = "drop_rows s ((\<lambda>k. k) ` set ks)", OF u assms(1) retries drop_rows_idem]
  show ?thesis unfolding fs_deleteMany_def if_not_P [OF False] fs_withRetry_def
    by (intro batch_ok assms(1)) (simp add: removed_eq)
qed

lemma session_docs:
  assumes "aok p"
  shows "query_ok aview aok aup (fs_withRetry opts (fs_client (fs_where_session D s)) label) p
    (\<lambda>xs. distinct (map (\<lambda>x. fd_key (snd x)) xs) \<and> (\<lambda>x. fd_key (snd x)) ` set xs = {k. aview p s k \<noteq> None} \<and>
      (\<forall>x \<in> set xs. fs_sid s \<and> fs_key (fd_key (snd x)) \<and> fst x = docId s (fd_key (snd x))))"
  unfolding fs_withRetry_def fs_client_def
  by (rule doc_query [where P = "\<lambda>v xs. distinct (map (\<lambda>x. fd_key (snd x)) xs) \<and>
      (\<lambda>x. fd_key (snd x)) ` set xs = {k. v s k \<noteq> None} \<and>
      (\<forall>x \<in> set xs. fs_sid s \<and> fs_key (fd_key (snd x)) \<and> fst x = docId s (fd_key (snd x)))",
      OF where_query assms retries])

lemma fs_getAllKeys_ok:
  assumes "aok p"
  shows "query_ok aview aok aup (fs_getAllKeys opts D s) p (\<lambda>ks. distinct ks \<and> set ks = {k. aview p s k \<noteq> None})"
  unfolding fs_getAllKeys_def by (rule query_ok_map [OF session_docs [OF assms]]) simp

lemma image_some: "f ` set xs = {k. P k} \<Longrightarrow> xs \<noteq> [] \<longleftrightarrow> (\<exists>k. P k)"
proof -
  assume "f ` set xs = {k. P k}"
  then have "f ` set xs = {} \<longleftrightarrow> (\<forall>k. \<not> P k)" by simp
  then show ?thesis by simp
qed

lemma fs_sessionExists_ok:
  assumes "aok p"
  shows "query_ok aview aok aup (fs_sessionExists opts D s) p (\<lambda>b. b \<longleftrightarrow> (\<exists>k. aview p s k \<noteq> None))"
  unfolding fs_sessionExists_def by (rule query_ok_map [OF session_docs [OF assms]]) (rule image_some, elim conjE)

lemma set_adds: "set (fold (\<lambda>x. set_add (f x)) xs ys) = set ys \<union> f ` set xs"
  by (induction xs arbitrary: ys) (auto simp: set_add_def)

lemma distinct_adds: "distinct ys \<Longrightarrow> distinct (fold (\<lambda>x. set_add (f x)) xs ys)"
  by (induction xs arbitrary: ys) (auto simp: set_add_def)

lemma fs_listSessions_ok:
  assumes "aok p"
  shows "query_ok aview aok aup (fs_listSessions opts D) p (\<lambda>sids. distinct sids \<and> set sids = {s. \<exists>k. aview p s k \<noteq> None})"
  unfolding fs_listSessions_def fs_withRetry_def fs_client_def
  by (rule query_ok_map [OF doc_query [where P = "\<lambda>v xs. (\<lambda>x. fd_sessionId (snd x)) ` set xs = {s. \<exists>k. v s k \<noteq> None}",
        OF all_query assms retries]]) (simp_all add: set_adds distinct_adds)

lemma fs_deleteSession_ok:
  assumes "aok p" and "fs_sid s"
  shows "update_ok aview aok aup True (fs_deleteSession opts D s) p (wiped s (aview p))"
  unfolding fs_deleteSession_def
proof (rule update_ok_bind [OF session_docs [OF assms(1)]])
  fix xs q
  assume xs: "distinct (map (\<lambda>x. fd_key (snd x)) xs) \<and> (\<lambda>x. fd_key (snd x)) ` set xs = {k. aview p s k \<noteq> None} \<and>
      (\<forall>x \<in> set xs. fs_sid s \<and> fs_key (fd_key (snd x)) \<and> fst x = docId s (fd_key (snd x)))"
    and q: "aok q" and v: "aview q = aview p"
  have K: "(\<lambda>x. fd_key (snd x)) ` set xs = {k. aview p s k \<noteq> None}" using xs by (elim conjE)
  have w: "wiped s (aview p) = (\<lambda>w. w = drop_rows s ((\<lambda>x. fd_key (snd x)) ` set xs) (aview q))"
    unfolding v K wiped_eq drop_rows_all ..
  show "update_ok aview aok aup True (if xs = [] then ret ()
      else fs_batch (fs_withRetry opts (po_lift (fs_commit D (map (\<lambda>d. BatchDelete (fst d)) xs))) ''deleteSession'')) q
      (wiped s (aview p))"
  proof (cases "xs = []")
    case True
    show ?thesis unfolding if_P [OF True] w by (rule update_ok_return) (use q True in \<open>auto simp: drop_rows_def\<close>)
  next
    case False
    have u: "update_ok view ok dup True (fs_commit D (map (\<lambda>d. BatchDelete (fst d)) xs)) d
        (\<lambda>w. w = drop_rows s ((\<lambda>x. fd_key (snd x)) ` set xs) (view d))" if "ok d" for d
      by (rule deletes_update [OF that]) (use xs in blast)
    show ?thesis unfolding if_not_P [OF False] fs_withRetry_def w
      by (intro batch_ok q lift_update u retries drop_rows_idem)
  qed
qed

end

context firestore_adapter
begin

text \<open>The adapter's operations, each under the contract's name for it.\<close>

lemma is_store: "db_store A aview aok aup fs_sid fs_key"
proof
  fix p s k x now
  assume a: "aok p" "fs_sid s" "fs_key k"
  show "query_ok aview aok aup (ad_get A s k) p (\<lambda>r. r = aview p s k)"
    unfolding fs_adapter_def adapter.simps using a by (rule fs_get_ok)
  show "update_ok aview aok aup True (ad_set A s k x now) p (upserted s [(k, x)] now (aview p))"
    unfolding fs_adapter_def adapter.simps fs_set_def by (rule fs_setMany_ok [OF a(1,2)]) (simp add: a(3))
  show "update_ok aview aok aup True (ad_delete A s k) p (removed s [k] (aview p))"
    unfolding fs_adapter_def adapter.simps using a by (rule fs_delete_ok)
next
  fix p s now and es :: "(string \<times> jstr) list"
  assume a: "aok p" "fs_sid s" "\<forall>e \<in> set es. fs_key (fst e)"
  show "update_ok aview aok aup (distinct (keys_of es)) (ad_setMany A s es now) p (upserted s es now (aview p))"
    unfolding fs_adapter_def adapter.simps by (rule update_ok_weaken [OF fs_setMany_ok [OF a]]) simp_all
next
  fix p s and ks :: "string list"
  assume a: "aok p" "fs_sid s" "\<forall>k \<in> set ks. fs_key k"
  show "query_ok aview aok aup (ad_getMany A s ks) p
    (\<lambda>m. distinct (keys_of m) \<and> map_of m = (\<lambda>k. if k \<in> set ks then aview p s k else None))"
    unfolding fs_adapter_def adapter.simps using a by (rule fs_getMany_ok)
  show "update_ok aview aok aup True (ad_deleteMany A s ks) p (removed s ks (aview p))"
    unfolding fs_adapter_def adapter.simps using a by (rule fs_deleteMany_ok)
next
  fix p s
  assume a: "aok p" "fs_sid s"
  show "query_ok aview aok aup (ad_getAllKeys A s) p (\<lambda>ks. distinct ks \<and> set ks = {k. aview p s k \<noteq> None})"
    unfolding fs_adapter_def adapter.simps using a(1) by (rule fs_getAllKeys_ok)
  show "query_ok aview aok aup (ad_sessionExists A s) p (\<lambda>b. b \<longleftrightarrow> (\<exists>k. aview p s k \<noteq> None))"
    unfolding fs_adapter_def adapter.simps using a(1) by (rule fs_sessionExists_ok)
  show "update_ok aview aok aup True (ad_deleteSession A s) p (wiped s (aview p))"
    unfolding fs_adapter_def adapter.simps using a by (rule fs_deleteSession_ok)
next
  fix p
  assume a: "aok p"
  show "query_ok aview aok aup (ad_listSessions A) p (\<lambda>sids. distinct sids \<and> set sids = {s. \<exists>k. aview p s k \<noteq> None})"
    unfolding fs_adapter_def adapter.simps using a by (rule fs_listSessions_ok)
  show "fs_sid s \<and> fs_key k" if "aview p s k \<noteq> None" for s k using that by (rule fs_view_legal)
  show "sr_sessionId r = s \<and> sr_key r = k" if "aview p s k = Some r" for s k r
    using a that by (rule fs_view_record)
qed

end

sublocale firestore_adapter \<subseteq> db_store "fs_adapter opts D open_app" "pl_view (fs_view docs)" "pl_ok (fs_ok docs)" "pl_up dup" fs_sid fs_key
  by (rule is_store)

section \<open>A collection in memory\<close>

type_synonym doc_list = "(string \<times> firestore_doc) list"

fun ml_step :: "batch_op \<Rightarrow> doc_list \<Rightarrow> doc_list" where
  "ml_step (BatchSet i x) m = AList.update i x m"
| "ml_step (BatchDelete i) m = AList.delete i m"

definition ml_entries :: "doc_list \<Rightarrow> doc_list" where
  "ml_entries m = map (\<lambda>i. (i, the (map_of m i))) (remdups (keys_of m))"

definition mem_firestore :: "doc_list scripted firestore" where
  "mem_firestore = \<lparr>fs_doc_get = (\<lambda>i. sc_call (\<lambda>m. m) (\<lambda>m. map_of m i)),
     fs_doc_delete = (\<lambda>i. sc_call (AList.delete i) (\<lambda>_. ())),
     fs_where_session = (\<lambda>s. sc_call (\<lambda>m. m) (\<lambda>m. filter (\<lambda>x. fd_sessionId (snd x) = s) (ml_entries m))),
     fs_all_docs = sc_call (\<lambda>m. m) ml_entries,
     fs_commit = (\<lambda>ops. sc_call (fold ml_step ops) (\<lambda>_. ()))\<rparr>"

lemma ml_fold: "map_of (fold ml_step ops m) = fold batch_step ops (map_of m)"
proof (induction ops arbitrary: m)
  case (Cons x ops)
  have "map_of (ml_step x m) = batch_step x (map_of m)" by (cases x) (simp_all add: jmap_simps)
  with Cons show ?case unfolding fold_simps by simp
qed simp

lemma ml_entries_keys: "keys_of (ml_entries m) = remdups (keys_of m)"
  by (simp add: ml_entries_def comp_def)

lemma ml_entries_set: "set (ml_entries m) = {(i, x). map_of m i = Some x}"
proof -
  have "(i, x) \<in> set (ml_entries m) \<longleftrightarrow> map_of m i = Some x" for i x
  proof (cases "map_of m i")
    case None
    then have "i \<notin> fst ` set m" by (simp add: map_of_eq_None_iff)
    with None show ?thesis by (auto simp: ml_entries_def)
  next
    case (Some y)
    then have "i \<in> fst ` set m" by (metis map_of_eq_None_iff option.distinct(1))
    with Some show ?thesis by (auto simp: ml_entries_def)
  qed
  then show ?thesis by auto
qed

lemma ml_filter_distinct: "distinct (keys_of (filter P (ml_entries m)))"
  by (rule distinct_map_filter) (simp add: ml_entries_keys)

lemma mem_firestore_server: "firestore_server mem_firestore (\<lambda>d. map_of (sc_data d)) (\<lambda>d. sc_faults d = [])"
proof
  fix i s d d' ops and g :: "error + firestore_doc option" and q :: "error + doc_list" and r :: "error + unit"
  show "map_of (sc_data d') = map_of (sc_data d) \<and> (\<forall>x. g = Inr x \<longrightarrow> x = map_of (sc_data d) i)"
    if "fs_doc_get mem_firestore i d = (g, d')"
  proof -
    have "sc_call (\<lambda>m. m) (\<lambda>m. map_of m i) d = (g, d')" using that by (simp add: mem_firestore_def)
    from sc_call_law [OF this] show ?thesis by auto
  qed
  show "map_of (sc_data d') = map_of (sc_data d) \<and> (\<forall>xs. q = Inr xs \<longrightarrow>
      distinct (keys_of xs) \<and> set xs = {(i, x). map_of (sc_data d) i = Some x \<and> fd_sessionId x = s})"
    if "fs_where_session mem_firestore s d = (q, d')"
  proof -
    have "sc_call (\<lambda>m. m) (\<lambda>m. filter (\<lambda>x. fd_sessionId (snd x) = s) (ml_entries m)) d = (q, d')"
      using that by (simp add: mem_firestore_def)
    note c = sc_call_law [OF this]
    then have "sc_data d' = sc_data d" by blast
    moreover have "xs = filter (\<lambda>x. fd_sessionId (snd x) = s) (ml_entries (sc_data d))" if "q = Inr xs" for xs
      using c that by blast
    ultimately show ?thesis using ml_filter_distinct by (auto simp: ml_entries_set)
  qed
  show "map_of (sc_data d') = map_of (sc_data d) \<and> (\<forall>xs. q = Inr xs \<longrightarrow> set xs = {(i, x). map_of (sc_data d) i = Some x})"
    if "fs_all_docs mem_firestore d = (q, d')"
  proof -
    have "sc_call (\<lambda>m. m) ml_entries d = (q, d')" using that by (simp add: mem_firestore_def)
    note c = sc_call_law [OF this]
    then have "sc_data d' = sc_data d" by blast
    moreover have "xs = ml_entries (sc_data d)" if "q = Inr xs" for xs using c that by blast
    ultimately show ?thesis using ml_entries_set [of "sc_data d"] by metis
  qed
  show "map_of (sc_data d') = fold batch_step ops (map_of (sc_data d)) \<or> (\<exists>e. r = Inl e) \<and> map_of (sc_data d') = map_of (sc_data d)"
    if "fs_commit mem_firestore ops d = (r, d')"
  proof -
    have "sc_call (fold ml_step ops) (\<lambda>_. ()) d = (r, d')" using that by (simp add: mem_firestore_def)
    from sc_call_law [OF this] ml_fold [of ops "sc_data d"] show ?thesis by metis
  qed
  show "map_of (sc_data d') = (map_of (sc_data d))(i := None) \<or> (\<exists>e. r = Inl e) \<and> map_of (sc_data d') = map_of (sc_data d)"
    if "fs_doc_delete mem_firestore i d = (r, d')"
  proof -
    have "sc_call (AList.delete i) (\<lambda>_. ()) d = (r, d')" using that by (simp add: mem_firestore_def)
    from sc_call_law [OF this] map_of_delete [of i "sc_data d"] show ?thesis by metis
  qed
qed (simp_all add: mem_firestore_def sc_call_up sc_call_done)

interpretation mem_collection: firestore_server mem_firestore "\<lambda>d. map_of (sc_data d)" "\<lambda>d. sc_faults d = []"
  by (rule mem_firestore_server)

interpretation firestore_mem: firestore_adapter mem_firestore "\<lambda>d. map_of (sc_data d)" "\<lambda>d. sc_faults d = []" None "ret ()"
  by unfold_locales (rule may_retry_None)

section \<open>Names that share a document\<close>

context firestore_server
begin

lemma set_writes:
  assumes "fs_set opts D s k x now p = (Inr (), p1)"
  shows "docs (po_db p1) (docId s k) =
    Some \<lparr>fd_sessionId = s, fd_key = k, fd_value = x, fd_updatedAt = now, fd_version = 1\<rparr>"
proof -
  from assms have run: "with_retry opts (retry_label ''firestore'' ''setMany'') (po_lift (fs_commit D [fs_entry s now (k, x)])) p = (Inr (), p1)"
    by (auto simp: fs_set_def fs_setMany_def fs_batch_def fs_withRetry_def base_withRetry_def split: if_splits)
  let ?Q = "\<lambda>q. docs (po_db q) (docId s k) =
    Some \<lparr>fd_sessionId = s, fd_key = k, fd_value = x, fd_updatedAt = now, fd_version = 1\<rparr>"
  have "case (Inr () :: error + unit) of Inl e \<Rightarrow> True | Inr _ \<Rightarrow> ?Q p1"
  proof (rule with_retry_rule [where I = "\<lambda>_. True" and Q = "\<lambda>_. ?Q", OF _ _ run])
    fix q q' :: "'s pooled" and r :: "error + unit"
    assume "po_lift (fs_commit D [fs_entry s now (k, x)]) q = (r, q')"
    then show "case r of Inl e \<Rightarrow> True | Inr _ \<Rightarrow> ?Q q'"
      using commit by (cases r) (fastforce simp: po_lift_eq fs_entry_def)+
  qed simp
  then show ?thesis by simp
qed

lemma get_reads:
  assumes "fs_get opts D s k p = (Inr r, p1)"
  shows "r = map_option fs_toRecord (docs (po_db p) (docId s k))"
proof -
  from assms obtain y where y: "r = (case y of None \<Rightarrow> None | Some doc \<Rightarrow> Some (fs_toRecord doc))"
    and run: "with_retry opts (retry_label ''firestore'' ''get'') (fs_client (fs_doc_get D (docId s k))) p = (Inr y, p1)"
    by (auto simp: fs_get_def bindA_eq_Inr fs_withRetry_def base_withRetry_def)
  from y have r: "r = map_option fs_toRecord y" by (cases y) simp_all
  have "case (Inr y :: error + firestore_doc option) of Inl e \<Rightarrow> docs (po_db p1) = docs (po_db p) | Inr z \<Rightarrow> z = docs (po_db p) (docId s k)"
  proof (rule with_retry_rule [OF _ _ run])
    fix q q' :: "'s pooled" and r :: "error + firestore_doc option"
    assume "docs (po_db q) = docs (po_db p)" and "fs_client (fs_doc_get D (docId s k)) q = (r, q')"
    then show "case r of Inl e \<Rightarrow> docs (po_db q') = docs (po_db p) | Inr z \<Rightarrow> z = docs (po_db p) (docId s k)"
      using doc_get by (fastforce simp: fs_client_def doc_client_def po_lift_eq split: if_splits sum.splits)
  qed simp
  with r show ?thesis by simp
qed

end

section \<open>Properties\<close>

text \<open>C35. Over any Firestore service that keeps its documented laws, the adapter is a store of records for
  sessions and keys whose document ids stay apart: every read returns what is stored, every write that
  returns has stored its entries with the time given, the last one winning where a key occurs twice, and a
  write that throws did all or nothing.\<close>

theorem firestore_refines_store:
  assumes "firestore_server D docs up" and "may_retry opts"
  shows "db_store (fs_adapter opts D open_app) (pl_view (fs_view docs)) (pl_ok (fs_ok docs)) (pl_up up) fs_sid fs_key"
proof -
  have "firestore_adapter D docs up opts" using assms by (simp add: firestore_adapter_def firestore_adapter_axioms_def)
  then show ?thesis by (rule firestore_adapter.is_store)
qed

theorem firestore_refines_store_witness:
  "db_store (fs_adapter None mem_firestore (ret ())) (pl_view (fs_view (\<lambda>d. map_of (sc_data d))))
    (pl_ok (fs_ok (\<lambda>d. map_of (sc_data d)))) (pl_up (\<lambda>d. sc_faults d = [])) fs_sid fs_key"
  by (rule firestore_refines_store [OF mem_firestore_server may_retry_None])

text \<open>Two names with the same document id are one row, whatever the names: after \<open>set(s, k, x)\<close>, a read of
  the other name returns the row of the first, with its session and key, and version 1 whatever was stored
  before, so the version of a row never tells a newer value from an older one.\<close>

lemma firestore_names_collide:
  assumes "firestore_server D docs up" and "docId s' k' = docId s k"
    and "fs_set opts D s k x now p = (Inr (), p1)" and "fs_get opts D s' k' p1 = (Inr r, p2)"
  shows "r = Some \<lparr>sr_sessionId = s, sr_key = k, sr_value = x, sr_updatedAt = now, sr_version = 1\<rparr>"
  using firestore_server.set_writes [OF assms(1,3)] firestore_server.get_reads [OF assms(1,4)] assms(2)
  by (simp add: fs_toRecord_def)

lemma firestore_names_collide_witness:
  "fst (fs_get None mem_firestore ''bot'' ''a_b'' (snd (fs_set None mem_firestore ''bot'' ''a/b'' [1] 5
      \<lparr>po_open = True, po_db = \<lparr>sc_data = [], sc_faults = []\<rparr>\<rparr>))) =
    Inr (Some \<lparr>sr_sessionId = ''bot'', sr_key = ''a/b'', sr_value = [1], sr_updatedAt = 5, sr_version = 1\<rparr>)"
proof -
  let ?p = "\<lparr>po_open = True, po_db = \<lparr>sc_data = [], sc_faults = []\<rparr>\<rparr> :: doc_list scripted pooled"
  let ?p1 = "\<lparr>po_open = True, po_db = \<lparr>sc_data = [(''bot__a_b'',
     \<lparr>fd_sessionId = ''bot'', fd_key = ''a/b'', fd_value = [1], fd_updatedAt = 5, fd_version = 1\<rparr>)], sc_faults = []\<rparr>\<rparr>"
  have w: "fs_set None mem_firestore ''bot'' ''a/b'' [1] 5 ?p = (Inr (), ?p1)" by code_simp
  have i: "docId ''bot'' ''a_b'' = docId ''bot'' ''a/b''" by code_simp
  have "\<exists>r. fs_get None mem_firestore ''bot'' ''a_b'' ?p1 = (Inr r, ?p1)" by (rule exI, code_simp)
  then obtain r where g: "fs_get None mem_firestore ''bot'' ''a_b'' ?p1 = (Inr r, ?p1)" by blast
  from firestore_names_collide [OF mem_firestore_server i w g] w g show ?thesis by simp
qed

end
