(* ===== verification/RowStore.thy ===== *)
theory RowStore
  imports DocAdapter
begin

text \<open>
  The contract of an adapter whose batches are not atomic: a batch that throws may have done its work for
  some of its rows. Reads, and writes of one row, are as in \<open>db_store\<close>, so every \<open>db_store\<close> is a
  \<open>row_store\<close>. The retry wrapper keeps this contract too, as long as doing the rest of a batch later
  is the same batch.
\<close>

text \<open>\<open>Q\<close> is what a call that returns has done, \<open>E\<close> what one that throws may have done.\<close>

definition multi_ok ::
  "('d \<Rightarrow> db_view) \<Rightarrow> ('d \<Rightarrow> bool) \<Rightarrow> ('d \<Rightarrow> bool) \<Rightarrow> bool \<Rightarrow> ('d, 'a) io \<Rightarrow> 'd \<Rightarrow>
    (db_view \<Rightarrow> bool) \<Rightarrow> (db_view \<Rightarrow> bool) \<Rightarrow> bool" where
  "multi_ok view ivr up can m d Q E \<longleftrightarrow>
     (\<forall>r d'. m d = (r, d') \<longrightarrow> ivr d' \<and> (case r of Inr _ \<Rightarrow> Q (view d') | Inl _ \<Rightarrow> E (view d'))) \<and>
     (up d \<and> can \<longrightarrow> (\<exists>x d'. m d = (Inr x, d') \<and> up d'))"

definition partly_upserted :: "string \<Rightarrow> (string \<times> jstr) list \<Rightarrow> int \<Rightarrow> db_view \<Rightarrow> db_view \<Rightarrow> bool" where
  "partly_upserted sid es now v v' \<longleftrightarrow> (\<forall>s k. v' s k = v s k \<or>
     s = sid \<and> (\<exists>r. v' s k = Some r \<and> sr_sessionId r = s \<and> sr_key r = k \<and> (k, sr_value r) \<in> set es \<and> sr_updatedAt r = now))"

definition partly_removed :: "string \<Rightarrow> string set \<Rightarrow> db_view \<Rightarrow> db_view \<Rightarrow> bool" where
  "partly_removed sid K v v' \<longleftrightarrow> (\<forall>s k. v' s k = v s k \<or> s = sid \<and> k \<in> K \<and> v' s k = None)"

locale row_store =
  fixes A :: "'d adapter"
    and view :: "'d \<Rightarrow> db_view"
    and ivr :: "'d \<Rightarrow> bool"
    and up :: "'d \<Rightarrow> bool"
    and lsid :: "string \<Rightarrow> bool"
    and lkey :: "string \<Rightarrow> bool"
  assumes row_get: "ivr d \<Longrightarrow> lsid sid \<Longrightarrow> lkey k \<Longrightarrow>
      query_ok view ivr up (ad_get A sid k) d (\<lambda>r. r = view d sid k)"
    and row_getMany: "ivr d \<Longrightarrow> lsid sid \<Longrightarrow> \<forall>k \<in> set ks. lkey k \<Longrightarrow>
      query_ok view ivr up (ad_getMany A sid ks) d
        (\<lambda>m. distinct (keys_of m) \<and> map_of m = (\<lambda>k. if k \<in> set ks then view d sid k else None))"
    and row_setMany: "ivr d \<Longrightarrow> lsid sid \<Longrightarrow> \<forall>e \<in> set es. lkey (fst e) \<Longrightarrow>
      multi_ok view ivr up (distinct (keys_of es)) (ad_setMany A sid es now) d
        (upserted sid es now (view d)) (partly_upserted sid es now (view d))"
    and row_set: "ivr d \<Longrightarrow> lsid sid \<Longrightarrow> lkey k \<Longrightarrow>
      update_ok view ivr up True (ad_set A sid k x now) d (upserted sid [(k, x)] now (view d))"
    and row_deleteMany: "ivr d \<Longrightarrow> lsid sid \<Longrightarrow> \<forall>k \<in> set ks. lkey k \<Longrightarrow>
      multi_ok view ivr up True (ad_deleteMany A sid ks) d (removed sid ks (view d)) (partly_removed sid (set ks) (view d))"
    and row_delete: "ivr d \<Longrightarrow> lsid sid \<Longrightarrow> lkey k \<Longrightarrow>
      update_ok view ivr up True (ad_delete A sid k) d (removed sid [k] (view d))"
    and row_getAllKeys: "ivr d \<Longrightarrow> lsid sid \<Longrightarrow>
      query_ok view ivr up (ad_getAllKeys A sid) d (\<lambda>ks. distinct ks \<and> set ks = {k. view d sid k \<noteq> None})"
    and row_deleteSession: "ivr d \<Longrightarrow> lsid sid \<Longrightarrow>
      multi_ok view ivr up True (ad_deleteSession A sid) d (wiped sid (view d)) (partly_removed sid UNIV (view d))"
    and row_listSessions: "ivr d \<Longrightarrow>
      query_ok view ivr up (ad_listSessions A) d (\<lambda>sids. distinct sids \<and> set sids = {s. \<exists>k. view d s k \<noteq> None})"
    and row_sessionExists: "ivr d \<Longrightarrow> lsid sid \<Longrightarrow>
      query_ok view ivr up (ad_sessionExists A sid) d (\<lambda>b. b \<longleftrightarrow> (\<exists>k. view d sid k \<noteq> None))"
    and row_legal: "ivr d \<Longrightarrow> view d s k \<noteq> None \<Longrightarrow> lsid s \<and> lkey k"
    and row_record: "ivr d \<Longrightarrow> view d s k = Some r \<Longrightarrow> sr_sessionId r = s \<and> sr_key r = k"

section \<open>Facts about the contract\<close>

lemma multi_okD:
  assumes "multi_ok view ivr up can m d Q E" and "m d = (r, d')"
  shows "ivr d'" and "r = Inr x \<Longrightarrow> Q (view d')" and "r = Inl e \<Longrightarrow> E (view d')"
  using assms by (auto simp: multi_ok_def split: sum.splits)

lemma multi_ok_up:
  "multi_ok view ivr up can m d Q E \<Longrightarrow> up d \<Longrightarrow> can \<Longrightarrow> \<exists>x d'. m d = (Inr x, d') \<and> up d' \<and> Q (view d')"
  by (fastforce simp: multi_ok_def)

lemma update_multi:
  "update_ok view ivr up can m d Q \<Longrightarrow> E (view d) \<Longrightarrow> (\<And>w. Q w \<Longrightarrow> E w) \<Longrightarrow> multi_ok view ivr up can m d Q E"
  by (fastforce simp: update_ok_def multi_ok_def split: sum.splits)

lemma multi_ok_weaken:
  "multi_ok view ivr up can m d Q E \<Longrightarrow> (can' \<Longrightarrow> can) \<Longrightarrow> (\<And>w. Q w \<Longrightarrow> Q' w) \<Longrightarrow> (\<And>w. E w \<Longrightarrow> E' w) \<Longrightarrow>
    multi_ok view ivr up can' m d Q' E'"
  by (fastforce simp: multi_ok_def split: sum.splits)

lemma multi_ok_return: "ivr d \<Longrightarrow> Q (view d) \<Longrightarrow> multi_ok view ivr up can (ret ()) d Q E"
  by (auto simp: multi_ok_def)

lemma partly_upserted_refl [simp]: "partly_upserted s es now v v"
  by (simp add: partly_upserted_def)

lemma partly_removed_refl [simp]: "partly_removed s K v v"
  by (simp add: partly_removed_def)

lemma partly_upserted_trans:
  "partly_upserted s es now v u \<Longrightarrow> partly_upserted s es now u w \<Longrightarrow> partly_upserted s es now v w"
  unfolding partly_upserted_def by (metis (full_types))

lemma partly_removed_trans: "partly_removed s K v u \<Longrightarrow> partly_removed s K u w \<Longrightarrow> partly_removed s K v w"
  unfolding partly_removed_def by (metis (full_types))

lemma store_all_member: "store_all es Map.empty k = Some x \<Longrightarrow> (k, x) \<in> set es"
  by (auto simp: store_all_apply dest: map_of_SomeD split: option.splits)

lemma upserted_partly:
  assumes "upserted s es now v w"
  shows "partly_upserted s es now v w"
  unfolding partly_upserted_def
proof (intro allI)
  fix s' k
  show "w s' k = v s' k \<or> s' = s \<and> (\<exists>r. w s' k = Some r \<and> sr_sessionId r = s' \<and> sr_key r = k \<and>
      (k, sr_value r) \<in> set es \<and> sr_updatedAt r = now)"
  proof (cases "s' = s \<and> k \<in> fst ` set es")
    case True
    then obtain r where "w s' k = Some r" "sr_sessionId r = s'" "sr_key r = k"
        "Some (sr_value r) = store_all es Map.empty k" "sr_updatedAt r = now"
      using upserted_there [OF assms] by blast
    with True store_all_member [of es k "sr_value r"] show ?thesis by metis
  next
    case False
    then show ?thesis using upserted_other [OF assms, of s' k] by blast
  qed
qed

lemma removed_partly: "removed s ks v w \<Longrightarrow> partly_removed s (set ks) v w"
  by (auto simp: removed_def partly_removed_def)

lemma wiped_partly: "wiped s v w \<Longrightarrow> partly_removed s UNIV v w"
  by (auto simp: wiped_def partly_removed_def)

text \<open>A batch that throws having done part of its work is taken up again by the next attempt.\<close>

lemma multi_ok_retry:
  assumes "\<And>d. ivr d \<Longrightarrow> view d = v \<or> E (view d) \<Longrightarrow> multi_ok view ivr up can m d (Q' (view d)) (E' (view d))"
    and "E v" and "\<And>u w. E u \<Longrightarrow> Q' u w \<Longrightarrow> Q w" and "\<And>u w. E u \<Longrightarrow> E' u w \<Longrightarrow> E w"
    and "ivr d" and "view d = v" and "may_retry opts"
  shows "multi_ok view ivr up can (with_retry opts label m) d Q E"
  unfolding multi_ok_def
proof (intro conjI allI impI)
  fix r d'
  assume run: "with_retry opts label m d = (r, d')"
  have "case r of Inl e \<Rightarrow> ivr d' \<and> E (view d') | Inr x \<Rightarrow> ivr d' \<and> Q (view d')"
  proof (rule with_retry_rule [OF _ _ run])
    fix s r s'
    assume I: "ivr s \<and> E (view s)" and m: "m s = (r, s')"
    then have u: "multi_ok view ivr up can m s (Q' (view s)) (E' (view s))" using assms(1) by blast
    from multi_okD [OF u m] I assms(3,4) [of "view s" "view s'"]
    show "case r of Inl e \<Rightarrow> ivr s' \<and> E (view s') | Inr x \<Rightarrow> ivr s' \<and> Q (view s')"
      by (auto split: sum.splits)
  qed (use assms in simp)
  then show "ivr d'" and "case r of Inl e \<Rightarrow> E (view d') | Inr _ \<Rightarrow> Q (view d')"
    by (auto split: sum.splits)
next
  assume "up d \<and> can"
  with assms(1) [OF assms(5)] assms(6) obtain x d' where "m d = (Inr x, d') \<and> up d'"
    by (metis multi_ok_up)
  then show "\<exists>x d'. with_retry opts label m d = (Inr x, d') \<and> up d'"
    using assms(7) by (meson with_retry_returns)
qed

lemma multi_ok_client:
  fixes p :: "('s, 'z) pooled_scheme"
  assumes "multi_ok view ivr up can m (po_db p) Q E" and "ivr (po_db p)" and "E (view (po_db p))"
  shows "multi_ok (pl_view view) (pl_ok ivr) (pl_up up) can (doc_client name m) p Q E"
proof (cases "po_open p")
  case True
  obtain r d' where m: "m (po_db p) = (r, d')" by fastforce
  with True have c: "doc_client name m p = (r, p\<lparr>po_db := d'\<rparr>)" by (simp add: doc_client_def po_lift_eq)
  from assms(1) m True show ?thesis by (simp add: multi_ok_def c split: sum.splits)
next
  case False
  then have "doc_client name m p = (Inl (NotInitialised name), p)" by (simp add: doc_client_def)
  with assms(2,3) False show ?thesis by (simp add: multi_ok_def)
qed

lemma doc_multi:
  fixes p :: "('s, 'z) pooled_scheme"
  assumes "\<And>d. ivr d \<Longrightarrow> multi_ok view ivr up can m d (Q (view d)) (E (view d))" and "pl_ok ivr p" and "may_retry opts"
    and "\<And>v. E v v" and "\<And>v u w. E v u \<Longrightarrow> E u w \<Longrightarrow> E v w" and "\<And>v u w. E v u \<Longrightarrow> Q u w \<Longrightarrow> Q v w"
  shows "multi_ok (pl_view view) (pl_ok ivr) (pl_up up) can (base_withRetry name opts (doc_client drv m) label) p
    (Q (pl_view view p)) (E (pl_view view p))"
  unfolding base_withRetry_def
proof (rule multi_ok_retry [where v = "pl_view view p" and Q' = Q and E' = E])
  fix q :: "('s, 'z) pooled_scheme"
  assume q: "pl_ok ivr q"
  show "multi_ok (pl_view view) (pl_ok ivr) (pl_up up) can (doc_client drv m) q (Q (pl_view view q)) (E (pl_view view q))"
    by (rule multi_ok_client [OF assms(1)]) (use q assms(4) in blast)+
qed (use assms in blast)+

section \<open>Every atomic store is one\<close>

sublocale db_store \<subseteq> row_store A view ivr up lsid lkey
proof unfold_locales
  fix d sid now and es :: "(string \<times> jstr) list"
  assume "ivr d" "lsid sid" "\<forall>e \<in> set es. lkey (fst e)"
  from setMany_ok [OF this] show "multi_ok view ivr up (distinct (keys_of es)) (ad_setMany A sid es now) d
      (upserted sid es now (view d)) (partly_upserted sid es now (view d))"
    by (rule update_multi) (simp_all add: upserted_partly)
next
  fix d sid and ks :: "string list"
  assume "ivr d" "lsid sid" "\<forall>k \<in> set ks. lkey k"
  from deleteMany_ok [OF this] show "multi_ok view ivr up True (ad_deleteMany A sid ks) d
      (removed sid ks (view d)) (partly_removed sid (set ks) (view d))"
    by (rule update_multi) (simp_all add: removed_partly)
next
  fix d sid
  assume "ivr d" "lsid sid"
  from deleteSession_ok [OF this] show "multi_ok view ivr up True (ad_deleteSession A sid) d
      (wiped sid (view d)) (partly_removed sid UNIV (view d))"
    by (rule update_multi) (simp_all add: wiped_partly)
qed (rule get_ok getMany_ok set_ok delete_ok getAllKeys_ok listSessions_ok sessionExists_ok view_legal view_record; assumption)+

end
