(* ===== verification/MongoAdapter.thy ===== *)
theory MongoAdapter
  imports RowStore
begin

text \<open>
  \<^verbatim>\<open>src/adapters/mongodb-adapter.ts\<close>. One document per row. The commands the adapter sends (filters, update
  operations) are data, and what they mean on a collection is written out; the client that carries them is
  a parameter. The server executes the operations of a \<open>bulkWrite\<close> one after another and not as one
  transaction, so a batch that throws may have stored some of its entries: the adapter is a \<open>row_store\<close>.
\<close>

record mongo_doc =
  md_sessionId :: string
  md_key :: string
  md_value :: jstr
  md_updatedAt :: int
  md_version :: int

definition mg_toRecord :: "mongo_doc \<Rightarrow> session_record" where
  "mg_toRecord doc =
     \<lparr>sr_sessionId = md_sessionId doc, sr_key = md_key doc, sr_value = md_value doc,
      sr_updatedAt = md_updatedAt doc, sr_version = md_version doc\<rparr>"

text \<open>\<open>{ sessionId }\<close>, \<open>{ sessionId, key }\<close> and \<open>{ sessionId, key: { $in: keys } }\<close>.\<close>

datatype mongo_filter = BySession string | ByKey string string | ByKeys string "string list"

fun matches :: "mongo_filter \<Rightarrow> mongo_doc \<Rightarrow> bool" where
  "matches (BySession s) doc \<longleftrightarrow> md_sessionId doc = s"
| "matches (ByKey s k) doc \<longleftrightarrow> md_sessionId doc = s \<and> md_key doc = k"
| "matches (ByKeys s ks) doc \<longleftrightarrow> md_sessionId doc = s \<and> md_key doc \<in> set ks"

text \<open>\<open>updateOne\<close> with \<open>$set\<close>, \<open>$setOnInsert\<close>, \<open>$inc\<close> and \<open>upsert\<close>.\<close>

record update_one =
  uo_filter :: mongo_filter
  uo_set :: "jstr \<times> int"
  uo_setOnInsert :: "string \<times> string"
  uo_inc :: int
  uo_upsert :: bool

type_synonym collection = "mongo_doc list"

text \<open>The first document that matches is changed; without one, an upsert inserts a document, in which a
  field that is only incremented starts from 0.\<close>

fun apply_update :: "update_one \<Rightarrow> collection \<Rightarrow> collection" where
  "apply_update u [] =
     (if uo_upsert u
      then [\<lparr>md_sessionId = fst (uo_setOnInsert u), md_key = snd (uo_setOnInsert u), md_value = fst (uo_set u),
             md_updatedAt = snd (uo_set u), md_version = uo_inc u\<rparr>]
      else [])"
| "apply_update u (doc # docs) =
     (if matches (uo_filter u) doc
      then doc\<lparr>md_value := fst (uo_set u), md_updatedAt := snd (uo_set u), md_version := md_version doc + uo_inc u\<rparr> # docs
      else doc # apply_update u docs)"

record 's mongo =
  mg_createIndex :: "('s, unit) io"
  mg_findOne :: "mongo_filter \<Rightarrow> ('s, mongo_doc option) io"
  mg_find :: "mongo_filter \<Rightarrow> ('s, mongo_doc list) io"
  mg_bulkWrite :: "update_one list \<Rightarrow> ('s, unit) io"
  mg_deleteOne :: "mongo_filter \<Rightarrow> ('s, unit) io"
  mg_deleteWhere :: "mongo_filter \<Rightarrow> ('s, unit) io"
  mg_distinct_sessionId :: "('s, string list) io"

text \<open>The fields \<open>collection\<close> (the \<open>po_open\<close> of a pool) and \<open>client\<close> (whether there is one).\<close>

record 's mongo_conn = "'s pooled" +
  mo_client :: bool

definition mg_withRetry :: "retry_options option \<Rightarrow> ('s mongo_conn, 'a) io \<Rightarrow> string \<Rightarrow> ('s mongo_conn, 'a) io" where
  "mg_withRetry opts fn label = base_withRetry ''mongodb'' opts fn label"

definition mg_col :: "('s, 'a) io \<Rightarrow> ('s mongo_conn, 'a) io" where
  "mg_col m = doc_client ''MongoAdapter'' m"

text \<open>\<open>init\<close>: the driver is imported, a client made and connected, then the collection kept and its unique
  index created.\<close>

definition mg_init :: "retry_options option \<Rightarrow> ('s, unit) io \<Rightarrow> ('s, unit) io \<Rightarrow> 's mongo \<Rightarrow> ('s mongo_conn, unit) io" where
  "mg_init opts import_driver connect D =
     thenA (po_lift import_driver) (\<lambda>p.
       thenA (po_lift connect) (\<lambda>p1.
         thenA (mg_withRetry opts (po_lift (mg_createIndex D)) ''init'') (ret ()) (p1\<lparr>po_open := True\<rparr>)) (p\<lparr>mo_client := True\<rparr>))"

definition mg_get :: "retry_options option \<Rightarrow> 's mongo \<Rightarrow> string \<Rightarrow> string \<Rightarrow> ('s mongo_conn, session_record option) io" where
  "mg_get opts D sessionId key =
     bindA (mg_withRetry opts (mg_col (mg_findOne D (ByKey sessionId key))) ''get'')
       (\<lambda>doc. ret (map_option mg_toRecord doc))"

definition mg_getMany ::
  "retry_options option \<Rightarrow> 's mongo \<Rightarrow> string \<Rightarrow> string list \<Rightarrow> ('s mongo_conn, (string \<times> session_record) list) io" where
  "mg_getMany opts D sessionId keys =
     (if keys = [] then ret []
      else bindA (mg_withRetry opts (mg_col (mg_find D (ByKeys sessionId keys))) ''getMany'')
        (\<lambda>docs. ret (fold (\<lambda>doc. AList.update (md_key doc) (mg_toRecord doc)) docs [])))"

definition mg_op :: "string \<Rightarrow> int \<Rightarrow> string \<times> jstr \<Rightarrow> update_one" where
  "mg_op sessionId now entry =
     \<lparr>uo_filter = ByKey sessionId (fst entry), uo_set = (snd entry, now),
      uo_setOnInsert = (sessionId, fst entry), uo_inc = 1, uo_upsert = True\<rparr>"

definition mg_setMany ::
  "retry_options option \<Rightarrow> 's mongo \<Rightarrow> string \<Rightarrow> (string \<times> jstr) list \<Rightarrow> int \<Rightarrow> ('s mongo_conn, unit) io" where
  "mg_setMany opts D sessionId entries now =
     (if entries = [] then ret ()
      else mg_withRetry opts (mg_col (mg_bulkWrite D (map (mg_op sessionId now) entries))) ''setMany'')"

definition mg_set :: "retry_options option \<Rightarrow> 's mongo \<Rightarrow> string \<Rightarrow> string \<Rightarrow> jstr \<Rightarrow> int \<Rightarrow> ('s mongo_conn, unit) io" where
  "mg_set opts D sessionId key value now = mg_setMany opts D sessionId [(key, value)] now"

definition mg_delete :: "retry_options option \<Rightarrow> 's mongo \<Rightarrow> string \<Rightarrow> string \<Rightarrow> ('s mongo_conn, unit) io" where
  "mg_delete opts D sessionId key = mg_withRetry opts (mg_col (mg_deleteOne D (ByKey sessionId key))) ''delete''"

definition mg_deleteMany :: "retry_options option \<Rightarrow> 's mongo \<Rightarrow> string \<Rightarrow> string list \<Rightarrow> ('s mongo_conn, unit) io" where
  "mg_deleteMany opts D sessionId keys =
     (if keys = [] then ret ()
      else mg_withRetry opts (mg_col (mg_deleteWhere D (ByKeys sessionId keys))) ''deleteMany'')"

definition mg_getAllKeys :: "retry_options option \<Rightarrow> 's mongo \<Rightarrow> string \<Rightarrow> ('s mongo_conn, string list) io" where
  "mg_getAllKeys opts D sessionId =
     bindA (mg_withRetry opts (mg_col (mg_find D (BySession sessionId))) ''getAllKeys'') (\<lambda>docs. ret (map md_key docs))"

definition mg_deleteSession :: "retry_options option \<Rightarrow> 's mongo \<Rightarrow> string \<Rightarrow> ('s mongo_conn, unit) io" where
  "mg_deleteSession opts D sessionId =
     mg_withRetry opts (mg_col (mg_deleteWhere D (BySession sessionId))) ''deleteSession''"

definition mg_listSessions :: "retry_options option \<Rightarrow> 's mongo \<Rightarrow> ('s mongo_conn, string list) io" where
  "mg_listSessions opts D = mg_withRetry opts (mg_col (mg_distinct_sessionId D)) ''listSessions''"

definition mg_sessionExists :: "retry_options option \<Rightarrow> 's mongo \<Rightarrow> string \<Rightarrow> ('s mongo_conn, bool) io" where
  "mg_sessionExists opts D sessionId =
     bindA (mg_withRetry opts (mg_col (mg_findOne D (BySession sessionId))) ''sessionExists'') (\<lambda>doc. ret (doc \<noteq> None))"

definition mg_close :: "('s, unit) io \<Rightarrow> ('s mongo_conn, unit) io" where
  "mg_close client_close p =
     (if mo_client p
      then thenA (po_lift client_close) (\<lambda>p1. (Inr (), p1\<lparr>mo_client := False, po_open := False\<rparr>)) p
      else (Inr (), p\<lparr>mo_client := False, po_open := False\<rparr>))"

definition mg_adapter ::
  "retry_options option \<Rightarrow> ('s, unit) io \<Rightarrow> ('s, unit) io \<Rightarrow> ('s, unit) io \<Rightarrow> 's mongo \<Rightarrow> 's mongo_conn adapter" where
  "mg_adapter opts import_driver connect client_close D =
     \<lparr>ad_name = ''mongodb'', ad_init = mg_init opts import_driver connect D,
      ad_get = mg_get opts D, ad_getMany = mg_getMany opts D,
      ad_set = mg_set opts D, ad_setMany = mg_setMany opts D,
      ad_delete = mg_delete opts D, ad_deleteMany = mg_deleteMany opts D,
      ad_getAllKeys = mg_getAllKeys opts D, ad_deleteSession = mg_deleteSession opts D,
      ad_listSessions = mg_listSessions opts D, ad_sessionExists = mg_sessionExists opts D,
      ad_close = mg_close client_close\<rparr>"

section \<open>Collections and rows\<close>

definition same_row :: "string \<Rightarrow> string \<Rightarrow> mongo_doc \<Rightarrow> bool" where
  "same_row s k doc \<longleftrightarrow> md_sessionId doc = s \<and> md_key doc = k"

lemma same_row_eq: "same_row = (\<lambda>s k doc. md_sessionId doc = s \<and> md_key doc = k)"
  by (simp add: same_row_def fun_eq_iff)

definition rows_at :: "collection \<Rightarrow> db_view" where
  "rows_at c s k = map_option mg_toRecord (find (same_row s k) c)"

text \<open>The unique index.\<close>

definition coll_ok :: "collection \<Rightarrow> bool" where
  "coll_ok c \<longleftrightarrow> distinct (map (\<lambda>doc. (md_sessionId doc, md_key doc)) c)"

lemma find_unique:
  "coll_ok c \<Longrightarrow> find (same_row s k) c = Some doc \<longleftrightarrow> doc \<in> set c \<and> same_row s k doc"
  by (induction c) (auto simp: coll_ok_def same_row_def)

lemma rows_at_Some: "coll_ok c \<Longrightarrow> rows_at c s k = Some r \<longleftrightarrow> (\<exists>doc \<in> set c. same_row s k doc \<and> r = mg_toRecord doc)"
  by (auto simp: rows_at_def find_unique)

lemma rows_at_None: "rows_at c s k = None \<longleftrightarrow> (\<forall>doc \<in> set c. \<not> same_row s k doc)"
  by (auto simp: rows_at_def find_None_iff)

text \<open>What one operation of a batch does to the rows.\<close>

definition mg_new :: "string \<Rightarrow> int \<Rightarrow> session_record option \<Rightarrow> string \<Rightarrow> jstr \<Rightarrow> session_record" where
  "mg_new s now old k x = \<lparr>sr_sessionId = s, sr_key = k, sr_value = x, sr_updatedAt = now,
     sr_version = (case old of None \<Rightarrow> 0 | Some r \<Rightarrow> sr_version r) + 1\<rparr>"

definition put1 :: "string \<Rightarrow> int \<Rightarrow> string \<times> jstr \<Rightarrow> db_view \<Rightarrow> db_view" where
  "put1 s now e v = v(s := (v s)(fst e \<mapsto> mg_new s now (v s (fst e)) (fst e) (snd e)))"

lemma matches_ByKey: "matches (ByKey s k) doc \<longleftrightarrow> same_row s k doc"
  by (simp add: same_row_def)

lemma find_update:
  "find (same_row s' k') (apply_update (mg_op s now e) c) =
    (if s' = s \<and> k' = fst e
     then Some (case find (same_row s (fst e)) c of
         None \<Rightarrow> \<lparr>md_sessionId = s, md_key = fst e, md_value = snd e, md_updatedAt = now, md_version = 1\<rparr>
       | Some doc \<Rightarrow> doc\<lparr>md_value := snd e, md_updatedAt := now, md_version := md_version doc + 1\<rparr>)
     else find (same_row s' k') c)"
  by (induction c) (auto simp: mg_op_def same_row_eq)

lemma update_puts: "rows_at (apply_update (mg_op s now e) c) = put1 s now e (rows_at c)"
proof (intro ext)
  fix s' k'
  show "rows_at (apply_update (mg_op s now e) c) s' k' = put1 s now e (rows_at c) s' k'"
  proof (cases "find (same_row s (fst e)) c")
    case None
    then show ?thesis by (simp add: rows_at_def find_update put1_def mg_new_def mg_toRecord_def)
  next
    case (Some doc)
    then have "same_row s (fst e) doc" by (auto simp: find_Some_iff)
    with Some show ?thesis by (simp add: rows_at_def find_update put1_def mg_new_def mg_toRecord_def same_row_def)
  qed
qed

lemma keys_update: "set (map (\<lambda>doc. (md_sessionId doc, md_key doc)) (apply_update (mg_op s now e) c)) =
    insert (s, fst e) (set (map (\<lambda>doc. (md_sessionId doc, md_key doc)) c))"
  by (induction c) (auto simp: mg_op_def)

lemma coll_ok_update: "coll_ok c \<Longrightarrow> coll_ok (apply_update (mg_op s now e) c)"
proof (induction c)
  case (Cons doc c)
  then show ?case using keys_update [of s now e c] by (auto simp: coll_ok_def mg_op_def)
qed (simp add: coll_ok_def mg_op_def)

lemma rows_updates: "rows_at (fold apply_update (map (mg_op s now) es) c) = fold (put1 s now) es (rows_at c)"
  by (induction es arbitrary: c) (simp_all add: update_puts)

lemma coll_ok_updates: "coll_ok c \<Longrightarrow> coll_ok (fold apply_update (map (mg_op s now) es) c)"
  by (induction es arbitrary: c) (simp_all add: coll_ok_update)

lemma coll_ok_filter: "coll_ok c \<Longrightarrow> coll_ok (filter P c)"
  unfolding coll_ok_def by (rule distinct_map_filter)

lemma rows_filter:
  assumes "\<And>doc. same_row s k doc \<Longrightarrow> P doc"
  shows "rows_at (filter P c) s k = rows_at c s k"
  using assms by (induction c) (auto simp: rows_at_def)

lemma rows_filter_out:
  assumes "\<And>doc. same_row s k doc \<Longrightarrow> \<not> P doc"
  shows "rows_at (filter P c) s k = None"
  using assms by (auto simp: rows_at_None)

section \<open>What a batch does, whole or in part\<close>

lemma put1_self: "put1 s now (k, x) v s k = Some (mg_new s now (v s k) k x)"
  by (simp add: put1_def)

lemma put1_other: "s' \<noteq> s \<or> k' \<noteq> fst e \<Longrightarrow> put1 s now e v s' k' = v s' k'"
  by (auto simp: put1_def)

lemma store_all_snoc: "store_all (es @ [(k, x)]) m = (store_all es m)(k \<mapsto> x)"
  by (simp add: store_all_def)

lemma upserted_snoc:
  assumes "upserted s es now v w"
  shows "upserted s (es @ [(k, x)]) now v (put1 s now (k, x) w)"
  unfolding upserted_def
proof (intro allI)
  fix s' k'
  show "if s' = s \<and> k' \<in> fst ` set (es @ [(k, x)])
    then \<exists>r. put1 s now (k, x) w s' k' = Some r \<and> sr_sessionId r = s' \<and> sr_key r = k' \<and>
      Some (sr_value r) = store_all (es @ [(k, x)]) Map.empty k' \<and> sr_updatedAt r = now
    else put1 s now (k, x) w s' k' = v s' k'"
  proof (cases "s' = s \<and> k' = k")
    case True
    then show ?thesis by (simp add: put1_self store_all_snoc mg_new_def)
  next
    case False
    then have p: "put1 s now (k, x) w s' k' = w s' k'" by (intro put1_other) auto
    show ?thesis
    proof (cases "s' = s \<and> k' \<in> fst ` set es")
      case True
      with upserted_there [OF assms, of k'] p False show ?thesis by (simp add: store_all_snoc)
    next
      case out: False
      with upserted_other [OF assms, of s' k'] have "w s' k' = v s' k'" by blast
      with p False out show ?thesis by auto
    qed
  qed
qed

lemma bumped_snoc:
  assumes "upserted s es now v w" and "bumped s es v w"
  shows "bumped s (es @ [(k, x)]) v (put1 s now (k, x) w)"
  unfolding bumped_def
proof (intro ballI allI impI)
  fix k' r
  assume k': "k' \<in> fst ` set (es @ [(k, x)])" and r: "put1 s now (k, x) w s k' = Some r"
  show "case v s k' of None \<Rightarrow> 1 \<le> sr_version r | Some r0 \<Rightarrow> sr_version r0 < sr_version r"
  proof (cases "k' = k")
    case False
    with k' r have "k' \<in> fst ` set es" "w s k' = Some r" by (auto simp: put1_other)
    with assms(2) show ?thesis unfolding bumped_def by blast
  next
    case True
    with r have r: "r = mg_new s now (w s k) k x" by (simp add: put1_self)
    show ?thesis
    proof (cases "k \<in> fst ` set es")
      case False
      then have "w s k = v s k" using upserted_other [OF assms(1)] by blast
      with True r show ?thesis by (simp add: mg_new_def split: option.split)
    next
      case in_es: True
      then obtain r1 where r1: "w s k = Some r1" using upserted_there [OF assms(1)] by blast
      with assms(2) in_es have "case v s k of None \<Rightarrow> 1 \<le> sr_version r1 | Some r0 \<Rightarrow> sr_version r0 < sr_version r1"
        unfolding bumped_def by blast
      with True r r1 show ?thesis by (simp add: mg_new_def split: option.splits)
    qed
  qed
qed

lemma batch_stored: "stored s es now v (fold (put1 s now) es v)"
proof (induction es rule: rev_induct)
  case Nil
  show ?case by (simp add: stored_def bumped_def)
next
  case (snoc e es)
  obtain k x where "e = (k, x)" by fastforce
  with snoc show ?case by (simp add: stored_def upserted_snoc bumped_snoc)
qed

text \<open>Versions only go up, which a batch that failed half way keeps too.\<close>

definition grown :: "db_view \<Rightarrow> db_view \<Rightarrow> bool" where
  "grown v w \<longleftrightarrow> (\<forall>s k. case v s k of
     None \<Rightarrow> (\<forall>r'. w s k = Some r' \<longrightarrow> 1 \<le> sr_version r')
   | Some r \<Rightarrow> \<exists>r'. w s k = Some r' \<and> sr_version r \<le> sr_version r')"

lemma grown_refl: "grown v v"
  by (simp add: grown_def split: option.split)

lemma grown_trans:
  assumes "grown v u" and "grown u w"
  shows "grown v w"
  unfolding grown_def
proof (intro allI)
  fix s k
  from assms have "case v s k of None \<Rightarrow> (\<forall>r'. u s k = Some r' \<longrightarrow> 1 \<le> sr_version r')
      | Some r \<Rightarrow> \<exists>r'. u s k = Some r' \<and> sr_version r \<le> sr_version r'"
    "case u s k of None \<Rightarrow> (\<forall>r'. w s k = Some r' \<longrightarrow> 1 \<le> sr_version r')
      | Some r \<Rightarrow> \<exists>r'. w s k = Some r' \<and> sr_version r \<le> sr_version r'"
    unfolding grown_def by blast+
  then show "case v s k of None \<Rightarrow> (\<forall>r'. w s k = Some r' \<longrightarrow> 1 \<le> sr_version r')
      | Some r \<Rightarrow> \<exists>r'. w s k = Some r' \<and> sr_version r \<le> sr_version r'"
    by (auto split: option.splits)
qed

lemma grown_put1: "grown v (put1 s now e v)"
  by (auto simp: grown_def put1_def mg_new_def split: option.split)

definition half_done :: "string \<Rightarrow> (string \<times> jstr) list \<Rightarrow> int \<Rightarrow> db_view \<Rightarrow> db_view \<Rightarrow> bool" where
  "half_done s es now v w \<longleftrightarrow> partly_upserted s es now v w \<and> grown v w"

lemma half_done_refl: "half_done s es now v v"
  by (simp add: half_done_def grown_refl)

lemma half_done_trans: "half_done s es now v u \<Longrightarrow> half_done s es now u w \<Longrightarrow> half_done s es now v w"
  unfolding half_done_def using partly_upserted_trans grown_trans by blast

lemma half_done_put1: "e \<in> set es \<Longrightarrow> half_done s es now v (put1 s now e v)"
  unfolding half_done_def
  by (intro conjI grown_put1, cases e) (auto simp: partly_upserted_def put1_def mg_new_def)

lemma half_done_fold: "set ds \<subseteq> set es \<Longrightarrow> half_done s es now v (fold (put1 s now) ds v)"
proof (induction ds arbitrary: v)
  case (Cons d ds)
  then have "half_done s es now v (put1 s now d v)" by (intro half_done_put1) simp
  moreover have "half_done s es now (put1 s now d v) (fold (put1 s now) ds (put1 s now d v))"
    using Cons by simp
  ultimately show ?case by (auto intro: half_done_trans)
qed (simp add: half_done_refl)

lemma stored_after_half:
  assumes h: "half_done s es now v u" and st: "stored s es now u w"
  shows "stored s es now v w"
  unfolding stored_def
proof
  from st have u: "upserted s es now u w" and b: "bumped s es u w" by (simp_all add: stored_def)
  have same: "u s' k = v s' k" if "\<not> (s' = s \<and> k \<in> fst ` set es)" for s' k
  proof -
    from h [unfolded half_done_def partly_upserted_def, THEN conjunct1, rule_format, of s' k]
    have "u s' k = v s' k \<or> s' = s \<and> (\<exists>x. (k, x) \<in> set es)" by blast
    with that show ?thesis by (metis fst_conv image_eqI)
  qed
  show "upserted s es now v w"
    unfolding upserted_def
  proof (intro allI)
    fix s' k
    show "if s' = s \<and> k \<in> fst ` set es then \<exists>r. w s' k = Some r \<and> sr_sessionId r = s' \<and> sr_key r = k \<and>
        Some (sr_value r) = store_all es Map.empty k \<and> sr_updatedAt r = now else w s' k = v s' k"
      using upserted_there [OF u, of k] upserted_other [OF u, of s' k] same [of s' k] by auto
  qed
  show "bumped s es v w"
    unfolding bumped_def
  proof (intro ballI allI impI)
    fix k r
    assume k: "k \<in> fst ` set es" and r: "w s k = Some r"
    from b k r have n: "case u s k of None \<Rightarrow> 1 \<le> sr_version r | Some r0 \<Rightarrow> sr_version r0 < sr_version r"
      unfolding bumped_def by blast
    from h have "case v s k of None \<Rightarrow> (\<forall>r'. u s k = Some r' \<longrightarrow> 1 \<le> sr_version r')
        | Some r \<Rightarrow> \<exists>r'. u s k = Some r' \<and> sr_version r \<le> sr_version r'"
      unfolding half_done_def grown_def by blast
    with n show "case v s k of None \<Rightarrow> 1 \<le> sr_version r | Some r0 \<Rightarrow> sr_version r0 < sr_version r"
      by (auto split: option.splits)
  qed
qed

section \<open>What is assumed of the server\<close>

definition mg_view :: "('s \<Rightarrow> collection) \<Rightarrow> 's \<Rightarrow> db_view" where
  "mg_view coll d = rows_at (coll d)"

definition mg_ok :: "('s \<Rightarrow> collection) \<Rightarrow> 's \<Rightarrow> bool" where
  "mg_ok coll d \<longleftrightarrow> coll_ok (coll d)"

text \<open>The documented behaviour of the server and its driver: reads return the documents that match, a command
  that returns has been executed, one that throws has been executed in part, operation by operation
  (\<open>bulkWrite\<close>) or document by document (\<open>deleteMany\<close>).\<close>

locale mongo_server =
  fixes D :: "'s mongo"
    and coll :: "'s \<Rightarrow> collection"
    and mup :: "'s \<Rightarrow> bool"
  assumes findOne: "mg_findOne D f d = (g, d') \<Longrightarrow> coll d' = coll d \<and> (\<forall>x. g = Inr x \<longrightarrow>
      (case x of None \<Rightarrow> \<forall>doc \<in> set (coll d). \<not> matches f doc | Some doc \<Rightarrow> doc \<in> set (coll d) \<and> matches f doc))"
    and find_all: "mg_find D f d = (q, d') \<Longrightarrow> coll d' = coll d \<and> (\<forall>docs. q = Inr docs \<longrightarrow>
      mset docs = mset (filter (matches f) (coll d)))"
    and distinct_ids: "mg_distinct_sessionId D d = (l, d') \<Longrightarrow> coll d' = coll d \<and> (\<forall>ids. l = Inr ids \<longrightarrow>
      distinct ids \<and> set ids = md_sessionId ` set (coll d))"
    and bulkWrite: "mg_bulkWrite D ops d = (r, d') \<Longrightarrow> (case r of
        Inr _ \<Rightarrow> coll d' = fold apply_update ops (coll d)
      | Inl _ \<Rightarrow> \<exists>n. coll d' = fold apply_update (take n ops) (coll d))"
    and deleteOne: "mg_deleteOne D (ByKey s k) d = (r, d') \<Longrightarrow> coll_ok (coll d) \<Longrightarrow>
      coll d' = filter (\<lambda>doc. \<not> matches (ByKey s k) doc) (coll d) \<or> (\<exists>e. r = Inl e) \<and> coll d' = coll d"
    and deleteWhere: "mg_deleteWhere D f d = (r, d') \<Longrightarrow> (case r of
        Inr _ \<Rightarrow> coll d' = filter (\<lambda>doc. \<not> matches f doc) (coll d)
      | Inl _ \<Rightarrow> \<exists>P. coll d' = filter (\<lambda>doc. \<not> (matches f doc \<and> P doc)) (coll d))"
    and findOne_up: "mup d \<Longrightarrow> \<exists>x d'. mg_findOne D f d = (Inr x, d') \<and> mup d'"
    and find_up: "mup d \<Longrightarrow> \<exists>docs d'. mg_find D f d = (Inr docs, d') \<and> mup d'"
    and distinct_up: "mup d \<Longrightarrow> \<exists>ids d'. mg_distinct_sessionId D d = (Inr ids, d') \<and> mup d'"
    and bulkWrite_up: "mup d \<Longrightarrow> \<exists>d'. mg_bulkWrite D ops d = (Inr (), d') \<and> mup d'"
    and deleteOne_up: "mup d \<Longrightarrow> \<exists>d'. mg_deleteOne D f d = (Inr (), d') \<and> mup d'"
    and deleteWhere_up: "mup d \<Longrightarrow> \<exists>d'. mg_deleteWhere D f d = (Inr (), d') \<and> mup d'"
begin

abbreviation "view \<equiv> mg_view coll"
abbreviation "ok \<equiv> mg_ok coll"

lemma same_coll: "coll d' = coll d \<Longrightarrow> view d' = view d \<and> ok d' = ok d"
  by (simp add: mg_view_def mg_ok_def)

lemma read_query:
  assumes "ok d" and "\<And>r d'. m d = (r, d') \<Longrightarrow> coll d' = coll d \<and> (\<forall>x. r = Inr x \<longrightarrow> P x)"
    and "mup d \<Longrightarrow> \<exists>x d'. m d = (Inr x, d') \<and> mup d'"
  shows "query_ok view ok mup m d P"
  using assms same_coll by (intro query_okI) blast+

lemma row_query:
  assumes "ok d"
  shows "query_ok view ok mup (mg_findOne D (ByKey s k)) d (\<lambda>x. map_option mg_toRecord x = view d s k)"
proof (rule read_query [OF assms _ findOne_up])
  fix r d'
  assume run: "mg_findOne D (ByKey s k) d = (r, d')"
  have "map_option mg_toRecord x = view d s k" if "r = Inr x" for x
  proof -
    have c: "case x of None \<Rightarrow> \<forall>doc \<in> set (coll d). \<not> same_row s k doc | Some doc \<Rightarrow> doc \<in> set (coll d) \<and> same_row s k doc"
      using findOne [OF run] that unfolding matches_ByKey by blast
    show ?thesis
    proof (cases x)
      case None
      with c have "rows_at (coll d) s k = None" by (simp add: rows_at_None)
      with None show ?thesis by (simp add: mg_view_def)
    next
      case (Some doc)
      with c have "rows_at (coll d) s k = Some (mg_toRecord doc)"
        using assms by (auto simp: rows_at_Some mg_ok_def)
      with Some show ?thesis by (simp add: mg_view_def)
    qed
  qed
  with findOne [OF run] show "coll d' = coll d \<and> (\<forall>x. r = Inr x \<longrightarrow> map_option mg_toRecord x = view d s k)" by blast
qed

lemma docs_query:
  assumes "ok d"
  shows "query_ok view ok mup (mg_find D f) d (\<lambda>docs. coll_ok docs \<and>
    (\<forall>doc. doc \<in> set docs \<longleftrightarrow> matches f doc \<and> view d (md_sessionId doc) (md_key doc) = Some (mg_toRecord doc)))"
proof (rule read_query [OF assms _ find_up])
  fix r d'
  assume run: "mg_find D f d = (r, d')"
  have "coll_ok docs \<and> (\<forall>doc. doc \<in> set docs \<longleftrightarrow> matches f doc \<and>
      view d (md_sessionId doc) (md_key doc) = Some (mg_toRecord doc))" if "r = Inr docs" for docs
  proof -
    from find_all [OF run] that have m: "mset docs = mset (filter (matches f) (coll d))" by blast
    let ?key = "\<lambda>doc. (md_sessionId doc, md_key doc)"
    from m have "mset (map ?key docs) = mset (map ?key (filter (matches f) (coll d)))" by simp
    then have "coll_ok docs \<longleftrightarrow> coll_ok (filter (matches f) (coll d))"
      unfolding coll_ok_def by (rule mset_eq_imp_distinct_iff)
    then have "coll_ok docs" using coll_ok_filter assms by (simp add: mg_ok_def)
    moreover have "set docs = {doc \<in> set (coll d). matches f doc}" using m by (metis set_filter set_mset_mset)
    moreover have "doc \<in> set (coll d) \<longleftrightarrow> view d (md_sessionId doc) (md_key doc) = Some (mg_toRecord doc)" for doc
    proof
      assume "doc \<in> set (coll d)"
      then show "view d (md_sessionId doc) (md_key doc) = Some (mg_toRecord doc)"
        using assms by (auto simp: mg_view_def mg_ok_def rows_at_Some same_row_def)
    next
      assume "view d (md_sessionId doc) (md_key doc) = Some (mg_toRecord doc)"
      then obtain x where "x \<in> set (coll d)" "mg_toRecord doc = mg_toRecord x"
        using assms by (auto simp: mg_view_def mg_ok_def rows_at_Some)
      moreover from this(2) have "doc = x" by (simp add: mg_toRecord_def)
      ultimately show "doc \<in> set (coll d)" by simp
    qed
    ultimately show ?thesis by blast
  qed
  with find_all [OF run] show "coll d' = coll d \<and> (\<forall>docs. r = Inr docs \<longrightarrow> coll_ok docs \<and>
    (\<forall>doc. doc \<in> set docs \<longleftrightarrow> matches f doc \<and> view d (md_sessionId doc) (md_key doc) = Some (mg_toRecord doc)))" by blast
qed

lemma session_there: "ok d \<Longrightarrow> (\<exists>k. view d s k \<noteq> None) \<longleftrightarrow> (\<exists>doc \<in> set (coll d). md_sessionId doc = s)"
  by (auto simp: mg_view_def rows_at_None same_row_def)

lemma exists_query:
  assumes "ok d"
  shows "query_ok view ok mup (mg_findOne D (BySession s)) d (\<lambda>x. x \<noteq> None \<longleftrightarrow> (\<exists>k. view d s k \<noteq> None))"
proof (rule read_query [OF assms _ findOne_up])
  fix r d'
  assume run: "mg_findOne D (BySession s) d = (r, d')"
  have "x \<noteq> None \<longleftrightarrow> (\<exists>k. view d s k \<noteq> None)" if "r = Inr x" for x
    using findOne [OF run] that unfolding session_there [OF assms] by (cases x) auto
  with findOne [OF run] show "coll d' = coll d \<and> (\<forall>x. r = Inr x \<longrightarrow> (x \<noteq> None \<longleftrightarrow> (\<exists>k. view d s k \<noteq> None)))" by blast
qed

lemma ids_query:
  assumes "ok d"
  shows "query_ok view ok mup (mg_distinct_sessionId D) d (\<lambda>ids. distinct ids \<and> set ids = {s. \<exists>k. view d s k \<noteq> None})"
proof (rule read_query [OF assms _ distinct_up])
  fix r d'
  assume run: "mg_distinct_sessionId D d = (r, d')"
  have "md_sessionId ` set (coll d) = {s. \<exists>k. view d s k \<noteq> None}"
    using session_there [OF assms] by auto
  with distinct_ids [OF run] show "coll d' = coll d \<and> (\<forall>ids. r = Inr ids \<longrightarrow>
      distinct ids \<and> set ids = {s. \<exists>k. view d s k \<noteq> None})" by metis
qed

lemma batch_multi:
  assumes "ok d"
  shows "multi_ok view ok mup True (mg_bulkWrite D (map (mg_op s now) es)) d (stored s es now (view d)) (half_done s es now (view d))"
  unfolding multi_ok_def
proof (intro conjI allI impI)
  fix r d'
  assume run: "mg_bulkWrite D (map (mg_op s now) es) d = (r, d')"
  note law = bulkWrite [OF run]
  obtain ds where ds: "set ds \<subseteq> set es" "coll d' = fold apply_update (map (mg_op s now) ds) (coll d)"
    "(\<exists>x. r = Inr x) \<Longrightarrow> ds = es"
  proof (cases r)
    case (Inr x)
    with law that [of es] show thesis by simp
  next
    case (Inl e)
    with law obtain n where "coll d' = fold apply_update (take n (map (mg_op s now) es)) (coll d)" by auto
    with Inl that [of "take n es"] show thesis by (simp add: take_map set_take_subset)
  qed
  show "ok d'" using assms by (simp add: mg_ok_def ds(2) coll_ok_updates)
  have v: "view d' = fold (put1 s now) ds (view d)" by (simp add: mg_view_def ds(2) rows_updates)
  show "case r of Inl _ \<Rightarrow> half_done s es now (view d) (view d') | Inr _ \<Rightarrow> stored s es now (view d) (view d')"
  proof (cases r)
    case Inl
    then show ?thesis by (simp add: v half_done_fold [OF ds(1)])
  next
    case Inr
    with ds(3) show ?thesis by (simp add: v batch_stored)
  qed
qed (use bulkWrite_up in blast)

lemma delete_one:
  assumes "ok d"
  shows "update_ok view ok mup True (mg_deleteOne D (ByKey s k)) d (\<lambda>w. w = drop_rows s {k} (view d))"
  unfolding update_ok_def
proof (intro conjI allI impI)
  fix r d'
  assume run: "mg_deleteOne D (ByKey s k) d = (r, d')"
  have rows: "rows_at (filter (\<lambda>doc. \<not> matches (ByKey s k) doc) (coll d)) = drop_rows s {k} (view d)"
  proof (intro ext)
    fix s' k'
    show "rows_at (filter (\<lambda>doc. \<not> matches (ByKey s k) doc) (coll d)) s' k' = drop_rows s {k} (view d) s' k'"
      unfolding matches_ByKey drop_rows_def mg_view_def
      by (cases "s' = s \<and> k' = k") (auto simp: same_row_def intro!: rows_filter rows_filter_out)
  qed
  have "ok d' \<and> (case r of Inl _ \<Rightarrow> view d' = view d \<or> view d' = drop_rows s {k} (view d) | Inr _ \<Rightarrow> view d' = drop_rows s {k} (view d))"
    using deleteOne [OF run assms [unfolded mg_ok_def]]
  proof (elim disjE)
    assume c: "coll d' = filter (\<lambda>doc. \<not> matches (ByKey s k) doc) (coll d)"
    have "ok d'" unfolding mg_ok_def c by (rule coll_ok_filter [OF assms [unfolded mg_ok_def]])
    moreover have "view d' = drop_rows s {k} (view d)" using rows by (simp add: mg_view_def c)
    ultimately show ?thesis by (cases r) simp_all
  next
    assume "(\<exists>e. r = Inl e) \<and> coll d' = coll d"
    with same_coll [of d' d] assms show ?thesis by auto
  qed
  then show "ok d'" and "case r of Inl _ \<Rightarrow> view d' = view d \<or> view d' = drop_rows s {k} (view d) | Inr _ \<Rightarrow> view d' = drop_rows s {k} (view d)"
    by simp_all
qed (use deleteOne_up in blast)

lemma delete_where:
  assumes "ok d" and f: "\<And>doc. matches f doc \<longleftrightarrow> md_sessionId doc = s \<and> md_key doc \<in> K"
  shows "multi_ok view ok mup True (mg_deleteWhere D f) d (\<lambda>w. w = drop_rows s K (view d)) (partly_removed s K (view d))"
  unfolding multi_ok_def
proof (intro conjI allI impI)
  fix r d'
  assume run: "mg_deleteWhere D f d = (r, d')"
  obtain P where P: "coll d' = filter (\<lambda>doc. \<not> (matches f doc \<and> P doc)) (coll d)" "(\<exists>x. r = Inr x) \<Longrightarrow> P = (\<lambda>_. True)"
  proof (cases r)
    case (Inr x)
    with deleteWhere [OF run] that [of "\<lambda>_. True"] show thesis by simp
  next
    case (Inl e)
    with deleteWhere [OF run] that show thesis by auto
  qed
  show "ok d'" unfolding mg_ok_def P(1) by (rule coll_ok_filter [OF assms(1) [unfolded mg_ok_def]])
  have other: "view d' s' k' = view d s' k'" if "\<not> (s' = s \<and> k' \<in> K)" for s' k'
    using that unfolding mg_view_def P(1) by (intro rows_filter) (auto simp: f same_row_def)
  have some: "view d' s' k' = view d s' k' \<or> view d' s' k' = None" for s' k'
  proof (cases "view d' s' k'")
    case (Some r)
    then obtain doc where "doc \<in> set (coll d')" "same_row s' k' doc" "r = mg_toRecord doc"
      using \<open>ok d'\<close> by (auto simp: mg_view_def mg_ok_def rows_at_Some)
    then have "rows_at (coll d) s' k' = Some r" using assms(1) by (auto simp: rows_at_Some mg_ok_def P(1))
    with Some show ?thesis by (simp add: mg_view_def)
  qed simp
  show "case r of Inl _ \<Rightarrow> partly_removed s K (view d) (view d') | Inr _ \<Rightarrow> view d' = drop_rows s K (view d)"
  proof (cases r)
    case Inl
    then show ?thesis using other some by (simp add: partly_removed_def) metis
  next
    case Inr
    then have T: "P = (\<lambda>_. True)" using P(2) by blast
    have "view d' s' k' = drop_rows s K (view d) s' k'" for s' k'
    proof (cases "s' = s \<and> k' \<in> K")
      case True
      then have "view d' s' k' = None" unfolding mg_view_def P(1) T by (intro rows_filter_out) (auto simp: f same_row_def)
      with True show ?thesis by (simp add: drop_rows_def)
    next
      case False
      with other [OF False] show ?thesis by (auto simp: drop_rows_def)
    qed
    with Inr show ?thesis by (simp add: fun_eq_iff)
  qed
qed (use deleteWhere_up in blast)

end

section \<open>The adapter is a store of rows\<close>

locale mongo_adapter = mongo_server D coll mup
  for D :: "'s mongo" and coll :: "'s \<Rightarrow> collection" and mup :: "'s \<Rightarrow> bool" +
  fixes opts :: "retry_options option"
    and import_driver :: "('s, unit) io"
    and connect :: "('s, unit) io"
    and client_close :: "('s, unit) io"
  assumes retries: "may_retry opts"
begin

abbreviation "A \<equiv> mg_adapter opts import_driver connect client_close D"
abbreviation aview :: "'s mongo_conn \<Rightarrow> db_view" where "aview \<equiv> pl_view view"
abbreviation aok :: "'s mongo_conn \<Rightarrow> bool" where "aok \<equiv> pl_ok ok"
abbreviation aup :: "'s mongo_conn \<Rightarrow> bool" where "aup \<equiv> pl_up mup"

lemma mg_get_ok:
  assumes "aok p"
  shows "query_ok aview aok aup (mg_get opts D s k) p (\<lambda>r. r = aview p s k)"
  unfolding mg_get_def mg_withRetry_def mg_col_def
  by (rule query_ok_map [OF doc_query [where P = "\<lambda>v x. map_option mg_toRecord x = v s k", OF row_query assms retries]])

lemma record_fold:
  assumes "coll_ok docs" and "\<forall>doc \<in> set docs. md_sessionId doc = s"
  shows "map_of (fold (\<lambda>doc. AList.update (md_key doc) (mg_toRecord doc)) docs m) k =
    (case find (same_row s k) docs of Some doc \<Rightarrow> Some (mg_toRecord doc) | None \<Rightarrow> map_of m k)"
  using assms
proof (induction docs arbitrary: m)
  case (Cons doc docs)
  have ok: "coll_ok docs" and s: "md_sessionId doc = s" and docs: "\<forall>doc \<in> set docs. md_sessionId doc = s"
    using Cons.prems by (auto simp: coll_ok_def)
  note step = fold_simps Cons.IH [OF ok docs]
  show ?case
  proof (cases "md_key doc = k")
    case True
    have "(s, k) \<notin> (\<lambda>doc. (md_sessionId doc, md_key doc)) ` set docs"
      using Cons.prems(1) s True by (auto simp: coll_ok_def)
    then have "find (same_row s k) docs = None" by (force simp: find_None_iff same_row_def)
    with True s show ?thesis unfolding step by (simp add: same_row_def map_of_update)
  next
    case False
    then have "\<not> same_row s k doc" by (simp add: same_row_def)
    with False show ?thesis unfolding step by (simp add: map_of_update split: option.split)
  qed
qed simp

lemma record_fold_distinct:
  "distinct (keys_of m) \<Longrightarrow> distinct (keys_of (fold (\<lambda>doc. AList.update (md_key doc) (mg_toRecord doc)) docs m))"
  by (induction docs arbitrary: m) (simp_all add: jmap_simps)

abbreviation "found f v docs \<equiv> coll_ok docs \<and>
    (\<forall>doc. doc \<in> set docs \<longleftrightarrow> matches f doc \<and> v (md_sessionId doc) (md_key doc) = Some (mg_toRecord doc))"

lemma found_docs:
  assumes "aok p"
  shows "query_ok aview aok aup (mg_withRetry opts (mg_col (mg_find D f)) label) p (found f (aview p))"
  unfolding mg_withRetry_def mg_col_def by (rule doc_query [where P = "found f", OF docs_query assms retries])

text \<open>A row that is there is the record of a document.\<close>

lemma row_doc:
  assumes "aok p" and "aview p s k = Some r"
  shows "\<exists>doc. md_sessionId doc = s \<and> md_key doc = k \<and> r = mg_toRecord doc"
  using assms by (auto simp: mg_view_def mg_ok_def rows_at_Some same_row_def)

lemma mg_getMany_ok:
  assumes "aok p"
  shows "query_ok aview aok aup (mg_getMany opts D s ks) p
    (\<lambda>m. distinct (keys_of m) \<and> map_of m = (\<lambda>k. if k \<in> set ks then aview p s k else None))"
proof (cases "ks = []")
  case True
  then show ?thesis unfolding mg_getMany_def if_P [OF True] by (intro query_ok_return assms) simp
next
  case False
  show ?thesis unfolding mg_getMany_def if_not_P [OF False]
  proof (rule query_ok_map [OF found_docs [OF assms]])
    fix docs
    assume f: "found (ByKeys s ks) (aview p) docs"
    then have s: "\<forall>doc \<in> set docs. md_sessionId doc = s" by simp
    let ?m = "fold (\<lambda>doc. AList.update (md_key doc) (mg_toRecord doc)) docs []"
    have "map_of ?m k = (if k \<in> set ks then aview p s k else None)" for k
    proof (cases "find (same_row s k) docs")
      case None
      then have "aview p s k = None \<or> k \<notin> set ks"
        using f row_doc [OF assms, of s k] by (fastforce simp: find_None_iff same_row_def)
      with None show ?thesis using record_fold [OF _ s, of "[]" k] f by auto
    next
      case (Some doc)
      then have "doc \<in> set docs" "same_row s k doc" by (auto simp: find_Some_iff)
      with f have "k \<in> set ks" "aview p s k = Some (mg_toRecord doc)" by (auto simp: same_row_def)
      with Some show ?thesis using record_fold [OF _ s, of "[]" k] f by simp
    qed
    then show "distinct (keys_of ?m) \<and> map_of ?m = (\<lambda>k. if k \<in> set ks then aview p s k else None)"
      using record_fold_distinct [of "[]" docs] by (simp add: fun_eq_iff)
  qed
qed

lemma mg_batch_ok:
  assumes "aok p"
  shows "multi_ok aview aok aup True (mg_setMany opts D s es now) p (stored s es now (aview p)) (half_done s es now (aview p))"
proof (cases "es = []")
  case True
  show ?thesis unfolding mg_setMany_def if_P [OF True]
    by (rule multi_ok_return) (simp_all add: assms True stored_def bumped_def)
next
  case False
  show ?thesis unfolding mg_setMany_def if_not_P [OF False] mg_withRetry_def mg_col_def
    by (rule doc_multi [where Q = "stored s es now" and E = "half_done s es now", OF batch_multi assms retries])
      (auto intro: half_done_refl half_done_trans stored_after_half)
qed

text \<open>One row is written whole or not at all.\<close>

lemma partly_one: "partly_upserted s [(k, x)] now v w \<Longrightarrow> w = v \<or> upserted s [(k, x)] now v w"
proof -
  assume p: "partly_upserted s [(k, x)] now v w"
  note row = p [unfolded partly_upserted_def, rule_format]
  have other: "w s' k' = v s' k'" if "s' \<noteq> s \<or> k' \<noteq> k" for s' k' using row [of s' k'] that by auto
  show ?thesis
  proof (cases "w s k = v s k")
    case True
    with other have "w s' k' = v s' k'" for s' k' by (cases "s' = s \<and> k' = k") auto
    then show ?thesis by (auto simp: fun_eq_iff)
  next
    case False
    with row [of s k] have "\<exists>r. w s k = Some r \<and> sr_sessionId r = s \<and> sr_key r = k \<and> sr_value r = x \<and> sr_updatedAt r = now"
      by auto
    with other show ?thesis by (auto simp: upserted_def)
  qed
qed

lemma mg_set_ok:
  assumes "aok p"
  shows "update_ok aview aok aup True (mg_set opts D s k x now) p (upserted s [(k, x)] now (aview p))"
proof -
  note m = mg_batch_ok [OF assms, of s "[(k, x)]" now]
  show ?thesis unfolding update_ok_def mg_set_def
  proof (intro conjI allI impI)
    fix r p'
    assume run: "mg_setMany opts D s [(k, x)] now p = (r, p')"
    show "aok p'" by (rule multi_okD(1) [OF m run])
    show "case r of Inl _ \<Rightarrow> aview p' = aview p \<or> upserted s [(k, x)] now (aview p) (aview p')
        | Inr _ \<Rightarrow> upserted s [(k, x)] now (aview p) (aview p')"
      using multi_okD(2,3) [OF m run] partly_one by (auto simp: half_done_def stored_def split: sum.splits)
  qed (use multi_ok_up [OF m] in blast)
qed

lemma mg_delete_ok:
  assumes "aok p"
  shows "update_ok aview aok aup True (mg_delete opts D s k) p (removed s [k] (aview p))"
  using doc_update [where F = "drop_rows s {k}", OF delete_one assms retries drop_rows_idem]
  by (simp add: mg_delete_def mg_withRetry_def mg_col_def removed_eq)

lemma drop_after_part:
  "partly_removed s K v u \<Longrightarrow> drop_rows s K u = drop_rows s K v"
  unfolding partly_removed_def drop_rows_def by (intro ext) metis

lemma where_multi:
  assumes "aok p" and "\<And>doc. matches f doc \<longleftrightarrow> md_sessionId doc = s \<and> md_key doc \<in> K"
  shows "multi_ok aview aok aup True (mg_withRetry opts (mg_col (mg_deleteWhere D f)) label) p
    (\<lambda>w. w = drop_rows s K (aview p)) (partly_removed s K (aview p))"
  unfolding mg_withRetry_def mg_col_def
  by (rule doc_multi [where Q = "\<lambda>v w. w = drop_rows s K v" and E = "partly_removed s K",
        OF delete_where [OF _ assms(2)] assms(1) retries])
    (auto intro: partly_removed_trans simp: drop_after_part)

lemma mg_deleteMany_ok:
  assumes "aok p"
  shows "multi_ok aview aok aup True (mg_deleteMany opts D s ks) p (removed s ks (aview p)) (partly_removed s (set ks) (aview p))"
proof (cases "ks = []")
  case True
  show ?thesis unfolding mg_deleteMany_def if_P [OF True] by (rule multi_ok_return) (simp_all add: assms True)
next
  case False
  show ?thesis unfolding mg_deleteMany_def if_not_P [OF False] removed_eq by (rule where_multi [OF assms]) simp
qed

lemma mg_deleteSession_ok:
  assumes "aok p"
  shows "multi_ok aview aok aup True (mg_deleteSession opts D s) p (wiped s (aview p)) (partly_removed s UNIV (aview p))"
  unfolding mg_deleteSession_def wiped_eq by (rule where_multi [OF assms]) simp

lemma mg_getAllKeys_ok:
  assumes "aok p"
  shows "query_ok aview aok aup (mg_getAllKeys opts D s) p (\<lambda>ks. distinct ks \<and> set ks = {k. aview p s k \<noteq> None})"
  unfolding mg_getAllKeys_def
proof (rule query_ok_map [OF found_docs [OF assms]])
  fix docs
  assume f: "found (BySession s) (aview p) docs"
  then have s: "\<forall>doc \<in> set docs. md_sessionId doc = s" by simp
  have mem: "doc \<in> set docs \<longleftrightarrow> md_sessionId doc = s \<and> aview p s (md_key doc) = Some (mg_toRecord doc)" for doc
    using f by (metis matches.simps(1))
  have "inj_on md_key (set docs)"
  proof (rule inj_onI)
    fix a b
    assume "a \<in> set docs" "b \<in> set docs" "md_key a = md_key b"
    then have "mg_toRecord a = mg_toRecord b" by (simp add: mem)
    then show "a = b" by (simp add: mg_toRecord_def)
  qed
  moreover from f have "distinct docs" unfolding coll_ok_def distinct_map by (elim conjE)
  ultimately have "distinct (map md_key docs)" by (simp add: distinct_map)
  moreover have "k \<in> md_key ` set docs \<longleftrightarrow> aview p s k \<noteq> None" for k
  proof
    assume "aview p s k \<noteq> None"
    then obtain r where "aview p s k = Some r" by blast
    with row_doc [OF assms this] show "k \<in> md_key ` set docs" using mem by blast
  qed (use mem in auto)
  then have "md_key ` set docs = {k. aview p s k \<noteq> None}" by blast
  ultimately show "distinct (map md_key docs) \<and> set (map md_key docs) = {k. aview p s k \<noteq> None}" by simp
qed

lemma mg_listSessions_ok:
  assumes "aok p"
  shows "query_ok aview aok aup (mg_listSessions opts D) p (\<lambda>sids. distinct sids \<and> set sids = {s. \<exists>k. aview p s k \<noteq> None})"
  unfolding mg_listSessions_def mg_withRetry_def mg_col_def
  by (rule doc_query [where P = "\<lambda>v ids. distinct ids \<and> set ids = {s. \<exists>k. v s k \<noteq> None}", OF ids_query assms retries])

lemma mg_sessionExists_ok:
  assumes "aok p"
  shows "query_ok aview aok aup (mg_sessionExists opts D s) p (\<lambda>b. b \<longleftrightarrow> (\<exists>k. aview p s k \<noteq> None))"
  unfolding mg_sessionExists_def mg_withRetry_def mg_col_def
  by (rule query_ok_map [OF doc_query [where P = "\<lambda>v x. x \<noteq> None \<longleftrightarrow> (\<exists>k. v s k \<noteq> None)", OF exists_query assms retries]])

end

context mongo_adapter
begin

lemma is_store: "row_store A aview aok aup (\<lambda>_. True) (\<lambda>_. True)"
proof
  fix p s k x now
  assume a: "aok p"
  show "query_ok aview aok aup (ad_get A s k) p (\<lambda>r. r = aview p s k)"
    unfolding mg_adapter_def adapter.simps using a by (rule mg_get_ok)
  show "update_ok aview aok aup True (ad_set A s k x now) p (upserted s [(k, x)] now (aview p))"
    unfolding mg_adapter_def adapter.simps using a by (rule mg_set_ok)
  show "update_ok aview aok aup True (ad_delete A s k) p (removed s [k] (aview p))"
    unfolding mg_adapter_def adapter.simps using a by (rule mg_delete_ok)
  show "query_ok aview aok aup (ad_getAllKeys A s) p (\<lambda>ks. distinct ks \<and> set ks = {k. aview p s k \<noteq> None})"
    unfolding mg_adapter_def adapter.simps using a by (rule mg_getAllKeys_ok)
  show "query_ok aview aok aup (ad_sessionExists A s) p (\<lambda>b. b \<longleftrightarrow> (\<exists>k. aview p s k \<noteq> None))"
    unfolding mg_adapter_def adapter.simps using a by (rule mg_sessionExists_ok)
  show "multi_ok aview aok aup True (ad_deleteSession A s) p (wiped s (aview p)) (partly_removed s UNIV (aview p))"
    unfolding mg_adapter_def adapter.simps using a by (rule mg_deleteSession_ok)
  show "query_ok aview aok aup (ad_listSessions A) p (\<lambda>sids. distinct sids \<and> set sids = {s. \<exists>k. aview p s k \<noteq> None})"
    unfolding mg_adapter_def adapter.simps using a by (rule mg_listSessions_ok)
next
  fix p s now and es :: "(string \<times> jstr) list" and ks :: "string list"
  assume a: "aok p"
  show "multi_ok aview aok aup (distinct (keys_of es)) (ad_setMany A s es now) p
      (upserted s es now (aview p)) (partly_upserted s es now (aview p))"
    unfolding mg_adapter_def adapter.simps
    by (rule multi_ok_weaken [OF mg_batch_ok [OF a]]) (simp_all add: stored_def half_done_def)
  show "query_ok aview aok aup (ad_getMany A s ks) p
    (\<lambda>m. distinct (keys_of m) \<and> map_of m = (\<lambda>k. if k \<in> set ks then aview p s k else None))"
    unfolding mg_adapter_def adapter.simps using a by (rule mg_getMany_ok)
  show "multi_ok aview aok aup True (ad_deleteMany A s ks) p (removed s ks (aview p)) (partly_removed s (set ks) (aview p))"
    unfolding mg_adapter_def adapter.simps using a by (rule mg_deleteMany_ok)
next
  fix p s k r
  assume "aok p" and "aview p s k = Some r"
  from row_doc [OF this] show "sr_sessionId r = s \<and> sr_key r = k" by (auto simp: mg_toRecord_def)
qed simp

lemma versions_grow: "aok p \<Longrightarrow> ad_setMany A s es now p = (Inr (), p') \<Longrightarrow> bumped s es (aview p) (aview p')"
  using multi_okD(2) [OF mg_batch_ok, of p s es now "Inr ()" p' "()"] by (simp add: mg_adapter_def stored_def)

end

sublocale mongo_adapter \<subseteq> row_store "mg_adapter opts import_driver connect client_close D" "pl_view (mg_view coll)"
    "pl_ok (mg_ok coll)" "pl_up mup" "\<lambda>_. True" "\<lambda>_. True"
  by (rule is_store)

section \<open>A collection in memory\<close>

text \<open>A batch whose connection breaks stops after its first operation.\<close>

definition mem_bulk :: "update_one list \<Rightarrow> (collection scripted, unit) io" where
  "mem_bulk ops d = (case sc_faults d of
      LostBefore # _ \<Rightarrow> (Inl (DriverError ''connection lost''),
        d\<lparr>sc_data := fold apply_update (take 1 ops) (sc_data d), sc_faults := tl (sc_faults d)\<rparr>)
    | _ \<Rightarrow> sc_call (fold apply_update ops) (\<lambda>_. ()) d)"

definition mem_mongo :: "collection scripted mongo" where
  "mem_mongo = \<lparr>mg_createIndex = ret (), mg_findOne = (\<lambda>f. sc_call (\<lambda>c. c) (find (matches f))),
     mg_find = (\<lambda>f. sc_call (\<lambda>c. c) (filter (matches f))), mg_bulkWrite = mem_bulk,
     mg_deleteOne = (\<lambda>f. sc_call (filter (\<lambda>doc. \<not> matches f doc)) (\<lambda>_. ())),
     mg_deleteWhere = (\<lambda>f. sc_call (filter (\<lambda>doc. \<not> matches f doc)) (\<lambda>_. ())),
     mg_distinct_sessionId = sc_call (\<lambda>c. c) (\<lambda>c. remdups (map md_sessionId c))\<rparr>"

lemma find_in: "find P xs = Some x \<Longrightarrow> x \<in> set xs \<and> P x"
  by (induction xs) (auto split: if_splits)

lemma mem_mongo_server: "mongo_server mem_mongo sc_data (\<lambda>d. sc_faults d = [])"
proof
  fix d d' :: "collection scripted" and f g q l ops s k and r :: "error + unit"
  show "sc_data d' = sc_data d \<and> (\<forall>x. g = Inr x \<longrightarrow> (case x of None \<Rightarrow> \<forall>doc \<in> set (sc_data d). \<not> matches f doc
      | Some doc \<Rightarrow> doc \<in> set (sc_data d) \<and> matches f doc))" if "mg_findOne mem_mongo f d = (g, d')"
  proof -
    have "sc_call (\<lambda>c. c) (find (matches f)) d = (g, d')" using that by (simp add: mem_mongo_def)
    note c = sc_call_law [OF this]
    show ?thesis
    proof (cases "find (matches f) (sc_data d)")
      case None
      with c show ?thesis by (auto simp: find_None_iff)
    next
      case (Some doc)
      with c find_in [OF Some] show ?thesis by auto
    qed
  qed
  show "sc_data d' = sc_data d \<and> (\<forall>docs. q = Inr docs \<longrightarrow> mset docs = mset (filter (matches f) (sc_data d)))"
    if "mg_find mem_mongo f d = (q, d')"
  proof -
    have "sc_call (\<lambda>c. c) (filter (matches f)) d = (q, d')" using that by (simp add: mem_mongo_def)
    from sc_call_law [OF this] show ?thesis by auto
  qed
  show "sc_data d' = sc_data d \<and> (\<forall>ids. l = Inr ids \<longrightarrow> distinct ids \<and> set ids = md_sessionId ` set (sc_data d))"
    if "mg_distinct_sessionId mem_mongo d = (l, d')"
  proof -
    have "sc_call (\<lambda>c. c) (\<lambda>c. remdups (map md_sessionId c)) d = (l, d')" using that by (simp add: mem_mongo_def)
    from sc_call_law [OF this] show ?thesis by auto
  qed
  show "case r of Inr _ \<Rightarrow> sc_data d' = fold apply_update ops (sc_data d)
      | Inl _ \<Rightarrow> \<exists>n. sc_data d' = fold apply_update (take n ops) (sc_data d)"
    if "mg_bulkWrite mem_mongo ops d = (r, d')"
  proof (cases "\<exists>fs. sc_faults d = LostBefore # fs")
    case True
    with that have "(\<exists>e. r = Inl e) \<and> sc_data d' = fold apply_update (take 1 ops) (sc_data d)"
      by (auto simp: mem_mongo_def mem_bulk_def)
    then show ?thesis by auto
  next
    case False
    with that have "sc_call (fold apply_update ops) (\<lambda>_. ()) d = (r, d')"
      by (auto simp: mem_mongo_def mem_bulk_def split: list.splits fault.splits)
    note c = sc_call_law [OF this]
    show ?thesis
    proof (cases r)
      case Inl
      have "\<exists>n. fold apply_update ops (sc_data d) = fold apply_update (take n ops) (sc_data d)" by (rule exI [of _ "length ops"]) simp
      moreover have "\<exists>n. sc_data d = fold apply_update (take n ops) (sc_data d)" by (rule exI [of _ 0]) simp
      ultimately show ?thesis using c Inl by auto
    next
      case Inr
      with c show ?thesis by auto
    qed
  qed
  show "sc_data d' = filter (\<lambda>doc. \<not> matches (ByKey s k) doc) (sc_data d) \<or> (\<exists>e. r = Inl e) \<and> sc_data d' = sc_data d"
    if "mg_deleteOne mem_mongo (ByKey s k) d = (r, d')"
  proof -
    have "sc_call (filter (\<lambda>doc. \<not> matches (ByKey s k) doc)) (\<lambda>_. ()) d = (r, d')" using that by (simp add: mem_mongo_def)
    from sc_call_law [OF this] show ?thesis by blast
  qed
  show "case r of Inr _ \<Rightarrow> sc_data d' = filter (\<lambda>doc. \<not> matches f doc) (sc_data d)
      | Inl _ \<Rightarrow> \<exists>P. sc_data d' = filter (\<lambda>doc. \<not> (matches f doc \<and> P doc)) (sc_data d)"
    if "mg_deleteWhere mem_mongo f d = (r, d')"
  proof -
    have "sc_call (filter (\<lambda>doc. \<not> matches f doc)) (\<lambda>_. ()) d = (r, d')" using that by (simp add: mem_mongo_def)
    note c = sc_call_law [OF this]
    show ?thesis
    proof (cases r)
      case Inl
      have "\<exists>P. filter (\<lambda>doc. \<not> matches f doc) (sc_data d) = filter (\<lambda>doc. \<not> (matches f doc \<and> P doc)) (sc_data d)"
        by (rule exI [of _ "\<lambda>_. True"]) simp
      moreover have "\<exists>P. sc_data d = filter (\<lambda>doc. \<not> (matches f doc \<and> P doc)) (sc_data d)"
        by (rule exI [of _ "\<lambda>_. False"]) simp
      ultimately show ?thesis using c Inl by auto
    next
      case Inr
      with c show ?thesis by auto
    qed
  qed
qed (simp_all add: mem_mongo_def mem_bulk_def sc_call_up sc_call_done)

interpretation mem_mongodb: mongo_server mem_mongo sc_data "\<lambda>d. sc_faults d = []"
  by (rule mem_mongo_server)

interpretation mongo_mem: mongo_adapter mem_mongo sc_data "\<lambda>d. sc_faults d = []" None "ret ()" "ret ()" "ret ()"
  by unfold_locales (rule may_retry_None)

section \<open>Properties\<close>

text \<open>C34. Over any MongoDB server that executes the commands as documented, the adapter is a store of rows: every
  read returns what is stored, every write that returns has stored its entries with the time given and a higher
  version, the last one winning where a key occurs twice, and a batch that throws, after all its retries, has
  stored for each of its keys either nothing or one of the values given for it, and touched no other row.\<close>

theorem mongo_refines_rows:
  assumes "mongo_server D coll up" and "may_retry opts"
  shows "row_store (mg_adapter opts import_driver connect client_close D) (pl_view (mg_view coll)) (pl_ok (mg_ok coll))
      (pl_up up) (\<lambda>_. True) (\<lambda>_. True) \<and>
    (\<forall>p s es now p'. pl_ok (mg_ok coll) p \<longrightarrow> mg_setMany opts D s es now p = (Inr (), p') \<longrightarrow>
      bumped s es (pl_view (mg_view coll) p) (pl_view (mg_view coll) p'))"
proof -
  have m: "mongo_adapter D coll up opts" using assms by (simp add: mongo_adapter_def mongo_adapter_axioms_def)
  show ?thesis
    using mongo_adapter.is_store [OF m] mongo_adapter.versions_grow [OF m] by (auto simp: mg_adapter_def)
qed

theorem mongo_refines_rows_witness:
  "row_store (mg_adapter None (ret ()) (ret ()) (ret ()) mem_mongo) (pl_view (mg_view sc_data)) (pl_ok (mg_ok sc_data))
    (pl_up (\<lambda>d. sc_faults d = [])) (\<lambda>_. True) (\<lambda>_. True)"
  by (rule conjunct1 [OF mongo_refines_rows [OF mem_mongo_server may_retry_None]])

text \<open>All or nothing would be too strong: a batch of two entries whose connection breaks half way.\<close>

lemma mongo_half_batch:
  "(case mg_setMany (Some \<lparr>ro_retries = Some 0, ro_minDelayMs = None, ro_maxDelayMs = None\<rparr>) mem_mongo ''bot''
        [(''a'', [1]), (''b'', [2])] 5
        \<lparr>po_open = True, po_db = \<lparr>sc_data = [], sc_faults = [LostBefore]\<rparr>, mo_client = True\<rparr> of
      (r, p) \<Rightarrow> (r, map md_key (sc_data (po_db p)))) = (Inl (DriverError ''connection lost''), [''a''])"
  by code_simp

end
