(* ===== verification/Spec2Isabelle.thy ===== *)
theory Spec2Isabelle
  imports AuthState CacheRaces PostgresAdapter MysqlAdapter SqliteProtocol RtdbAdapter FirestoreAdapter MongoAdapter
begin

text \<open>
  A model of \<^verbatim>\<open>baileys-session-manager\<close>: the library keeps the credentials and signal keys of WhatsApp
  sessions in a database, behind an in-memory cache and an optional Redis cache, with optional
  encryption, a lock per session and a batcher for the credentials. Paths below are under \<^verbatim>\<open>src/src/\<close>.

  \<^bold>\<open>How the program hangs together.\<close> \<open>useHybridAuthState\<close> (\<^verbatim>\<open>factory.ts\<close>) serializes and encrypts values
  (\<^verbatim>\<open>encryption/aes.ts\<close>), writes them through a lock (\<^verbatim>\<open>lock/\<close>) to a database adapter (\<^verbatim>\<open>adapters/\<close>), tells
  the \<open>CacheManager\<close> (\<^verbatim>\<open>cache/cache-manager.ts\<close>), which keeps the L1 cache (\<^verbatim>\<open>cache/memory-cache.ts\<close>) and the
  L2 cache (\<^verbatim>\<open>cache/redis-tcp.ts\<close>, \<^verbatim>\<open>cache/redis-http.ts\<close>) up to date, and reads in the order L1, L2, database.
  Credentials go through the \<open>WriteBatcher\<close> (\<^verbatim>\<open>utils/write-batcher.ts\<close>). Adapters retry their calls
  (\<^verbatim>\<open>utils/retry.ts\<close>). \<open>SessionManager\<close> (\<^verbatim>\<open>session-manager.ts\<close>) and the retention pass (\<^verbatim>\<open>retention.ts\<close>) work on
  the same adapter and caches.

  \<^bold>\<open>Theories.\<close>
  \<^item> \<^verbatim>\<open>Prelude\<close>: strings, insertion-ordered maps, computations that may throw.
  \<^item> \<^verbatim>\<open>Types\<close> (\<^verbatim>\<open>types.ts\<close>): rows, options, the interfaces as records of operations, and their contracts as
    the locales \<open>db_store\<close>, \<open>versioned_store\<close> and \<open>redis_store\<close>: what a read returns after which write,
    and that a write that throws did all or nothing.
  \<^item> \<^verbatim>\<open>Retry\<close>: the loop with its delays and warnings; the contracts survive it.
  \<^item> \<^verbatim>\<open>MemCache\<close>: the L1 object, its invariant (byte count, limits, distinct keys), LRU order, TTL, and its
    refinement to an unbounded map with expiry.
  \<^item> \<^verbatim>\<open>SqlEngine\<close>, \<^verbatim>\<open>SqlAdapter\<close>, \<^verbatim>\<open>SqlMemory\<close>: the statements of the SQL adapters with their parameters, what
    they mean on a table, the law a driver must keep (locale \<open>sql_client\<close>), the locale \<open>sql_adapter\<close> whose
    every instance is a \<open>versioned_store\<close>, the pool field, and a server in memory with a script of faults.
  \<^item> \<^verbatim>\<open>PostgresAdapter\<close>, \<^verbatim>\<open>MysqlAdapter\<close>, \<^verbatim>\<open>D1Adapter\<close>, \<^verbatim>\<open>SqliteWorker\<close>, \<^verbatim>\<open>SqliteAdapter\<close>: one theory per
    adapter (\<^verbatim>\<open>adapters/*.ts\<close>), each an instance of \<open>sql_adapter\<close>; and what the \<open>exec\<close> of D1 makes of the text of
    \<open>init\<close> (locale \<open>d1_exec\<close>).
  \<^item> \<^verbatim>\<open>SqliteProtocol\<close>: the messages between the SQLite adapter and its worker thread as a transition system
    (\<open>rpc_step\<close>): overlapping calls, a worker that dies, \<open>close\<close>; with the sequential adapter as its runs of one call.
  \<^item> \<^verbatim>\<open>DocAdapter\<close>, \<^verbatim>\<open>RtdbAdapter\<close>, \<^verbatim>\<open>FirestoreAdapter\<close>: the adapters of document databases; the Realtime
    Database adapter is a \<open>versioned_store\<close> for names without escaped and control characters, the Firestore adapter a
    \<open>db_store\<close> for names whose document ids stay apart.
  \<^item> \<^verbatim>\<open>RowStore\<close>, \<^verbatim>\<open>MongoAdapter\<close>: the weaker contract \<open>row_store\<close> of an adapter whose batches can fail half
    way (every \<open>db_store\<close> is one), and the MongoDB adapter, which keeps it.
  \<^item> \<^verbatim>\<open>Json\<close>, \<^verbatim>\<open>RedisCaches\<close>: the payload of the Redis caches and the two caches, both a \<open>redis_store\<close>.
  \<^item> \<^verbatim>\<open>CacheManager\<close>, \<^verbatim>\<open>CacheCoherence\<close>: the three levels (record \<open>world\<close>), coherence as an invariant, its
    preservation by every operation (locale \<open>cache_stack\<close>), and what breaks it.
  \<^item> \<^verbatim>\<open>CacheRaces\<close>: reads and writes of the caches that overlap, as a transition system (\<open>race_step\<close>): what stays coherent
    under every interleaving, and how a late read brings an old value back.
  \<^item> \<^verbatim>\<open>Retention\<close>, \<^verbatim>\<open>SessionManager\<close>: the cleanup pass and the management API over that locale.
  \<^item> \<^verbatim>\<open>Aes\<close>: UTF-8, hex, base64 and GCM over a block cipher that is a parameter; \<open>encrypt\<close> and \<open>decrypt\<close>.
  \<^item> \<^verbatim>\<open>Locks\<close>: the mutex per session, and the Redis lock as a transition system of any number of callers
    (\<open>lock_step\<close>) and as the sequential program of one caller; who is inside, and that the lock is free again in time.
  \<^item> \<^verbatim>\<open>Batcher\<close>: the write batcher as a transition system (\<open>wb_step\<close>), with ghost histories.
  \<^item> \<^verbatim>\<open>Factory\<close>: the operations of the auth state over all of them (locale \<open>auth_stack\<close>), with an instance that runs.
  \<^item> \<^verbatim>\<open>AuthState\<close>: \<open>useHybridAuthState\<close>, which builds the auth state from its options, what a restart preserves, and why there
    is no start on D1.

  \<^bold>\<open>Conventions.\<close> An asynchronous function is a state transformer whose result is a sum, \<open>Inl\<close> what it
  throws. The time \<open>Date.now()\<close> returns is an argument, or a field of the state. Code outside the
  repository (drivers, servers, the Redis client, the AES block cipher, \<open>initAuthCreds\<close>, \<open>BufferJSON\<close>) is
  a parameter; what is relied on are the assumptions of the locales, each of which has an instance that
  computes (servers that lose calls and answers according to a script). Machine integers: JavaScript
  numbers in the program stay far below \<open>2 ^ 53\<close> and are \<open>int\<close>; UTF-16 code units and bytes are words.

  \<^bold>\<open>Termination and fuel.\<close> The retry loop and eviction are functions with a measure. The acquisition loop of
  the Redis lock is a partial function (\<open>None\<close> is \<^emph>\<open>does not return\<close>), and is proved to return on every server
  whose clock advances by the delay. No definition uses fuel.

  \<^bold>\<open>Not modelled.\<close> Operations that \<open>Promise.all\<close> overlaps run in index order, and the operations of the session manager
  and the factory run to their end before the next; interleavings are covered where they matter most: in the locks,
  the batcher, the worker protocol and the caches (where an update of L1 and the update of Redis after it are one
  step). Overlapping calls of \<open>close\<close> on the SQLite adapter, and how it finds the worker file. Limits of servers on the
  number of placeholders or the size of a batch. Of JSON, the parser of the Redis payload reads the texts \<open>JSON.stringify\<close>
  writes for it; another JSON text under one of the program's keys, which only another program could have put there, is
  treated as unreadable. The order of integer-like keys and the special key \<open>__proto__\<close> of
  JavaScript objects. \<^verbatim>\<open>utils/logger.ts\<close> and \<^verbatim>\<open>index.ts\<close> (no logic), \<^verbatim>\<open>serialization.ts\<close> (two calls of a library, a
  parameter of \<open>Factory\<close>). The results about the caches, the session manager and the factory are for stores with atomic
  batches (\<open>db_store\<close>), so they do not cover the MongoDB adapter.
\<close>

end
